(* ===== verification/Prelude.thy ===== *)
theory Prelude
  imports Main "HOL-Library.Word" "HOL-Library.List_Lexorder"
begin

text \<open>
  Shared vocabulary of the development: machine integers as words, page buffers as byte
  lists with the slice_of operations of Rust, little- and big-endian encodings, and results
  of fallible code. Every theory below imports this one.
\<close>

section \<open>Machine integers and byte buffers\<close>

type_synonym byte = "8 word"
type_synonym u16 = "16 word"
type_synonym u32 = "32 word"
type_synonym u64 = "64 word"
type_synonym bytes = "byte list"

named_theorems buf_simps \<open>rewriting of slices of updated buffers\<close>
named_theorems enc_simps \<open>round trips of the integer encodings\<close>

subsection \<open>Results: Ok, Err and panics\<close>

text \<open>
  A fallible Rust function returns \<open>Ok\<close> or \<open>Err\<close>; an out-of-range slice_of or a failed
  \<open>unwrap\<close> is the third outcome \<open>Panic\<close>. \<open>rbind\<close> is the question-mark operator.
\<close>

datatype ('e, 'a) result = Ok 'a | Err 'e | Panic

fun rbind :: "('e, 'a) result \<Rightarrow> ('a \<Rightarrow> ('e, 'b) result) \<Rightarrow> ('e, 'b) result" where
  "rbind (Ok x) f = f x"
| "rbind (Err e) f = Err e"
| "rbind Panic f = Panic"

fun rmap :: "('a \<Rightarrow> 'b) \<Rightarrow> ('e, 'a) result \<Rightarrow> ('e, 'b) result" where
  "rmap f (Ok x) = Ok (f x)"
| "rmap f (Err e) = Err e"
| "rmap f Panic = Panic"

fun is_ok :: "('e, 'a) result \<Rightarrow> bool" where
  "is_ok (Ok x) = True"
| "is_ok (Err e) = False"
| "is_ok Panic = False"

lemma rbind_Ok_iff: "rbind m f = Ok y \<longleftrightarrow> (\<exists>x. m = Ok x \<and> f x = Ok y)"
  by (cases m) auto

lemma rbind_cong [fundef_cong]:
  "m = m' \<Longrightarrow> (\<And>x. m' = Ok x \<Longrightarrow> f x = f' x) \<Longrightarrow> rbind m f = rbind m' f'"
  by (cases m') auto

lemma rmap_Ok_iff: "rmap f m = Ok y \<longleftrightarrow> (\<exists>x. m = Ok x \<and> y = f x)"
  by (cases m) auto

text \<open>An \<open>Option\<close> turned into a result, \<open>ok_or\<close> of Rust.\<close>

definition ok_or :: "'e \<Rightarrow> 'a option \<Rightarrow> ('e, 'a) result" where
  "ok_or e x = (case x of None \<Rightarrow> Err e | Some y \<Rightarrow> Ok y)"

subsection \<open>Slices\<close>

text \<open>
  \<open>slice_of b i n\<close> is \<open>b[i..i+n]\<close>, \<open>put b i xs\<close> is \<open>b[i..i+len].copy_from_slice(xs)\<close> and
  \<open>zero b i n\<close> is \<open>b[i..i+n].fill(0)\<close>. The checked variants panic out of range, as Rust does.
\<close>

definition slice_of :: "'a list \<Rightarrow> nat \<Rightarrow> nat \<Rightarrow> 'a list" where
  "slice_of b i n = take n (drop i b)"

definition put :: "'a list \<Rightarrow> nat \<Rightarrow> 'a list \<Rightarrow> 'a list" where
  "put b i xs = take i b @ xs @ drop (i + length xs) b"

definition zero :: "bytes \<Rightarrow> nat \<Rightarrow> nat \<Rightarrow> bytes" where
  "zero b i n = put b i (replicate n 0)"

definition slice_chk :: "'a list \<Rightarrow> nat \<Rightarrow> nat \<Rightarrow> ('e, 'a list) result" where
  "slice_chk b i n = (if i + n \<le> length b then Ok (slice_of b i n) else Panic)"

definition put_chk :: "'a list \<Rightarrow> nat \<Rightarrow> 'a list \<Rightarrow> ('e, 'a list) result" where
  "put_chk b i xs = (if i + length xs \<le> length b then Ok (put b i xs) else Panic)"

definition zero_chk :: "bytes \<Rightarrow> nat \<Rightarrow> nat \<Rightarrow> ('e, bytes) result" where
  "zero_chk b i n = put_chk b i (replicate n 0)"

lemma length_slice [simp]: "i + n \<le> length b \<Longrightarrow> length (slice_of b i n) = n"
  by (simp add: slice_of_def)

lemma length_put [simp]: "i + length xs \<le> length b \<Longrightarrow> length (put b i xs) = length b"
  by (simp add: put_def)

lemma length_zero [simp]: "i + n \<le> length b \<Longrightarrow> length (zero b i n) = length b"
  by (simp add: zero_def)

lemma nth_slice: "k < n \<Longrightarrow> i + n \<le> length b \<Longrightarrow> slice_of b i n ! k = b ! (i + k)"
  by (simp add: slice_of_def)

lemma nth_put:
  "i + length xs \<le> length b \<Longrightarrow> k < length b \<Longrightarrow>
   put b i xs ! k = (if i \<le> k \<and> k < i + length xs then xs ! (k - i) else b ! k)"
  by (auto simp: put_def nth_append min_def)

lemma slice_eqI:
  assumes "i + n \<le> length b" "j + n \<le> length c" "\<And>k. k < n \<Longrightarrow> b ! (i + k) = c ! (j + k)"
  shows "slice_of b i n = slice_of c j n"
  using assms by (intro nth_equalityI) (auto simp: nth_slice)

lemma slice_put_same [buf_simps]:
  "i + length xs \<le> length b \<Longrightarrow> slice_of (put b i xs) i (length xs) = xs"
  by (simp add: slice_of_def put_def)

lemma slice_put_inside:
  assumes "i + length xs \<le> length b" "i \<le> j" "j + n \<le> i + length xs"
  shows "slice_of (put b i xs) j n = slice_of xs (j - i) n"
  using assms by (intro nth_equalityI) (auto simp: nth_slice nth_put)

lemma slice_put_other:
  assumes "i + length xs \<le> length b" "j + n \<le> i \<or> i + length xs \<le> j"
  shows "slice_of (put b i xs) j n = slice_of b j n"
  using assms(2)
proof
  assume "j + n \<le> i"
  with assms(1) show ?thesis
    by (intro slice_eqI) (auto simp: nth_put)
next
  assume "i + length xs \<le> j"
  with assms(1) show ?thesis
    by (simp add: slice_of_def put_def min_def)
qed

lemma slice_put_before [buf_simps]:
  "i + length xs \<le> length b \<Longrightarrow> j + n \<le> i \<Longrightarrow> slice_of (put b i xs) j n = slice_of b j n"
  by (simp add: slice_put_other)

lemma slice_put_after [buf_simps]:
  "i + length xs \<le> length b \<Longrightarrow> i + length xs \<le> j \<Longrightarrow>
   slice_of (put b i xs) j n = slice_of b j n"
  by (simp add: slice_put_other)

lemma slice_zero_other:
  "i + m \<le> length b \<Longrightarrow> j + n \<le> i \<or> i + m \<le> j \<Longrightarrow> slice_of (zero b i m) j n = slice_of b j n"
  by (simp add: zero_def slice_put_other)

lemma slice_zero_before [buf_simps]:
  "i + m \<le> length b \<Longrightarrow> j + n \<le> i \<Longrightarrow> slice_of (zero b i m) j n = slice_of b j n"
  by (simp add: slice_zero_other)

lemma slice_zero_after [buf_simps]:
  "i + m \<le> length b \<Longrightarrow> i + m \<le> j \<Longrightarrow> slice_of (zero b i m) j n = slice_of b j n"
  by (simp add: slice_zero_other)

lemma slice_zero_same [buf_simps]:
  "i + n \<le> length b \<Longrightarrow> slice_of (zero b i n) i n = replicate n 0"
  using slice_put_same [of i "replicate n 0" b] by (simp add: zero_def)

lemma slice_slice: "j + m \<le> n \<Longrightarrow> slice_of (slice_of b i n) j m = slice_of b (i + j) m"
  by (simp add: slice_of_def drop_take min_def add.commute)

lemma slice_all [simp]: "slice_of b 0 (length b) = b"
  by (simp add: slice_of_def)

lemma slice_0 [simp]: "slice_of b i 0 = []"
  by (simp add: slice_of_def)

lemma slice_append_left: "i + n \<le> length xs \<Longrightarrow> slice_of (xs @ ys) i n = slice_of xs i n"
  by (simp add: slice_of_def)

lemma slice_append_right: "length xs \<le> i \<Longrightarrow> slice_of (xs @ ys) i n = slice_of ys (i - length xs) n"
  by (simp add: slice_of_def)

lemma slice_chk_Ok [simp]: "i + n \<le> length b \<Longrightarrow> slice_chk b i n = Ok (slice_of b i n)"
  by (simp add: slice_chk_def)

lemma put_chk_Ok [simp]: "i + length xs \<le> length b \<Longrightarrow> put_chk b i xs = Ok (put b i xs)"
  by (simp add: put_chk_def)

lemma zero_chk_Ok [simp]: "i + n \<le> length b \<Longrightarrow> zero_chk b i n = Ok (zero b i n)"
  by (simp add: zero_chk_def zero_def)

subsection \<open>Little- and big-endian integers\<close>

fun le_bytes :: "nat \<Rightarrow> nat \<Rightarrow> bytes" where
  "le_bytes 0 v = []"
| "le_bytes (Suc n) v = of_nat (v mod 256) # le_bytes n (v div 256)"

fun le_val :: "bytes \<Rightarrow> nat" where
  "le_val [] = 0"
| "le_val (b # bs) = unat b + 256 * le_val bs"

definition be_bytes :: "nat \<Rightarrow> nat \<Rightarrow> bytes" where
  "be_bytes n v = rev (le_bytes n v)"

definition be_val :: "bytes \<Rightarrow> nat" where
  "be_val bs = le_val (rev bs)"

lemma length_le_bytes [simp]: "length (le_bytes n v) = n"
  by (induction n arbitrary: v) auto

lemma length_be_bytes [simp]: "length (be_bytes n v) = n"
  by (simp add: be_bytes_def)

lemma le_val_le_bytes: "le_val (le_bytes n v) = v mod 256 ^ n"
proof (induction n arbitrary: v)
  case (Suc n)
  have "unat (of_nat (v mod 256) :: byte) = v mod 256"
    by (simp add: unat_of_nat)
  then show ?case
    using Suc by (simp add: mod_mult2_eq add.commute)
qed simp

lemma le_val_bound: "le_val bs < 256 ^ length bs"
proof (induction bs)
  case (Cons b bs)
  have "unat b < 256" using unsigned_less [of b, where 'a = nat] by simp
  with Cons show ?case by simp
qed simp

lemma le_bytes_le_val: "le_bytes (length bs) (le_val bs) = bs"
proof (induction bs)
  case (Cons b bs)
  have b: "unat b < 256" using unsigned_less [of b, where 'a = nat] by simp
  then have "(unat b + 256 * le_val bs) mod 256 = unat b" by simp
  moreover from b have "(unat b + 256 * le_val bs) div 256 = le_val bs" by simp
  ultimately show ?case using Cons by simp
qed simp

text \<open>The reads and writes of fixed-width fields at a byte offset.\<close>

definition rd16 :: "bytes \<Rightarrow> nat \<Rightarrow> u16" where
  "rd16 b i = of_nat (le_val (slice_of b i 2))"

definition rd32 :: "bytes \<Rightarrow> nat \<Rightarrow> u32" where
  "rd32 b i = of_nat (le_val (slice_of b i 4))"

definition rd64 :: "bytes \<Rightarrow> nat \<Rightarrow> u64" where
  "rd64 b i = of_nat (le_val (slice_of b i 8))"

definition le16 :: "u16 \<Rightarrow> bytes" where "le16 w = le_bytes 2 (unat w)"
definition le32 :: "u32 \<Rightarrow> bytes" where "le32 w = le_bytes 4 (unat w)"
definition le64 :: "u64 \<Rightarrow> bytes" where "le64 w = le_bytes 8 (unat w)"
definition be64 :: "u64 \<Rightarrow> bytes" where "be64 w = be_bytes 8 (unat w)"

lemma length_le16 [simp]: "length (le16 w) = 2" by (simp add: le16_def)
lemma length_le32 [simp]: "length (le32 w) = 4" by (simp add: le32_def)
lemma length_le64 [simp]: "length (le64 w) = 8" by (simp add: le64_def)
lemma length_be64 [simp]: "length (be64 w) = 8" by (simp add: be64_def)

lemma of_nat_le_val_le16 [simp]: "of_nat (le_val (le16 w)) = w"
  using unsigned_less [of w, where 'a = nat] by (simp add: le16_def le_val_le_bytes)

lemma of_nat_le_val_le32 [simp]: "of_nat (le_val (le32 w)) = w"
  using unsigned_less [of w, where 'a = nat] by (simp add: le32_def le_val_le_bytes)

lemma of_nat_le_val_le64 [simp]: "of_nat (le_val (le64 w)) = w"
  using unsigned_less [of w, where 'a = nat] by (simp add: le64_def le_val_le_bytes)

lemma of_nat_be_val_be64 [simp]: "of_nat (be_val (be64 w)) = w"
  using unsigned_less [of w, where 'a = nat] by (simp add: be64_def be_val_def be_bytes_def le_val_le_bytes)

lemma le16_of_le_val: "length b = 2 \<Longrightarrow> le16 (of_nat (le_val b)) = b"
  using le_val_bound [of b] le_bytes_le_val [of b]
  by (simp add: le16_def unat_of_nat)

lemma le32_of_le_val: "length b = 4 \<Longrightarrow> le32 (of_nat (le_val b)) = b"
  using le_val_bound [of b] le_bytes_le_val [of b]
  by (simp add: le32_def unat_of_nat)

lemma le64_of_le_val: "length b = 8 \<Longrightarrow> le64 (of_nat (le_val b)) = b"
  using le_val_bound [of b] le_bytes_le_val [of b]
  by (simp add: le64_def unat_of_nat)

lemma rd16_put_same [enc_simps]: "i + 2 \<le> length b \<Longrightarrow> rd16 (put b i (le16 w)) i = w"
  using slice_put_same [of i "le16 w" b] by (simp add: rd16_def)

lemma rd32_put_same [enc_simps]: "i + 4 \<le> length b \<Longrightarrow> rd32 (put b i (le32 w)) i = w"
  using slice_put_same [of i "le32 w" b] by (simp add: rd32_def)

lemma rd64_put_same [enc_simps]: "i + 8 \<le> length b \<Longrightarrow> rd64 (put b i (le64 w)) i = w"
  using slice_put_same [of i "le64 w" b] by (simp add: rd64_def)

lemma rd_put_other:
  assumes "i + length xs \<le> length b"
  shows "j + 2 \<le> i \<or> i + length xs \<le> j \<Longrightarrow> rd16 (put b i xs) j = rd16 b j"
    and "j + 4 \<le> i \<or> i + length xs \<le> j \<Longrightarrow> rd32 (put b i xs) j = rd32 b j"
    and "j + 8 \<le> i \<or> i + length xs \<le> j \<Longrightarrow> rd64 (put b i xs) j = rd64 b j"
  using assms by (simp_all add: rd16_def rd32_def rd64_def slice_put_other)

lemma rd_put_before [enc_simps]:
  assumes "i + length xs \<le> length b"
  shows "j + 2 \<le> i \<Longrightarrow> rd16 (put b i xs) j = rd16 b j"
    and "j + 4 \<le> i \<Longrightarrow> rd32 (put b i xs) j = rd32 b j"
    and "j + 8 \<le> i \<Longrightarrow> rd64 (put b i xs) j = rd64 b j"
  using assms by (simp_all add: rd_put_other)

lemma rd_put_after [enc_simps]:
  assumes "i + length xs \<le> length b" "i + length xs \<le> j"
  shows "rd16 (put b i xs) j = rd16 b j"
    and "rd32 (put b i xs) j = rd32 b j"
    and "rd64 (put b i xs) j = rd64 b j"
  using assms by (simp_all add: rd_put_other)

lemma rd_zero_before [enc_simps]:
  assumes "i + n \<le> length b"
  shows "j + 2 \<le> i \<Longrightarrow> rd16 (zero b i n) j = rd16 b j"
    and "j + 4 \<le> i \<Longrightarrow> rd32 (zero b i n) j = rd32 b j"
    and "j + 8 \<le> i \<Longrightarrow> rd64 (zero b i n) j = rd64 b j"
  using assms by (simp_all add: zero_def rd_put_other)

lemma rd_zero_after [enc_simps]:
  assumes "i + n \<le> length b" "i + n \<le> j"
  shows "rd16 (zero b i n) j = rd16 b j"
    and "rd32 (zero b i n) j = rd32 b j"
    and "rd64 (zero b i n) j = rd64 b j"
  using assms by (simp_all add: zero_def rd_put_other)

lemma le64_inject [simp]: "le64 a = le64 b \<longleftrightarrow> a = b"
  by (metis of_nat_le_val_le64)

lemma be64_inject [simp]: "be64 a = be64 b \<longleftrightarrow> a = b"
  by (metis of_nat_be_val_be64)

end
