(* ===== verification/Effects.thy ===== *)
theory Effects
  imports Prelude
begin

text \<open>
  Stateful fallible code: a method that mutates its receiver and returns a result is a
  function from the state to the new state and the result. The state is kept when the method
  fails, as mutations before an early return are. Also here: the saturating arithmetic the
  sources use on counters.
\<close>

section \<open>Saturating arithmetic\<close>

definition sat_succ :: "u64 \<Rightarrow> u64" where
  "sat_succ x = (if x = - 1 then x else x + 1)"

definition sat_add :: "u64 \<Rightarrow> u64 \<Rightarrow> u64" where
  "sat_add x y = (if unat x + unat y < 2 ^ 64 then x + y else - 1)"

definition sat_sub :: "u64 \<Rightarrow> u64 \<Rightarrow> u64" where
  "sat_sub x y = (if y \<le> x then x - y else 0)"

definition sat_mul :: "u64 \<Rightarrow> u64 \<Rightarrow> u64" where
  "sat_mul x y = (if unat x * unat y < 2 ^ 64 then x * y else - 1)"

lemma unat_max_u64: "unat (- 1 :: u64) = 2 ^ 64 - 1"
  by (simp add: unsigned_minus_1_eq_mask mask_eq_exp_minus_1)

lemma unat_less_u64: "unat (x :: u64) < 2 ^ 64"
  using unsigned_less [of x, where 'a = nat] by simp

lemma unat_add_u64: "unat x + unat y < 2 ^ 64 \<Longrightarrow> unat (x + y :: u64) = unat x + unat y"
  by (simp add: unat_word_ariths)

lemma unat_mult_u64: "unat x * unat y < 2 ^ 64 \<Longrightarrow> unat (x * y :: u64) = unat x * unat y"
  by (simp add: unat_word_ariths)

lemma unat_sub_u64: "y \<le> x \<Longrightarrow> unat (x - y :: u64) = unat x - unat y"
  by (rule unat_sub)

lemma unat_of_nat_u64: "n < 2 ^ 64 \<Longrightarrow> unat (of_nat n :: u64) = n"
  by (simp add: unat_of_nat)

lemma not_max_u64: "x < y \<Longrightarrow> (x :: u64) \<noteq> - 1"
  using word_order.extremum [of y] by auto

lemma sat_succ_less: "x < y \<Longrightarrow> unat (sat_succ x) = Suc (unat x)"
proof -
  assume "x < y"
  then have "unat x < unat (- 1 :: u64)"
    by (metis not_max_u64 word_le_less_eq word_less_nat_alt word_order.extremum)
  then show ?thesis
    using \<open>x < y\<close> by (simp add: sat_succ_def not_max_u64 unat_word_ariths unat_max_u64)
qed

lemma sat_succ_iff: "x < y \<Longrightarrow> z < sat_succ x \<longleftrightarrow> z \<le> x"
  using sat_succ_less [of x y] by (auto simp: word_less_nat_alt word_le_nat_alt)

lemma sat_succ_le: "x < y \<Longrightarrow> sat_succ x \<le> z \<longleftrightarrow> x < z"
  using sat_succ_iff [of x y z] by (auto simp: not_less [symmetric])

lemma sat_succ_max: "x \<noteq> - 1 \<Longrightarrow> x < sat_succ x"
  using sat_succ_iff [of x "- 1" x] by (metis order_refl word_le_less_eq word_order.extremum)

lemma unat_sat_sub: "unat (sat_sub x y) = unat x - unat y"
  by (simp add: sat_sub_def unat_sub_u64 word_le_nat_alt)

lemma sat_add_ge: "x \<le> sat_add x y" "y \<le> sat_add x y"
  by (simp_all add: sat_add_def word_le_nat_alt unat_add_u64 unat_max_u64)
     (use unat_less_u64 [of x] unat_less_u64 [of y] in simp_all)

section \<open>State with results\<close>

type_synonym ('s, 'e, 'a) sm = "'s \<Rightarrow> 's \<times> ('e, 'a) result"

definition m_return :: "'a \<Rightarrow> ('s, 'e, 'a) sm" where
  "m_return x s = (s, Ok x)"

definition m_err :: "'e \<Rightarrow> ('s, 'e, 'a) sm" where
  "m_err e s = (s, Err e)"

definition m_lift :: "('e, 'a) result \<Rightarrow> ('s, 'e, 'a) sm" where
  "m_lift r s = (s, r)"

definition m_get :: "('s, 'e, 's) sm" where
  "m_get s = (s, Ok s)"

definition m_gets :: "('s \<Rightarrow> 'a) \<Rightarrow> ('s, 'e, 'a) sm" where
  "m_gets f s = (s, Ok (f s))"

definition m_modify :: "('s \<Rightarrow> 's) \<Rightarrow> ('s, 'e, unit) sm" where
  "m_modify f s = (f s, Ok ())"

definition m_read :: "('s \<Rightarrow> ('e, 'a) result) \<Rightarrow> ('s, 'e, 'a) sm" where
  "m_read f s = (s, f s)"

definition m_bind :: "('s, 'e, 'a) sm \<Rightarrow> ('a \<Rightarrow> ('s, 'e, 'b) sm) \<Rightarrow> ('s, 'e, 'b) sm" where
  "m_bind m f s =
     (case m s of
        (s', Ok x) \<Rightarrow> f x s'
      | (s', Err e) \<Rightarrow> (s', Err e)
      | (s', Panic) \<Rightarrow> (s', Panic))"

definition m_then :: "('s, 'e, unit) sm \<Rightarrow> ('s, 'e, 'b) sm \<Rightarrow> ('s, 'e, 'b) sm" where
  "m_then m n = m_bind m (\<lambda>_. n)"

definition m_guard :: "bool \<Rightarrow> 'e \<Rightarrow> ('s, 'e, unit) sm" where
  "m_guard b e s = (s, if b then Ok () else Err e)"

lemmas m_simps = m_return_def m_err_def m_lift_def m_get_def m_gets_def m_modify_def m_read_def m_guard_def

lemma m_bind_Ok: "m s = (s', Ok x) \<Longrightarrow> m_bind m f s = f x s'"
  by (simp add: m_bind_def)

lemma m_bind_Err: "m s = (s', Err e) \<Longrightarrow> m_bind m f s = (s', Err e)"
  by (simp add: m_bind_def)

lemma m_bind_simps [simp]:
  "m_bind (m_return x) f s = f x s"
  "m_bind (m_err e) f s = (s, Err e)"
  "m_bind m_get f s = f s s"
  "m_bind (m_gets g) f s = f (g s) s"
  "m_bind (m_modify h) k s = k () (h s)"
  by (simp_all add: m_bind_def m_simps)

lemma m_then_simps [simp]:
  "m_then (m_modify h) n s = n (h s)"
  "m_then (m_guard b e) n s = (if b then n s else (s, Err e))"
  by (simp_all add: m_then_def m_bind_def m_simps)

lemma m_bind_lift [simp]:
  "m_bind (m_lift (Ok x)) f s = f x s"
  "m_bind (m_lift (Err e)) f s = (s, Err e)"
  "m_bind (m_lift Panic) f s = (s, Panic)"
  by (simp_all add: m_bind_def m_simps)

lemma m_bind_read [simp]:
  "m_bind (m_read g) f s = (case g s of Ok x \<Rightarrow> f x s | Err e \<Rightarrow> (s, Err e) | Panic \<Rightarrow> (s, Panic))"
  by (simp add: m_bind_def m_simps split: result.splits)

lemma m_bind_result:
  "m_bind m f s = (s', Ok y) \<longleftrightarrow> (\<exists>s1 x. m s = (s1, Ok x) \<and> f x s1 = (s', Ok y))"
  by (auto simp: m_bind_def split: prod.splits result.splits)

lemma m_then_result:
  "m_then m n s = (s', Ok y) \<longleftrightarrow> (\<exists>s1. m s = (s1, Ok ()) \<and> n s1 = (s', Ok y))"
  by (simp add: m_then_def m_bind_result)

lemma m_read_result: "m_read f s = (s', Ok y) \<longleftrightarrow> s' = s \<and> f s = Ok y"
  by (auto simp: m_read_def)

lemma m_bind_cong [fundef_cong]:
  "m s = m' s' \<Longrightarrow> (\<And>t x. m' s' = (t, Ok x) \<Longrightarrow> f x t = f' x t) \<Longrightarrow> m_bind m f s = m_bind m' f' s'"
  by (auto simp: m_bind_def split: prod.splits result.splits)

end
