(* ===== verification/Page_Error.thy ===== *)
theory Page_Error
  imports Prelude
begin

text \<open>
  The error type of the page crate (\<open>crates/bicdb-page/src/error.rs\<close>) with its three
  classification predicates, and the tuple locator of \<open>slotted.rs\<close>, which some errors
  carry. Every variant is kept with its structured fields; file paths, operating-system
  errors and human-readable reason strings are not modelled.
\<close>

type_synonym page_id = u64

record tuple_locator =
  tl_page_id :: page_id
  tl_slot :: u16
  tl_generation :: u32

datatype (plugins only: code size) page_error =
    BackupSnapshot
  | Io
  | NotAPageFile bytes
  | AlreadyOpen
  | UnsupportedVersion u16 u16
  | PageSizeMismatch nat nat
  | ChecksumMismatch page_id u32 u32
  | TornPage page_id u64 u64
  | UnexpectedPageType page_id byte byte
  | OutOfBounds page_id u64
  | SegmentMissing u64
  | InvalidExtentBytes u64 nat
  | PageAlreadyFree page_id
  | CannotFreeRootPage page_id
  | InvalidAllocationPageType byte
  | FreeListCorruption page_id u64 u64
  | ShortRead page_id nat nat
  | ShortWrite page_id nat nat
  | WalCorruption u64
  | MetaCorruption page_id
  | InvalidPageSize nat
  | BudgetTooSmall u64 nat
  | InvalidMaintenanceLimits
  | PoolExhausted page_id nat
  | ReadOnlyPageSource page_id
  | EvictedWhilePinned page_id u32
  | ValueTooLarge page_id nat nat
  | NoSuchSlot page_id u16 u16
  | DeadSlot page_id u16
  | WriteConflict u64 u64
  | CorruptFutureTransactionId u64 u64
  | TransactionFloorRefused u64
  | HeaderRepairRefused u64 u64
  | StaleLocator page_id u16 u64 u64
  | VersionChainCycle tuple_locator tuple_locator nat nat
  | VersionChainLimitExceeded tuple_locator tuple_locator nat
  | VersionChainChanged tuple_locator "tuple_locator option"
  | VersionChainRepairRefused
  | TieredStorage

type_synonym 'a res = "(page_error, 'a) result"

definition is_write_conflict :: "page_error \<Rightarrow> bool" where
  "is_write_conflict e = (case e of WriteConflict _ _ \<Rightarrow> True | _ \<Rightarrow> False)"

definition is_version_chain_fault :: "page_error \<Rightarrow> bool" where
  "is_version_chain_fault e =
     (case e of
        VersionChainCycle _ _ _ _ \<Rightarrow> True
      | VersionChainLimitExceeded _ _ _ \<Rightarrow> True
      | VersionChainChanged _ _ \<Rightarrow> True
      | VersionChainRepairRefused \<Rightarrow> True
      | _ \<Rightarrow> False)"

definition is_corruption :: "page_error \<Rightarrow> bool" where
  "is_corruption e =
     (case e of
        NotAPageFile _ \<Rightarrow> True
      | SegmentMissing _ \<Rightarrow> True
      | ChecksumMismatch _ _ _ \<Rightarrow> True
      | TornPage _ _ _ \<Rightarrow> True
      | UnexpectedPageType _ _ _ \<Rightarrow> True
      | FreeListCorruption _ _ _ \<Rightarrow> True
      | ShortRead _ _ _ \<Rightarrow> True
      | ShortWrite _ _ _ \<Rightarrow> True
      | WalCorruption _ \<Rightarrow> True
      | MetaCorruption _ \<Rightarrow> True
      | _ \<Rightarrow> False)"

lemmas error_class_defs = is_write_conflict_def is_version_chain_fault_def is_corruption_def

lemma fault_classes_disjoint:
  "\<not> (is_write_conflict e \<and> is_corruption e)"
  "\<not> (is_version_chain_fault e \<and> is_corruption e)"
  by (cases e; simp add: error_class_defs)+

end
