(* ===== verification/Page.thy ===== *)
theory Page
  imports Page_Error
begin

text \<open>
  The on-disk page format of \<open>crates/bicdb-page/src/page.rs\<close>: the 64-byte header and its
  encoding, the generation trailer, the checksum and the verification of a page read back.
  The checksum itself is the crate \<open>crc32fast\<close>: it is the parameter \<open>crc\<close>, applied to the
  concatenation of the slices the hasher is fed.
\<close>

unbundle bit_operations_syntax

section \<open>Page format\<close>

abbreviation (input) PAGE_HEADER_BYTES :: nat where "PAGE_HEADER_BYTES \<equiv> 64"
abbreviation (input) PAGE_TRAILER_BYTES :: nat where "PAGE_TRAILER_BYTES \<equiv> 8"
abbreviation (input) MIN_PAGE_SIZE :: nat where "MIN_PAGE_SIZE \<equiv> 512"
abbreviation (input) MAX_PAGE_SIZE :: nat where "MAX_PAGE_SIZE \<equiv> 1048576"
abbreviation (input) PAGE_FORMAT_VERSION :: u16 where "PAGE_FORMAT_VERSION \<equiv> 1"
abbreviation (input) SUPERBLOCK_PAGE_ID :: page_id where "SUPERBLOCK_PAGE_ID \<equiv> 0"

definition PAGE_MAGIC :: bytes where
  "PAGE_MAGIC = [0x42, 0x50, 0x47, 0x31]"

datatype page_type = Superblock | Heap | Overflow | BTreeInterior | BTreeLeaf | Free

fun page_type_u8 :: "page_type \<Rightarrow> byte" where
  "page_type_u8 Superblock = 1"
| "page_type_u8 Heap = 2"
| "page_type_u8 Overflow = 3"
| "page_type_u8 BTreeInterior = 4"
| "page_type_u8 BTreeLeaf = 5"
| "page_type_u8 Free = 6"

definition page_type_from_u8 :: "byte \<Rightarrow> page_type option" where
  "page_type_from_u8 v =
     (if v = 1 then Some Superblock
      else if v = 2 then Some Heap
      else if v = 3 then Some Overflow
      else if v = 4 then Some BTreeInterior
      else if v = 5 then Some BTreeLeaf
      else if v = 6 then Some Free
      else None)"

lemma page_type_from_u8_inverse [simp]: "page_type_from_u8 (page_type_u8 t) = Some t"
  by (cases t) (simp_all add: page_type_from_u8_def)

lemma page_type_from_u8_Some: "page_type_from_u8 v = Some t \<longleftrightarrow> v = page_type_u8 t"
  by (cases t) (auto simp: page_type_from_u8_def split: if_splits)

lemma page_type_u8_inject [simp]: "page_type_u8 s = page_type_u8 t \<longleftrightarrow> s = t"
  by (metis page_type_from_u8_inverse option.inject)

subsection \<open>Page sizes and offsets\<close>

fun is_power_of_two :: "nat \<Rightarrow> bool" where
  "is_power_of_two n = (if n \<le> 1 then n = 1 else even n \<and> is_power_of_two (n div 2))"

declare is_power_of_two.simps [simp del]

lemma is_power_of_two_iff: "is_power_of_two n \<longleftrightarrow> (\<exists>k. n = 2 ^ k)"
proof (induction n rule: is_power_of_two.induct)
  case (1 n)
  show ?case
  proof (cases "n \<le> 1")
    case True
    then show ?thesis
      by (subst is_power_of_two.simps) (auto intro: exI [of _ 0] simp: le_Suc_eq)
  next
    case False
    have "(\<exists>k. n = 2 ^ k) \<longleftrightarrow> even n \<and> (\<exists>k. n div 2 = 2 ^ k)" (is "?l \<longleftrightarrow> ?r")
    proof
      assume ?l
      then obtain k where k: "n = 2 ^ k" by blast
      with False show ?r by (cases k) auto
    next
      assume ?r
      then obtain k where "even n" "n div 2 = 2 ^ k" by blast
      then have "n = 2 ^ Suc k" by auto
      then show ?l ..
    qed
    with 1 [OF False] False show ?thesis by (subst is_power_of_two.simps) simp
  qed
qed

definition validate_page_size :: "nat \<Rightarrow> unit res" where
  "validate_page_size page_size =
     (if page_size < MIN_PAGE_SIZE \<or> page_size > MAX_PAGE_SIZE
         \<or> \<not> is_power_of_two page_size
         \<or> page_size \<le> PAGE_HEADER_BYTES + PAGE_TRAILER_BYTES
      then Err (InvalidPageSize page_size)
      else Ok ())"

definition file_offset :: "page_id \<Rightarrow> u32 \<Rightarrow> u64" where
  "file_offset page_id page_size = page_id * ucast page_size"

definition usable_bytes :: "nat \<Rightarrow> nat" where
  "usable_bytes page_size = page_size - PAGE_HEADER_BYTES - PAGE_TRAILER_BYTES"

subsection \<open>The header\<close>

record page_header =
  ph_page_id :: page_id
  ph_page_type :: page_type
  ph_format_version :: u16
  ph_flags :: byte
  ph_generation :: u64
  ph_lsn :: u64
  ph_free_start :: u16
  ph_free_end :: u16
  ph_slot_count :: u16
  ph_next_page :: page_id
  ph_payload_len :: u32

definition header_new :: "page_id \<Rightarrow> page_type \<Rightarrow> nat \<Rightarrow> page_header" where
  "header_new page_id page_type page_size =
     \<lparr> ph_page_id = page_id, ph_page_type = page_type,
       ph_format_version = PAGE_FORMAT_VERSION, ph_flags = 0, ph_generation = 0, ph_lsn = 0,
       ph_free_start = of_nat PAGE_HEADER_BYTES,
       ph_free_end = of_nat (page_size - PAGE_TRAILER_BYTES),
       ph_slot_count = 0, ph_next_page = 0, ph_payload_len = 0 \<rparr>"

definition is_compressed :: "page_header \<Rightarrow> bool" where
  "is_compressed h \<longleftrightarrow> ph_flags h AND 1 \<noteq> 0"

definition is_encrypted :: "page_header \<Rightarrow> bool" where
  "is_encrypted h \<longleftrightarrow> ph_flags h AND 2 \<noteq> 0"

text \<open>The field writes of \<open>PageHeader::encode\<close>, in source order.\<close>

definition header_encode :: "page_header \<Rightarrow> bytes \<Rightarrow> bytes" where
  "header_encode h page0 =
     (let page = put page0 0 PAGE_MAGIC;
          page = put page 4 (le16 (ph_format_version h));
          page = put page 6 [page_type_u8 (ph_page_type h)];
          page = put page 7 [ph_flags h];
          page = put page 8 (le64 (ph_page_id h));
          page = put page 16 (le64 (ph_generation h));
          page = put page 24 (le64 (ph_lsn h));
          page = put page 32 (le32 0);
          page = put page 36 (le16 (ph_free_start h));
          page = put page 38 (le16 (ph_free_end h));
          page = put page 40 (le16 (ph_slot_count h));
          page = put page 42 (le16 0);
          page = put page 44 (le64 (ph_next_page h));
          page = put page 52 (le32 (ph_payload_len h))
      in put page 56 (le64 0))"

definition header_decode :: "bytes \<Rightarrow> page_header res" where
  "header_decode page =
     (if length page < PAGE_HEADER_BYTES + PAGE_TRAILER_BYTES
      then Err (InvalidPageSize (length page mod 2 ^ 32))
      else if slice_of page 0 4 \<noteq> PAGE_MAGIC then Err (NotAPageFile (slice_of page 0 4))
      else if rd16 page 4 > PAGE_FORMAT_VERSION
      then Err (UnsupportedVersion (rd16 page 4) PAGE_FORMAT_VERSION)
      else case page_type_from_u8 (page ! 6) of
        None \<Rightarrow> Err (UnexpectedPageType (rd64 page 8) (page ! 6) 0)
      | Some page_type \<Rightarrow>
          Ok \<lparr> ph_page_id = rd64 page 8, ph_page_type = page_type,
               ph_format_version = rd16 page 4, ph_flags = page ! 7,
               ph_generation = rd64 page 16, ph_lsn = rd64 page 24,
               ph_free_start = rd16 page 36, ph_free_end = rd16 page 38,
               ph_slot_count = rd16 page 40, ph_next_page = rd64 page 44,
               ph_payload_len = rd32 page 52 \<rparr>)"

subsection \<open>Checksum, finalisation and verification\<close>

definition checksum_input :: "bytes \<Rightarrow> bytes" where
  "checksum_input page = slice_of page 0 32 @ replicate 4 0 @ drop 36 page"

definition compute_checksum :: "(bytes \<Rightarrow> u32) \<Rightarrow> bytes \<Rightarrow> u32" where
  "compute_checksum crc page = crc (checksum_input page)"

definition stored_checksum :: "bytes \<Rightarrow> u32" where
  "stored_checksum page = rd32 page 32"

definition finalize :: "(bytes \<Rightarrow> u32) \<Rightarrow> bytes \<Rightarrow> u64 \<Rightarrow> bytes" where
  "finalize crc page0 generation =
     (let page = put page0 16 (le64 generation);
          page = put page (length page0 - PAGE_TRAILER_BYTES) (le64 generation)
      in put page 32 (le32 (compute_checksum crc page)))"

definition verify :: "(bytes \<Rightarrow> u32) \<Rightarrow> bytes \<Rightarrow> page_id \<Rightarrow> unit res" where
  "verify crc page page_id =
     (if stored_checksum page \<noteq> compute_checksum crc page
      then Err (ChecksumMismatch page_id (stored_checksum page) (compute_checksum crc page))
      else if rd64 page 16 \<noteq> rd64 page (length page - PAGE_TRAILER_BYTES)
      then Err (TornPage page_id (rd64 page 16) (rd64 page (length page - PAGE_TRAILER_BYTES)))
      else Ok ())"

subsection \<open>Round trip of the header\<close>

lemma length_PAGE_MAGIC [simp]: "length PAGE_MAGIC = 4"
  by (simp add: PAGE_MAGIC_def)

text \<open>
  The fifteen writes of \<open>encode\<close> are contiguous from offset 0: together they replace the
  first 64 bytes by the concatenated fields.
\<close>

definition header_layout :: "page_header \<Rightarrow> bytes" where
  "header_layout h =
     ((((((((((((((PAGE_MAGIC @ le16 (ph_format_version h)) @ [page_type_u8 (ph_page_type h)])
       @ [ph_flags h]) @ le64 (ph_page_id h)) @ le64 (ph_generation h)) @ le64 (ph_lsn h))
       @ le32 0) @ le16 (ph_free_start h)) @ le16 (ph_free_end h)) @ le16 (ph_slot_count h))
       @ le16 0) @ le64 (ph_next_page h)) @ le32 (ph_payload_len h)) @ le64 0)"

lemma put_extend:
  "length xs = n \<Longrightarrow> n + length ys = m \<Longrightarrow> put (xs @ drop n b) n ys = (xs @ ys) @ drop m b"
  by (simp add: put_def add.commute)

lemma put_first: "length ys = m \<Longrightarrow> put b 0 ys = ys @ drop m b"
  by (simp add: put_def)

lemma header_encode_layout: "header_encode h page = header_layout h @ drop 64 page"
  unfolding header_encode_def header_layout_def Let_def
  by (simp add: put_first [where m = 4] put_extend [where n = 4 and m = 6]
      put_extend [where n = 6 and m = 7] put_extend [where n = 7 and m = 8]
      put_extend [where n = 8 and m = 16] put_extend [where n = 16 and m = 24]
      put_extend [where n = 24 and m = 32] put_extend [where n = 32 and m = 36]
      put_extend [where n = 36 and m = 38] put_extend [where n = 38 and m = 40]
      put_extend [where n = 40 and m = 42] put_extend [where n = 42 and m = 44]
      put_extend [where n = 44 and m = 52] put_extend [where n = 52 and m = 56]
      put_extend [where n = 56 and m = 64] del: append_assoc)

lemma length_header_layout [simp]: "length (header_layout h) = 64"
  by (simp add: header_layout_def)

lemma length_header_encode [simp]: "72 \<le> length page \<Longrightarrow> length (header_encode h page) = length page"
  by (simp add: header_encode_layout)

lemma nth_put_other:
  "i + length xs \<le> length b \<Longrightarrow> k < length b \<Longrightarrow> k < i \<or> i + length xs \<le> k \<Longrightarrow> put b i xs ! k = b ! k"
  by (auto simp: nth_put)

lemma nth_put_single: "i < length b \<Longrightarrow> put b i [x] ! i = x"
  by (simp add: nth_put)

lemma header_encode_reads:
  shows "slice_of (header_encode h page) 0 4 = PAGE_MAGIC"
    and "rd16 (header_encode h page) 4 = ph_format_version h"
    and "header_encode h page ! 6 = page_type_u8 (ph_page_type h)"
    and "header_encode h page ! 7 = ph_flags h"
    and "rd64 (header_encode h page) 8 = ph_page_id h"
    and "rd64 (header_encode h page) 16 = ph_generation h"
    and "rd64 (header_encode h page) 24 = ph_lsn h"
    and "rd16 (header_encode h page) 36 = ph_free_start h"
    and "rd16 (header_encode h page) 38 = ph_free_end h"
    and "rd16 (header_encode h page) 40 = ph_slot_count h"
    and "rd64 (header_encode h page) 44 = ph_next_page h"
    and "rd32 (header_encode h page) 52 = ph_payload_len h"
  by (simp_all add: header_encode_layout header_layout_def rd16_def rd32_def rd64_def
      slice_append_left slice_append_right nth_append slice_of_def)

lemma slice_header_encode [buf_simps]:
  "64 \<le> length page \<Longrightarrow> 64 \<le> i \<Longrightarrow> slice_of (header_encode h page) i n = slice_of page i n"
  by (simp add: header_encode_layout slice_of_def)

lemma header_decode_encode:
  assumes "72 \<le> length page" "ph_format_version h \<le> PAGE_FORMAT_VERSION"
  shows "header_decode (header_encode h page) = Ok h"
  using assms
  by (simp add: header_decode_def header_encode_reads not_less)

subsection \<open>Finalised pages verify\<close>

lemma length_finalize [simp]: "72 \<le> length page \<Longrightarrow> length (finalize crc page g) = length page"
  by (simp add: finalize_def Let_def)

lemma finalize_reads:
  assumes "72 \<le> length page"
  shows "rd64 (finalize crc page g) 16 = g"
    and "rd64 (finalize crc page g) (length page - 8) = g"
    and "slice_of (finalize crc page g) 0 16 = slice_of page 0 16"
    and "24 \<le> i \<Longrightarrow> i + n \<le> 32 \<Longrightarrow> slice_of (finalize crc page g) i n = slice_of page i n"
    and "36 \<le> i \<Longrightarrow> i + n \<le> length page - 8 \<Longrightarrow>
           slice_of (finalize crc page g) i n = slice_of page i n"
    and "k < 16 \<Longrightarrow> finalize crc page g ! k = page ! k"
  using assms by (simp_all add: finalize_def Let_def enc_simps buf_simps nth_put_other)

lemma checksum_input_put32 [simp]:
  "72 \<le> length page \<Longrightarrow> length xs = 4 \<Longrightarrow> checksum_input (put page 32 xs) = checksum_input page"
  by (simp add: checksum_input_def buf_simps) (simp add: put_def)

lemma stored_checksum_finalize:
  "72 \<le> length page \<Longrightarrow>
   stored_checksum (finalize crc page g) = compute_checksum crc (finalize crc page g)"
  by (simp add: stored_checksum_def finalize_def Let_def compute_checksum_def enc_simps)

lemma verify_finalize_ok: "72 \<le> length page \<Longrightarrow> verify crc (finalize crc page g) pid = Ok ()"
  by (simp add: verify_def stored_checksum_finalize finalize_reads)

lemma verify_Ok_iff:
  "verify crc page pid = Ok () \<longleftrightarrow>
   stored_checksum page = compute_checksum crc page \<and> rd64 page 16 = rd64 page (length page - 8)"
  by (simp add: verify_def)

lemma rd_slice_cong:
  "slice_of p i 2 = slice_of q i 2 \<Longrightarrow> rd16 p i = rd16 q i"
  "slice_of p i 4 = slice_of q i 4 \<Longrightarrow> rd32 p i = rd32 q i"
  "slice_of p i 8 = slice_of q i 8 \<Longrightarrow> rd64 p i = rd64 q i"
  by (simp_all add: rd16_def rd32_def rd64_def)

lemma slice_of_sub:
  "slice_of p i n = slice_of q i n \<Longrightarrow> i \<le> j \<Longrightarrow> j + m \<le> i + n \<Longrightarrow> slice_of p j m = slice_of q j m"
  using slice_slice [of "j - i" m n p i] slice_slice [of "j - i" m n q i] by simp

text \<open>
  The header of a finalised page decodes to the header that was written, with the stamped
  generation.
\<close>

lemma header_decode_finalize:
  assumes len: "72 \<le> length page" and ok: "header_decode page = Ok h"
  shows "header_decode (finalize crc page g) = Ok (h\<lparr>ph_generation := g\<rparr>)"
proof -
  note r = finalize_reads [OF len, where crc = crc and g = g]
  have "slice_of (finalize crc page g) 0 4 = slice_of page 0 4"
    and "rd16 (finalize crc page g) 4 = rd16 page 4"
    and "rd64 (finalize crc page g) 8 = rd64 page 8"
    using slice_of_sub [OF r(3), of 0 4] rd_slice_cong(1) [OF slice_of_sub [OF r(3), of 4 2]]
      rd_slice_cong(3) [OF slice_of_sub [OF r(3), of 8 8]] by simp_all
  moreover have "rd64 (finalize crc page g) 24 = rd64 page 24"
    by (rule rd_slice_cong(3)) (use r(4) in simp)
  moreover have "rd16 (finalize crc page g) i = rd16 page i" if "36 \<le> i" "i \<le> 62" for i
    by (rule rd_slice_cong(1)) (use r(5) [of i 2] len that in simp)
  moreover have "rd64 (finalize crc page g) 44 = rd64 page 44"
    by (rule rd_slice_cong(3)) (use r(5) [of 44 8] len in simp)
  moreover have "rd32 (finalize crc page g) 52 = rd32 page 52"
    by (rule rd_slice_cong(2)) (use r(5) [of 52 4] len in simp)
  ultimately show ?thesis
    using ok len by (auto simp: header_decode_def r split: if_splits option.splits)
qed

subsection \<open>What verification guarantees\<close>

lemma verify_cases:
  "verify crc page pid = Ok () \<or> (\<exists>e. verify crc page pid = Err e \<and> is_corruption e)"
  by (simp add: verify_def is_corruption_def)

lemma verify_rejects:
  "stored_checksum page \<noteq> compute_checksum crc page \<or> rd64 page 16 \<noteq> rd64 page (length page - 8)
   \<Longrightarrow> \<exists>e. verify crc page pid = Err e \<and> is_corruption e"
  using verify_cases [of crc page pid] by (auto simp: verify_Ok_iff)

lemma slice_take: "i + n \<le> k \<Longrightarrow> slice_of (take k p) i n = slice_of p i n"
  by (simp add: slice_of_def drop_take min_def)

lemma slice_torn:
  assumes "length new = length old" "k \<le> length new"
  shows "i + n \<le> k \<Longrightarrow> slice_of (take k new @ drop k old) i n = slice_of new i n"
    and "k \<le> i \<Longrightarrow> slice_of (take k new @ drop k old) i n = slice_of old i n"
  using assms
  by (simp_all add: slice_append_left slice_append_right slice_take min_def)
     (simp add: slice_of_def)

lemma checksum_input_update:
  assumes "72 \<le> length page" "i < length page"
  shows "32 \<le> i \<Longrightarrow> i < 36 \<Longrightarrow> checksum_input (page[i := v]) = checksum_input page"
    and "i < 32 \<or> 36 \<le> i \<Longrightarrow> checksum_input (page[i := v]) = (checksum_input page)[i := v]"
  using assms
  by (auto simp: checksum_input_def slice_of_def take_update_swap list_update_beyond drop_update_swap list_update_append)

lemma nth_checksum_input:
  "72 \<le> length page \<Longrightarrow> i < length page \<Longrightarrow> i < 32 \<or> 36 \<le> i \<Longrightarrow> checksum_input page ! i = page ! i"
  by (auto simp: checksum_input_def slice_of_def nth_append)

lemma length_checksum_input: "72 \<le> length page \<Longrightarrow> length (checksum_input page) = length page"
  by (simp add: checksum_input_def)

lemma stored_checksum_update_inside:
  assumes "72 \<le> length page" "32 \<le> i" "i < 36" "v \<noteq> page ! i"
  shows "stored_checksum (page[i := v]) \<noteq> stored_checksum page"
proof
  assume "stored_checksum (page[i := v]) = stored_checksum page"
  then have "le32 (of_nat (le_val (slice_of (page[i := v]) 32 4))) = le32 (of_nat (le_val (slice_of page 32 4)))"
    by (simp add: stored_checksum_def rd32_def)
  then have "slice_of (page[i := v]) 32 4 = slice_of page 32 4"
    using assms by (simp add: le32_of_le_val)
  then have "slice_of (page[i := v]) 32 4 ! (i - 32) = slice_of page 32 4 ! (i - 32)" by simp
  with assms show False by (simp add: nth_slice)
qed

lemma stored_checksum_update_outside:
  "72 \<le> length page \<Longrightarrow> i < 32 \<or> 36 \<le> i \<Longrightarrow> stored_checksum (page[i := v]) = stored_checksum page"
  by (auto simp: stored_checksum_def intro!: rd_slice_cong slice_eqI)

text \<open>
  C29. A page header survives the disk format: encoding a header into a page buffer and
  finalising the buffer with a generation gives a page that verifies, and whose header
  decodes to the encoded one with that generation.
\<close>

theorem page_header_round_trip:
  assumes "72 \<le> length page" "ph_format_version h \<le> PAGE_FORMAT_VERSION"
  shows "verify crc (finalize crc (header_encode h page) g) pid = Ok () \<and>
         header_decode (finalize crc (header_encode h page) g) = Ok (h\<lparr>ph_generation := g\<rparr>)"
  using assms by (simp add: verify_finalize_ok header_decode_finalize header_decode_encode)

theorem page_header_round_trip_witness:
  "verify (\<lambda>_. 7) (finalize (\<lambda>_. 7) (header_encode (header_new 42 Heap 512) (replicate 512 0)) 5) 42 = Ok () \<and>
   header_decode (finalize (\<lambda>_. 7) (header_encode (header_new 42 Heap 512) (replicate 512 0)) 5)
     = Ok ((header_new 42 Heap 512)\<lparr>ph_generation := 5\<rparr>)"
  by (rule page_header_round_trip) (simp_all add: header_new_def)

text \<open>
  C27. A torn write is always detected: if a page image is written over an older image of the
  same page with a different generation and the write stops anywhere between the header
  generation and the trailer, verification of what is on disk reports corruption, whatever
  the checksum function does.
\<close>

theorem torn_write_detected:
  assumes "72 \<le> length old" "length new = length old" "24 \<le> k" "k \<le> length old - 8" "g_old \<noteq> g_new"
  shows "\<exists>e. verify crc (take k (finalize crc new g_new) @ drop k (finalize crc old g_old)) pid = Err e
             \<and> is_corruption e"
proof (rule verify_rejects, rule disjI2)
  let ?n = "finalize crc new g_new" and ?o = "finalize crc old g_old"
  let ?t = "take k ?n @ drop k ?o"
  have len: "length ?n = length ?o" "k \<le> length ?n" "length ?t = length old"
    using assms by simp_all
  have "rd64 ?t 16 = rd64 ?n 16"
    by (rule rd_slice_cong) (use slice_torn(1) [OF len(1,2), of 16 8] assms in simp)
  moreover have "rd64 ?t (length old - 8) = rd64 ?o (length old - 8)"
    by (rule rd_slice_cong) (use slice_torn(2) [OF len(1,2), of "length old - 8" 8] assms in simp)
  ultimately show "rd64 ?t 16 \<noteq> rd64 ?t (length ?t - 8)"
    using assms len(3) finalize_reads(1) [of new crc g_new] finalize_reads(2) [of old crc g_old] by simp
qed

theorem torn_write_detected_witness:
  "\<exists>e. verify (\<lambda>_. 7) (take 100 (finalize (\<lambda>_. 7) (replicate 512 1) 6) @
        drop 100 (finalize (\<lambda>_. 7) (replicate 512 2) 5)) 3 = Err e \<and> is_corruption e"
  by (rule torn_write_detected) simp_all

text \<open>
  C28. No byte of a page escapes the checksum: for a checksum that distinguishes inputs
  differing in one byte (as CRC-32 does), changing any single byte of a finalised page,
  the stored checksum included, makes verification report corruption.
\<close>

theorem single_byte_corruption_detected:
  assumes crc_detects: "\<And>x i v. i < length x \<Longrightarrow> v \<noteq> x ! i \<Longrightarrow> crc (x[i := v]) \<noteq> crc x"
    and "72 \<le> length page" "i < length page" "v \<noteq> finalize crc page g ! i"
  shows "\<exists>e. verify crc ((finalize crc page g)[i := v]) pid = Err e \<and> is_corruption e"
proof (rule verify_rejects, rule disjI1)
  let ?p = "finalize crc page g"
  have st: "stored_checksum ?p = crc (checksum_input ?p)"
    using assms stored_checksum_finalize [of page crc g] by (simp add: compute_checksum_def)
  show "stored_checksum (?p[i := v]) \<noteq> compute_checksum crc (?p[i := v])"
  proof (cases "32 \<le> i \<and> i < 36")
    case True
    with assms st show ?thesis
      using stored_checksum_update_inside [of ?p i v] checksum_input_update(1) [of ?p i v]
      by (simp add: compute_checksum_def)
  next
    case False
    then have out: "i < 32 \<or> 36 \<le> i" by auto
    have "crc ((checksum_input ?p)[i := v]) \<noteq> crc (checksum_input ?p)"
      using assms out by (intro crc_detects) (simp_all add: length_checksum_input nth_checksum_input)
    with assms out st show ?thesis
      by (simp add: compute_checksum_def checksum_input_update(2) stored_checksum_update_outside)
  qed
qed

lemma sum_list_map_update:
  "i < length xs \<Longrightarrow> sum_list (map f (xs[i := v])) = sum_list (map f xs) - f (xs ! i) + (f v :: u32)"
  by (induction xs arbitrary: i) (auto split: nat.splits)

lemma byte_sum_detects:
  fixes x :: bytes
  assumes "i < length x" "v \<noteq> x ! i"
  shows "sum_list (map ucast (x[i := v])) \<noteq> (sum_list (map ucast x) :: u32)"
proof -
  have "(ucast v :: u32) \<noteq> ucast (x ! i)"
  proof
    assume "(ucast v :: u32) = ucast (x ! i)"
    then have "(ucast (ucast v :: u32) :: byte) = ucast (ucast (x ! i) :: u32)" by (rule arg_cong)
    with assms show False by (simp add: ucast_up_ucast_id is_up)
  qed
  with assms show ?thesis by (simp add: sum_list_map_update)
qed

theorem single_byte_corruption_detected_witness:
  "\<exists>e. verify (\<lambda>x. sum_list (map ucast x))
     ((finalize (\<lambda>x. sum_list (map ucast x)) (replicate 512 1) 6)[100 := 9]) 3 = Err e \<and> is_corruption e"
proof -
  have "finalize (\<lambda>x. sum_list (map ucast x)) (replicate 512 1) 6 ! 100 = (1 :: byte)"
    by (simp add: finalize_def Let_def nth_put_other)
  then show ?thesis
    by (intro single_byte_corruption_detected byte_sum_detects) simp_all
qed

end
