(* ===== verification/Std_Collections.thy ===== *)
theory Std_Collections
  imports Prelude
begin

text \<open>
  The ordered collections and slice searches of the Rust standard library, as far as the
  page engine uses them: \<open>BTreeMap\<close> and \<open>BTreeSet\<close> as strictly ascending lists, which is what
  iterating them yields, and \<open>binary_search_by\<close> and \<open>partition_point\<close> on slices.
\<close>

named_theorems coll_simps \<open>lookups in updated ordered collections\<close>

section \<open>Ordered maps\<close>

type_synonym ('k, 'v) btree_map = "('k \<times> 'v) list"

definition bt_inv :: "('k :: linorder, 'v) btree_map \<Rightarrow> bool" where
  "bt_inv m = sorted_wrt (<) (map fst m)"

fun bt_insert :: "'k :: linorder \<Rightarrow> 'v \<Rightarrow> ('k, 'v) btree_map \<Rightarrow> ('k, 'v) btree_map" where
  "bt_insert k v [] = [(k, v)]"
| "bt_insert k v ((k', v') # m) =
     (if k < k' then (k, v) # (k', v') # m
      else if k = k' then (k, v) # m
      else (k', v') # bt_insert k v m)"

definition bt_get :: "('k, 'v) btree_map \<Rightarrow> 'k \<rightharpoonup> 'v" where
  "bt_get m = map_of m"

definition bt_remove :: "'k \<Rightarrow> ('k, 'v) btree_map \<Rightarrow> ('k, 'v) btree_map" where
  "bt_remove k m = filter (\<lambda>(k', _). k' \<noteq> k) m"

definition bt_retain :: "('k \<Rightarrow> 'v \<Rightarrow> bool) \<Rightarrow> ('k, 'v) btree_map \<Rightarrow> ('k, 'v) btree_map" where
  "bt_retain P m = filter (\<lambda>(k, v). P k v) m"

lemma bt_inv_Nil [simp]: "bt_inv []" by (simp add: bt_inv_def)

lemma bt_inv_Cons: "bt_inv ((k, v) # m) \<longleftrightarrow> (\<forall>k' \<in> fst ` set m. k < k') \<and> bt_inv m"
  by (auto simp: bt_inv_def)

lemma bt_insert_keys [simp]: "fst ` set (bt_insert k v m) = insert k (fst ` set m)"
  by (induction k v m rule: bt_insert.induct) auto

lemma bt_insert_inv [simp, intro]: "bt_inv m \<Longrightarrow> bt_inv (bt_insert k v m)"
  by (induction k v m rule: bt_insert.induct) (auto simp: bt_inv_Cons)

lemma bt_get_insert [simp, coll_simps]: "bt_get (bt_insert k v m) = (bt_get m)(k \<mapsto> v)"
  by (induction k v m rule: bt_insert.induct) (auto simp: bt_get_def fun_eq_iff)

lemma bt_filter_inv: "bt_inv m \<Longrightarrow> bt_inv (filter P m)"
  by (induction m) (auto simp: bt_inv_Cons)

lemma bt_remove_inv [simp, intro]: "bt_inv m \<Longrightarrow> bt_inv (bt_remove k m)"
  by (simp add: bt_remove_def bt_filter_inv)

lemma bt_retain_inv [simp, intro]: "bt_inv m \<Longrightarrow> bt_inv (bt_retain P m)"
  by (simp add: bt_retain_def bt_filter_inv)

lemma bt_get_remove [simp, coll_simps]: "bt_get (bt_remove k m) = (bt_get m)(k := None)"
  by (induction m) (auto simp: bt_get_def bt_remove_def fun_eq_iff)

lemma bt_distinct: "bt_inv m \<Longrightarrow> distinct (map fst m)"
  by (induction m) (auto simp: bt_inv_def)

lemma bt_get_retain [coll_simps]:
  "bt_inv m \<Longrightarrow> bt_get (bt_retain P m) k = (case bt_get m k of Some v \<Rightarrow> if P k v then Some v else None | None \<Rightarrow> None)"
proof (induction m)
  case (Cons a m)
  then have "bt_inv m" "fst a \<notin> fst ` set m" by (cases a; auto simp: bt_inv_Cons)+
  moreover have "map_of m (fst a) = None" using \<open>fst a \<notin> fst ` set m\<close> by (simp add: map_of_eq_None_iff)
  moreover have "map_of (filter (\<lambda>(k, v). P k v) m) (fst a) = None"
    using \<open>fst a \<notin> fst ` set m\<close> by (auto simp: map_of_eq_None_iff)
  ultimately show ?case using Cons.IH by (cases a) (auto simp: bt_get_def bt_retain_def)
qed (simp add: bt_get_def bt_retain_def)

lemma bt_get_in: "bt_inv m \<Longrightarrow> bt_get m k = Some v \<longleftrightarrow> (k, v) \<in> set m"
  by (simp add: bt_get_def bt_distinct)

lemma bt_get_None: "bt_get m k = None \<longleftrightarrow> k \<notin> fst ` set m"
  by (simp add: bt_get_def map_of_eq_None_iff)

lemma bt_get_Nil [simp]: "bt_get [] = Map.empty"
  by (simp add: bt_get_def)

section \<open>Ordered sets\<close>

type_synonym 'k btree_set = "'k list"

definition bs_inv :: "'k :: linorder btree_set \<Rightarrow> bool" where
  "bs_inv s = sorted_wrt (<) s"

definition bs_insert :: "'k :: linorder \<Rightarrow> 'k btree_set \<Rightarrow> 'k btree_set" where
  "bs_insert k s = (if k \<in> set s then s else insort k s)"

definition bs_remove :: "'k \<Rightarrow> 'k btree_set \<Rightarrow> 'k btree_set" where
  "bs_remove k s = filter (\<lambda>x. x \<noteq> k) s"

definition bs_first :: "'k btree_set \<Rightarrow> 'k option" where
  "bs_first s = (case s of [] \<Rightarrow> None | x # _ \<Rightarrow> Some x)"

definition bs_first_below :: "'k :: linorder btree_set \<Rightarrow> 'k \<Rightarrow> 'k option" where
  "bs_first_below s bound = find (\<lambda>x. x < bound) s"

lemma bs_inv_iff: "bs_inv s \<longleftrightarrow> sorted s \<and> distinct s"
  by (simp add: bs_inv_def strict_sorted_iff)

lemma bs_inv_Nil [simp]: "bs_inv []" by (simp add: bs_inv_def)

lemma bs_insert_set [simp]: "set (bs_insert k s) = insert k (set s)"
  by (auto simp: bs_insert_def set_insort_key)

lemma bs_insert_inv [simp, intro]: "bs_inv s \<Longrightarrow> bs_inv (bs_insert k s)"
  by (simp add: bs_inv_iff bs_insert_def sorted_insort distinct_insort)

lemma bs_remove_set [simp]: "set (bs_remove k s) = set s - {k}"
  by (auto simp: bs_remove_def)

lemma bs_remove_inv [simp, intro]: "bs_inv s \<Longrightarrow> bs_inv (bs_remove k s)"
  by (simp add: bs_inv_iff bs_remove_def sorted_filter [where f = id, simplified])

lemma bs_insert_length: "length (bs_insert k s) = (if k \<in> set s then length s else Suc (length s))"
  by (simp add: bs_insert_def)

lemma bs_first_None [simp]: "bs_first s = None \<longleftrightarrow> s = []"
  by (simp add: bs_first_def split: list.splits)

lemma bs_first_Some: "bs_inv s \<Longrightarrow> bs_first s = Some x \<Longrightarrow> x \<in> set s \<and> (\<forall>y\<in>set s. x \<le> y)"
  by (auto simp: bs_first_def bs_inv_def split: list.splits)

lemma bs_first_below_None [simp]: "bs_first_below s b = None \<longleftrightarrow> (\<forall>x\<in>set s. b \<le> x)"
  by (auto simp: bs_first_below_def find_None_iff not_less)

section \<open>Searches on slices\<close>

datatype cmp = Less | Equal | Greater

definition compare :: "'a :: linorder \<Rightarrow> 'a \<Rightarrow> cmp" where
  "compare a b = (if a < b then Less else if a = b then Equal else Greater)"

text \<open>\<open>binary_search_by\<close>: the index of a match (\<open>Inr\<close>) or of the insertion point (\<open>Inl\<close>).\<close>

function bsearch :: "('a \<Rightarrow> cmp) \<Rightarrow> 'a list \<Rightarrow> nat \<Rightarrow> nat \<Rightarrow> nat + nat" where
  "bsearch f xs left right =
     (if left < right then
        let mid = left + (right - left) div 2 in
        case f (xs ! mid) of
          Less \<Rightarrow> bsearch f xs (mid + 1) right
        | Greater \<Rightarrow> bsearch f xs left mid
        | Equal \<Rightarrow> Inr mid
      else Inl left)"
  by auto
termination by (relation "measure (\<lambda>(_, _, l, r). r - l)") auto

declare bsearch.simps [simp del]

definition binary_search_by :: "('a \<Rightarrow> cmp) \<Rightarrow> 'a list \<Rightarrow> nat + nat" where
  "binary_search_by f xs = bsearch f xs 0 (length xs)"

definition partition_point :: "('a \<Rightarrow> bool) \<Rightarrow> 'a list \<Rightarrow> nat" where
  "partition_point P xs =
     (case binary_search_by (\<lambda>x. if P x then Less else Greater) xs of Inl i \<Rightarrow> i | Inr i \<Rightarrow> i)"

text \<open>
  The slice is ordered for \<open>f\<close> when the elements comparing \<open>Less\<close> come first, then those
  comparing \<open>Equal\<close>, then those comparing \<open>Greater\<close>.
\<close>

definition ordered_for :: "('a \<Rightarrow> cmp) \<Rightarrow> 'a list \<Rightarrow> bool" where
  "ordered_for f xs \<longleftrightarrow>
     (\<forall>i j. i < j \<longrightarrow> j < length xs \<longrightarrow>
        (f (xs ! j) = Less \<longrightarrow> f (xs ! i) = Less) \<and> (f (xs ! i) = Greater \<longrightarrow> f (xs ! j) = Greater))"

lemma bsearch_contract:
  "ordered_for f xs \<Longrightarrow> right \<le> length xs \<Longrightarrow> left \<le> right \<Longrightarrow> \<forall>i < left. f (xs ! i) = Less \<Longrightarrow>
    \<forall>i. right \<le> i \<longrightarrow> i < length xs \<longrightarrow> f (xs ! i) = Greater \<Longrightarrow>
    case bsearch f xs left right of
      Inr i \<Rightarrow> i < length xs \<and> f (xs ! i) = Equal
    | Inl i \<Rightarrow> i \<le> length xs \<and> (\<forall>j < i. f (xs ! j) = Less) \<and> (\<forall>j. i \<le> j \<longrightarrow> j < length xs \<longrightarrow> f (xs ! j) = Greater)"
proof (induction f xs left right rule: bsearch.induct)
  case (1 f xs left right)
  show ?case
  proof (cases "left < right")
    case True
    define mid where "mid = left + (right - left) div 2"
    have mid: "left \<le> mid" "mid < right" using True by (auto simp: mid_def)
    have eq: "bsearch f xs left right =
        (case f (xs ! mid) of Less \<Rightarrow> bsearch f xs (mid + 1) right
         | Greater \<Rightarrow> bsearch f xs left mid | Equal \<Rightarrow> Inr mid)"
      unfolding bsearch.simps [of f xs left right] Let_def mid_def [symmetric] using True by simp
    show ?thesis
    proof (cases "f (xs ! mid)")
      case Less
      have "\<forall>i < mid + 1. f (xs ! i) = Less"
        using Less mid 1(3,4) by (auto simp: ordered_for_def less_Suc_eq)
      with Less eq 1 mid True show ?thesis by (simp add: mid_def [symmetric])
    next
      case Greater
      have "\<forall>i. mid \<le> i \<longrightarrow> i < length xs \<longrightarrow> f (xs ! i) = Greater"
        using Greater 1(3) unfolding ordered_for_def by (metis le_neq_implies_less)
      with Greater eq 1 mid True show ?thesis by (simp add: mid_def [symmetric])
    qed (use eq mid 1 in simp)
  qed (use 1 in \<open>simp add: bsearch.simps\<close>)
qed

text \<open>The two searches on a slice sorted by a key.\<close>

lemma ordered_for_key:
  "sorted_wrt (<) (map key xs) \<Longrightarrow> ordered_for (\<lambda>x. compare (key x) k) xs"
  by (auto simp: ordered_for_def compare_def sorted_wrt_iff_nth_less dest: less_trans)

lemma binary_search_key:
  assumes "sorted_wrt (<) (map key xs)"
  shows "case binary_search_by (\<lambda>x. compare (key x) k) xs of
      Inr i \<Rightarrow> i < length xs \<and> key (xs ! i) = k
    | Inl i \<Rightarrow> i \<le> length xs \<and> (\<forall>j < i. key (xs ! j) < k) \<and>
        (\<forall>j. i \<le> j \<longrightarrow> j < length xs \<longrightarrow> k < key (xs ! j))"
  using bsearch_contract [OF ordered_for_key [OF assms], of "length xs" 0 k]
  by (auto simp: binary_search_by_def compare_def split: sum.splits if_splits)
     (metis cmp.distinct antisym_conv3)+

lemma partition_point_key:
  fixes key :: "'a \<Rightarrow> 'k :: linorder"
  assumes "sorted_wrt (<) (map key xs)"
  shows "partition_point (\<lambda>x. key x < k) xs \<le> length xs"
    and "j < partition_point (\<lambda>x. key x < k) xs \<Longrightarrow> key (xs ! j) < k"
    and "partition_point (\<lambda>x. key x < k) xs \<le> j \<Longrightarrow> j < length xs \<Longrightarrow> k \<le> key (xs ! j)"
proof -
  let ?f = "\<lambda>x. if key x < k then Less else Greater"
  have "ordered_for ?f xs"
    using assms by (auto simp: ordered_for_def sorted_wrt_iff_nth_less) (meson less_trans)
  from bsearch_contract [OF this, of "length xs" 0]
  have "case binary_search_by ?f xs of Inr i \<Rightarrow> False
    | Inl i \<Rightarrow> i \<le> length xs \<and> (\<forall>j < i. key (xs ! j) < k) \<and>
        (\<forall>j. i \<le> j \<longrightarrow> j < length xs \<longrightarrow> k \<le> key (xs ! j))"
    by (auto simp: binary_search_by_def split: sum.splits if_splits)
  then show "partition_point (\<lambda>x. key x < k) xs \<le> length xs"
    and "j < partition_point (\<lambda>x. key x < k) xs \<Longrightarrow> key (xs ! j) < k"
    and "partition_point (\<lambda>x. key x < k) xs \<le> j \<Longrightarrow> j < length xs \<Longrightarrow> k \<le> key (xs ! j)"
    by (auto simp: partition_point_def split: sum.splits)
qed

end
