(* ===== verification/Slotted.thy ===== *)
theory Slotted
  imports Page
begin

text \<open>
  Slotted heap pages (\<open>crates/bicdb-page/src/slotted.rs\<close>). A page is its byte buffer; the
  operations read and write the slot directory and the tuple bytes at the offsets of the
  source, and an out-of-range slice is \<open>Panic\<close>. The fixed header fields below byte 64 are
  read directly, since every buffer is a whole page.
\<close>

section \<open>Locators and slot accessors\<close>

abbreviation (input) SLOT_BYTES :: nat where "SLOT_BYTES \<equiv> 8"
abbreviation (input) DEAD_OFFSET :: u16 where "DEAD_OFFSET \<equiv> 0"

definition locator_new :: "page_id \<Rightarrow> u16 \<Rightarrow> u32 \<Rightarrow> tuple_locator" where
  "locator_new page_id slot generation =
     \<lparr> tl_page_id = page_id, tl_slot = slot, tl_generation = generation \<rparr>"

definition locator_encode :: "tuple_locator \<Rightarrow> bytes" where
  "locator_encode l =
     (let out = replicate 14 0;
          out = put out 0 (le64 (tl_page_id l));
          out = put out 8 (le16 (tl_slot l))
      in put out 10 (le32 (tl_generation l)))"

definition locator_decode :: "bytes \<Rightarrow> tuple_locator option" where
  "locator_decode b =
     (if length b < 14 then None
      else Some \<lparr> tl_page_id = rd64 b 0, tl_slot = rd16 b 8, tl_generation = rd32 b 10 \<rparr>)"

lemma length_locator_encode [simp]: "length (locator_encode l) = 14"
  by (simp add: locator_encode_def Let_def)

lemma locator_encode_bytes:
  "locator_encode l = le64 (tl_page_id l) @ le16 (tl_slot l) @ le32 (tl_generation l)"
  by (simp add: locator_encode_def Let_def put_def le64_def le16_def le32_def)

lemma locator_decode_encode: "locator_decode (locator_encode l) = Some l"
  by (simp add: locator_encode_bytes locator_decode_def rd64_def rd16_def rd32_def slice_of_def)

definition slot_count :: "bytes \<Rightarrow> u16" where "slot_count p = rd16 p 40"
definition free_start :: "bytes \<Rightarrow> nat" where "free_start p = unat (rd16 p 36)"
definition free_end :: "bytes \<Rightarrow> nat" where "free_end p = unat (rd16 p 38)"
definition slotted_page_id :: "bytes \<Rightarrow> page_id" where "slotted_page_id p = rd64 p 8"

definition slot_offset :: "u16 \<Rightarrow> nat" where
  "slot_offset slot = PAGE_HEADER_BYTES + unat slot * SLOT_BYTES"

definition slot_entry :: "bytes \<Rightarrow> u16 \<Rightarrow> (u16 \<times> u16 \<times> u32) res" where
  "slot_entry p slot =
     (if slot \<ge> slot_count p then Err (NoSuchSlot (slotted_page_id p) slot (slot_count p))
      else let at = slot_offset slot in
        if at + 8 \<le> length p then Ok (rd16 p at, rd16 p (at + 2), rd32 p (at + 4)) else Panic)"

text \<open>The range \<open>0..slot_count\<close> and the iterator over its entries that skips errors.\<close>

definition slot_range :: "bytes \<Rightarrow> u16 list" where
  "slot_range p = map of_nat [0..<unat (slot_count p)]"

fun ok_entries :: "bytes \<Rightarrow> u16 list \<Rightarrow> (u16 \<times> u16 \<times> u16 \<times> u32) list res" where
  "ok_entries p [] = Ok []"
| "ok_entries p (s # ss) =
     (case slot_entry p s of
        Ok e \<Rightarrow> rmap (\<lambda>es. (s, e) # es) (ok_entries p ss)
      | Err _ \<Rightarrow> ok_entries p ss
      | Panic \<Rightarrow> Panic)"

definition live_count :: "bytes \<Rightarrow> u16 res" where
  "live_count p =
     rmap (\<lambda>es. of_nat (length (filter (\<lambda>(_, offset, _, _). offset \<noteq> DEAD_OFFSET) es)))
          (ok_entries p (slot_range p))"

definition max_generation :: "bytes \<Rightarrow> u32 res" where
  "max_generation p =
     rmap (\<lambda>es. fold (\<lambda>(_, _, _, generation) m. max m generation) es 0)
          (ok_entries p (slot_range p))"

definition free_space :: "bytes \<Rightarrow> nat" where
  "free_space p = free_end p - free_start p"

definition reclaimable_space :: "bytes \<Rightarrow> nat res" where
  "reclaimable_space p =
     rmap (\<lambda>es. free_space p +
               sum_list (map (\<lambda>(_, _, len, _). unat len)
                 (filter (\<lambda>(_, offset, _, _). offset = DEAD_OFFSET) es)))
          (ok_entries p (slot_range p))"

definition slotted_get :: "bytes \<Rightarrow> tuple_locator \<Rightarrow> bytes res" where
  "slotted_get p l =
     rbind (slot_entry p (tl_slot l)) (\<lambda>(offset, len, generation).
       if offset = DEAD_OFFSET then Err (DeadSlot (slotted_page_id p) (tl_slot l))
       else if generation \<noteq> tl_generation l
       then Err (StaleLocator (slotted_page_id p) (tl_slot l)
                   (ucast (tl_generation l)) (ucast generation))
       else slice_chk p (unat offset) (unat len))"

definition get_by_slot :: "bytes \<Rightarrow> u16 \<Rightarrow> bytes res" where
  "get_by_slot p slot =
     rbind (slot_entry p slot) (\<lambda>(offset, len, _).
       if offset = DEAD_OFFSET then Err (DeadSlot (slotted_page_id p) slot)
       else slice_chk p (unat offset) (unat len))"

definition generation_of :: "bytes \<Rightarrow> u16 \<Rightarrow> u32 res" where
  "generation_of p slot =
     rbind (slot_entry p slot) (\<lambda>(offset, _, generation).
       if offset = DEAD_OFFSET then Err (DeadSlot (slotted_page_id p) slot) else Ok generation)"

definition locators :: "bytes \<Rightarrow> tuple_locator list res" where
  "locators p =
     rmap (\<lambda>es. map (\<lambda>(s, _, _, generation). locator_new (slotted_page_id p) s generation)
                 (filter (\<lambda>(_, offset, _, _). offset \<noteq> DEAD_OFFSET) es))
          (ok_entries p (slot_range p))"

section \<open>Modification\<close>

definition init_with_floor :: "bytes \<Rightarrow> page_id \<Rightarrow> nat \<Rightarrow> u32 \<Rightarrow> bytes" where
  "init_with_floor p page_id page_size floor =
     header_encode ((header_new page_id Heap page_size)\<lparr>ph_payload_len := floor\<rparr>)
       (replicate (length p) 0)"

definition slotted_init :: "bytes \<Rightarrow> page_id \<Rightarrow> nat \<Rightarrow> bytes" where
  "slotted_init p page_id page_size = init_with_floor p page_id page_size 0"

definition generation_floor :: "bytes \<Rightarrow> u32" where
  "generation_floor p = rd32 p 52"

definition set_free_start :: "bytes \<Rightarrow> nat \<Rightarrow> bytes" where
  "set_free_start p v = put p 36 (le16 (of_nat v))"

definition set_free_end :: "bytes \<Rightarrow> nat \<Rightarrow> bytes" where
  "set_free_end p v = put p 38 (le16 (of_nat v))"

definition set_slot_count :: "bytes \<Rightarrow> u16 \<Rightarrow> bytes" where
  "set_slot_count p v = put p 40 (le16 v)"

definition write_slot :: "bytes \<Rightarrow> u16 \<Rightarrow> u16 \<Rightarrow> u16 \<Rightarrow> u32 \<Rightarrow> bytes res" where
  "write_slot p slot offset len generation =
     (let at = slot_offset slot in
      rbind (put_chk p at (le16 offset)) (\<lambda>p.
      rbind (put_chk p (at + 2) (le16 len)) (\<lambda>p.
      put_chk p (at + 4) (le32 generation))))"

definition required_space :: "nat \<Rightarrow> nat" where
  "required_space len = len + SLOT_BYTES"

fun find_dead :: "bytes \<Rightarrow> u16 list \<Rightarrow> u16 option res" where
  "find_dead p [] = Ok None"
| "find_dead p (s # ss) =
     (case slot_entry p s of
        Ok (offset, _, _) \<Rightarrow> if offset = DEAD_OFFSET then Ok (Some s) else find_dead p ss
      | Err _ \<Rightarrow> find_dead p ss
      | Panic \<Rightarrow> Panic)"

definition find_dead_slot :: "bytes \<Rightarrow> u16 option res" where
  "find_dead_slot p = find_dead p (slot_range p)"

definition can_fit :: "bytes \<Rightarrow> nat \<Rightarrow> bool res" where
  "can_fit p len =
     rmap (\<lambda>dead. free_space p \<ge> len + (if dead = None then SLOT_BYTES else 0)) (find_dead_slot p)"

definition slotted_insert :: "bytes \<Rightarrow> bytes \<Rightarrow> (bytes \<times> tuple_locator) res" where
  "slotted_insert p value =
     (if value = [] then Err (ValueTooLarge (slotted_page_id p) 0 (free_space p))
      else rbind (find_dead_slot p) (\<lambda>recycled.
        let needed = length value + (if recycled = None then SLOT_BYTES else 0) in
        if free_space p < needed
        then Err (ValueTooLarge (slotted_page_id p) (length value) (free_space p))
        else let data_offset = free_end p - length value in
          rbind (put_chk p data_offset value) (\<lambda>p1.
          let p2 = set_free_end p1 data_offset in
          rbind (case recycled of
                   Some slot \<Rightarrow>
                     rbind (slot_entry p2 slot) (\<lambda>(_, _, previous). Ok (p2, slot, previous + 1))
                 | None \<Rightarrow>
                     let slot = slot_count p2;
                         p3 = set_slot_count p2 (slot + 1);
                         p4 = set_free_start p3 (free_start p3 + SLOT_BYTES)
                     in Ok (p4, slot, generation_floor p4 + 1)) (\<lambda>(p5, slot, generation).
          rbind (write_slot p5 slot (of_nat data_offset) (of_nat (length value)) generation) (\<lambda>p6.
          Ok (p6, locator_new (slotted_page_id p6) slot generation))))))"

definition slotted_delete :: "bytes \<Rightarrow> tuple_locator \<Rightarrow> bytes res" where
  "slotted_delete p l =
     rbind (slot_entry p (tl_slot l)) (\<lambda>(offset, len, generation).
       if offset = DEAD_OFFSET then Err (DeadSlot (slotted_page_id p) (tl_slot l))
       else if generation \<noteq> tl_generation l
       then Err (StaleLocator (slotted_page_id p) (tl_slot l)
                   (ucast (tl_generation l)) (ucast generation))
       else rbind (zero_chk p (unat offset) (unat len)) (\<lambda>p1.
            write_slot p1 (tl_slot l) DEAD_OFFSET len generation))"

definition slotted_update :: "bytes \<Rightarrow> tuple_locator \<Rightarrow> bytes \<Rightarrow> bytes res" where
  "slotted_update p l value =
     rbind (slot_entry p (tl_slot l)) (\<lambda>(offset, len, generation).
       if offset = DEAD_OFFSET then Err (DeadSlot (slotted_page_id p) (tl_slot l))
       else if generation \<noteq> tl_generation l
       then Err (StaleLocator (slotted_page_id p) (tl_slot l)
                   (ucast (tl_generation l)) (ucast generation))
       else if value = [] then Err (ValueTooLarge (slotted_page_id p) 0 (free_space p))
       else if length value \<le> unat len then
         rbind (put_chk p (unat offset) value) (\<lambda>p1.
         rbind (zero_chk p1 (unat offset + length value) (unat len - length value)) (\<lambda>p2.
         write_slot p2 (tl_slot l) offset (of_nat (length value)) generation))
       else if free_space p < length value
       then Err (ValueTooLarge (slotted_page_id p) (length value) (free_space p))
       else rbind (zero_chk p (unat offset) (unat len)) (\<lambda>p1.
         let data_offset = free_end p1 - length value in
         rbind (put_chk p1 data_offset value) (\<lambda>p2.
         write_slot (set_free_end p2 data_offset) (tl_slot l)
           (of_nat data_offset) (of_nat (length value)) generation)))"

text \<open>Compaction: collect the live tuples in slot order, then rewrite them from the top.\<close>

fun collect_live :: "bytes \<Rightarrow> u16 list \<Rightarrow> (u16 \<times> bytes \<times> u32) list res" where
  "collect_live p [] = Ok []"
| "collect_live p (s # ss) =
     rbind (slot_entry p s) (\<lambda>(offset, len, generation).
       if offset = DEAD_OFFSET then collect_live p ss
       else rbind (slice_chk p (unat offset) (unat len)) (\<lambda>value.
            rmap (\<lambda>live. (s, value, generation) # live) (collect_live p ss)))"

fun place_live :: "bytes \<Rightarrow> nat \<Rightarrow> (u16 \<times> bytes \<times> u32) list \<Rightarrow> (bytes \<times> nat) res" where
  "place_live p cursor [] = Ok (p, cursor)"
| "place_live p cursor ((s, value, generation) # live) =
     (if cursor < length value then Panic
      else let cursor = cursor - length value in
        rbind (put_chk p cursor value) (\<lambda>p1.
        rbind (write_slot p1 s (of_nat cursor) (of_nat (length value)) generation) (\<lambda>p2.
        place_live p2 cursor live)))"

definition compact :: "bytes \<Rightarrow> nat \<Rightarrow> (bytes \<times> nat) res" where
  "compact p page_size =
     (let before = free_space p in
      rbind (collect_live p (slot_range p)) (\<lambda>live.
        let data_top = page_size - PAGE_TRAILER_BYTES;
            directory_end = PAGE_HEADER_BYTES + unat (slot_count p) * SLOT_BYTES
        in if data_top < directory_end then Panic
           else rbind (zero_chk p directory_end (data_top - directory_end)) (\<lambda>p1.
                rbind (place_live p1 data_top live) (\<lambda>(p2, cursor).
                let p3 = set_free_end p2 cursor in
                Ok (p3, free_space p3 - before)))))"

section \<open>The page invariant and the abstract view\<close>

text \<open>
  Directory entry \<open>i\<close> as natural numbers: tuple offset, tuple length and generation. The
  invariant: the directory ends where free space begins, free space ends where tuple data
  begins, and the live tuples lie between there and the trailer without overlapping.
\<close>

definition cnt :: "bytes \<Rightarrow> nat" where "cnt p = unat (slot_count p)"
definition eoff :: "bytes \<Rightarrow> nat \<Rightarrow> nat" where "eoff p i = unat (rd16 p (64 + 8 * i))"
definition elen :: "bytes \<Rightarrow> nat \<Rightarrow> nat" where "elen p i = unat (rd16 p (66 + 8 * i))"
definition egen :: "bytes \<Rightarrow> nat \<Rightarrow> u32" where "egen p i = rd32 p (68 + 8 * i)"

definition tuple_in_data :: "bytes \<Rightarrow> nat \<Rightarrow> bool" where
  "tuple_in_data p i \<longleftrightarrow>
     free_end p \<le> eoff p i \<and> 0 < elen p i \<and> eoff p i + elen p i \<le> length p - 8"

definition tuples_disjoint :: "bytes \<Rightarrow> nat \<Rightarrow> nat \<Rightarrow> bool" where
  "tuples_disjoint p i j \<longleftrightarrow>
     eoff p i + elen p i \<le> eoff p j \<or> eoff p j + elen p j \<le> eoff p i"

definition page_layout :: "bytes \<Rightarrow> bool" where
  "page_layout p \<longleftrightarrow>
     72 \<le> length p \<and> length p \<le> 65536 \<and> free_start p = 64 + 8 * cnt p \<and>
     free_start p \<le> free_end p \<and> free_end p \<le> length p - 8"

definition heap_wf :: "bytes \<Rightarrow> bool" where
  "heap_wf p \<longleftrightarrow>
     page_layout p \<and>
     (\<forall>i < cnt p. eoff p i \<noteq> 0 \<longrightarrow> tuple_in_data p i) \<and>
     (\<forall>i < cnt p. \<forall>j < cnt p. i \<noteq> j \<longrightarrow> eoff p i \<noteq> 0 \<longrightarrow> eoff p j \<noteq> 0 \<longrightarrow> tuples_disjoint p i j)"

definition tuple_at :: "bytes \<Rightarrow> nat \<Rightarrow> bytes option" where
  "tuple_at p i = (if eoff p i = 0 then None else Some (slice_of p (eoff p i) (elen p i)))"

definition slot_view :: "bytes \<Rightarrow> nat \<rightharpoonup> (u32 \<times> bytes option)" where
  "slot_view p i = (if i < cnt p then Some (egen p i, tuple_at p i) else None)"

lemma heap_wfD:
  assumes "heap_wf p"
  shows "72 \<le> length p" "length p \<le> 65536" "free_start p = 64 + 8 * cnt p"
    "64 + 8 * cnt p \<le> free_end p" "free_end p \<le> length p - 8" "free_end p + 8 \<le> length p"
  using assms by (auto simp: heap_wf_def page_layout_def)

lemma heap_wf_live:
  assumes "heap_wf p" "i < cnt p" "eoff p i \<noteq> 0"
  shows "free_end p \<le> eoff p i" "0 < elen p i" "eoff p i + elen p i \<le> length p - 8"
    "eoff p i + elen p i \<le> length p" "64 + 8 * cnt p \<le> eoff p i"
  using assms heap_wfD [OF assms(1)] by (auto simp: heap_wf_def tuple_in_data_def)

lemma heap_wf_disjoint:
  "heap_wf p \<Longrightarrow> i < cnt p \<Longrightarrow> j < cnt p \<Longrightarrow> i \<noteq> j \<Longrightarrow> eoff p i \<noteq> 0 \<Longrightarrow> eoff p j \<noteq> 0 \<Longrightarrow>
   eoff p i + elen p i \<le> eoff p j \<or> eoff p j + elen p j \<le> eoff p i"
  by (simp add: heap_wf_def tuples_disjoint_def)

lemma slot_bound [simp]: "unat (s :: u16) < 65536"
  using unsigned_less [of s, where 'a = nat] by simp

lemma cnt_bound: "heap_wf p \<Longrightarrow> cnt p < 8192"
  using heap_wfD [of p] by simp

lemma slot_less_iff: "s < slot_count p \<longleftrightarrow> unat s < cnt p"
  by (simp add: cnt_def word_less_nat_alt)

lemma slot_entry_wf:
  assumes "heap_wf p"
  shows "slot_entry p s =
    (if unat s < cnt p then Ok (rd16 p (64 + 8 * unat s), rd16 p (66 + 8 * unat s), egen p (unat s))
     else Err (NoSuchSlot (slotted_page_id p) s (slot_count p)))"
  using heap_wfD [OF assms]
  by (auto simp: slot_entry_def slot_offset_def egen_def Let_def not_less [symmetric] slot_less_iff
      algebra_simps)

lemma dead_iff: "rd16 p (64 + 8 * i) = 0 \<longleftrightarrow> eoff p i = 0"
  by (simp add: eoff_def unat_eq_0)

text \<open>The three stores of \<open>write_slot\<close> are one eight-byte store.\<close>

definition entry_bytes :: "u16 \<Rightarrow> u16 \<Rightarrow> u32 \<Rightarrow> bytes" where
  "entry_bytes offset len generation = le16 offset @ le16 len @ le32 generation"

lemma length_entry_bytes [simp]: "length (entry_bytes a b c) = 8"
  by (simp add: entry_bytes_def)

lemma put_put_adjacent:
  "i + length xs + length ys \<le> length b \<Longrightarrow>
   put (put b i xs) (i + length xs) ys = put b i (xs @ ys)"
  by (simp add: put_def min_absorb2 [of i "length b"] add_ac)

lemma write_slot_Ok:
  assumes "72 + 8 * unat s \<le> length p"
  shows "write_slot p s a l g = Ok (put p (64 + 8 * unat s) (entry_bytes a l g))"
  using assms put_put_adjacent [of "64 + 8 * unat s" "le16 a" "le16 l" p]
    put_put_adjacent [of "64 + 8 * unat s" "le16 a @ le16 l" "le32 g" p]
  by (simp add: write_slot_def Let_def slot_offset_def entry_bytes_def algebra_simps)

lemma entry_reads:
  assumes "72 + 8 * i \<le> length p"
  shows "eoff (put p (64 + 8 * i) (entry_bytes a l g)) i = unat a"
    and "elen (put p (64 + 8 * i) (entry_bytes a l g)) i = unat l"
    and "egen (put p (64 + 8 * i) (entry_bytes a l g)) i = g"
proof -
  have "slice_of (entry_bytes a l g) 0 2 = le16 a" "slice_of (entry_bytes a l g) 2 2 = le16 l"
    "slice_of (entry_bytes a l g) 4 4 = le32 g"
    by (simp_all add: entry_bytes_def slice_of_def)
  then show "eoff (put p (64 + 8 * i) (entry_bytes a l g)) i = unat a"
    and "elen (put p (64 + 8 * i) (entry_bytes a l g)) i = unat l"
    and "egen (put p (64 + 8 * i) (entry_bytes a l g)) i = g"
    using assms by (simp_all add: eoff_def elen_def egen_def rd16_def rd32_def slice_put_inside)
qed

lemma entry_cong:
  "slice_of p (64 + 8 * i) 8 = slice_of q (64 + 8 * i) 8 \<Longrightarrow>
   eoff p i = eoff q i \<and> elen p i = elen q i \<and> egen p i = egen q i"
  using slice_of_sub [of p "64 + 8 * i" 8 q "64 + 8 * i" 2]
    slice_of_sub [of p "64 + 8 * i" 8 q "66 + 8 * i" 2]
    slice_of_sub [of p "64 + 8 * i" 8 q "68 + 8 * i" 4]
  by (simp add: eoff_def elen_def egen_def rd16_def rd32_def)

text \<open>
  A change of one slot: the general form of what insert, delete and update do. The other
  entries and the bytes of the other live tuples are kept, and the changed slot is dead or
  has a tuple clear of the others.
\<close>

lemma heap_wf_change:
  assumes wf: "heap_wf p" and len: "length p' = length p"
    and i: "i \<le> cnt p" and cnt: "cnt p' = (if i < cnt p then cnt p else Suc (cnt p))"
    and fs: "free_start p' = 64 + 8 * cnt p'"
    and fe: "64 + 8 * cnt p' \<le> free_end p'" "free_end p' \<le> free_end p"
    and keep: "\<And>j. j < cnt p \<Longrightarrow> j \<noteq> i \<Longrightarrow> slice_of p' (64 + 8 * j) 8 = slice_of p (64 + 8 * j) 8"
    and inr: "eoff p' i \<noteq> 0 \<Longrightarrow> tuple_in_data p' i"
    and dis: "\<And>j. j < cnt p \<Longrightarrow> j \<noteq> i \<Longrightarrow> eoff p j \<noteq> 0 \<Longrightarrow> eoff p' i \<noteq> 0 \<Longrightarrow>
        eoff p' i + elen p' i \<le> eoff p j \<or> eoff p j + elen p j \<le> eoff p' i"
  shows "heap_wf p'"
proof -
  have e: "eoff p' j = eoff p j" "elen p' j = elen p j" if "j < cnt p" "j \<noteq> i" for j
    using entry_cong [OF keep [OF that]] by simp_all
  have lt: "j < cnt p \<or> j = i" if "j < cnt p'" for j
    using that i cnt by (auto split: if_splits)
  have "tuple_in_data p' j" if "j < cnt p'" "eoff p' j \<noteq> 0" for j
  proof (cases "j = i")
    case True with inr that show ?thesis by simp
  next
    case False
    with lt that have j: "j < cnt p" by blast
    have "eoff p j \<noteq> 0" using that(2) e(1) [OF j False] by simp
    from heap_wf_live [OF wf j this] show ?thesis
      using fe(2) len by (simp add: tuple_in_data_def e [OF j False])
  qed
  moreover have "tuples_disjoint p' j k"
    if "j < cnt p'" "k < cnt p'" "j \<noteq> k" "eoff p' j \<noteq> 0" "eoff p' k \<noteq> 0" for j k
  proof -
    consider "j = i" | "k = i" | "j \<noteq> i" "k \<noteq> i" by blast
    then show ?thesis
    proof cases
      case 1
      with that lt have "k < cnt p" "k \<noteq> i" by auto
      with 1 that dis [of k] e [of k] show ?thesis by (simp add: tuples_disjoint_def)
    next
      case 2
      with that lt have "j < cnt p" "j \<noteq> i" by auto
      with 2 that dis [of j] e [of j] show ?thesis by (auto simp: tuples_disjoint_def)
    next
      case 3
      with that lt have "j < cnt p" "k < cnt p" by auto
      with 3 that e [of j] e [of k] show ?thesis
        using heap_wf_disjoint [OF wf, of j k] by (simp add: tuples_disjoint_def)
    qed
  qed
  moreover have "page_layout p'"
    using heap_wfD [OF wf] fs fe len by (simp add: page_layout_def)
  ultimately show ?thesis by (simp add: heap_wf_def)
qed

lemma slot_view_change:
  assumes "heap_wf p" and i: "i \<le> cnt p" and cnt: "cnt p' = (if i < cnt p then cnt p else Suc (cnt p))"
    and keep: "\<And>j. j < cnt p \<Longrightarrow> j \<noteq> i \<Longrightarrow> slice_of p' (64 + 8 * j) 8 = slice_of p (64 + 8 * j) 8"
    and kept: "\<And>j. j < cnt p \<Longrightarrow> j \<noteq> i \<Longrightarrow> eoff p j \<noteq> 0 \<Longrightarrow>
        slice_of p' (eoff p j) (elen p j) = slice_of p (eoff p j) (elen p j)"
  shows "slot_view p' = (slot_view p)(i \<mapsto> (egen p' i, tuple_at p' i))"
proof
  fix j
  show "slot_view p' j = ((slot_view p)(i \<mapsto> (egen p' i, tuple_at p' i))) j"
  proof (cases "j = i \<or> \<not> j < cnt p")
    case True with i cnt show ?thesis by (auto simp: slot_view_def split: if_splits)
  next
    case False
    with entry_cong [OF keep [of j]] kept [of j] cnt show ?thesis
      by (simp add: slot_view_def tuple_at_def)
  qed
qed

section \<open>Each operation on the view\<close>

lemma find_dead_wf:
  "heap_wf p \<Longrightarrow> \<forall>s\<in>set ss. unat s < cnt p \<Longrightarrow>
   find_dead p ss = Ok (find (\<lambda>s. eoff p (unat s) = 0) ss)"
  by (induction ss) (auto simp: slot_entry_wf dead_iff)

lemma slot_range_nth: "set (slot_range p) = {s. unat s < cnt p}"
proof -
  have "s \<in> of_nat ` {0..<cnt p}" if "unat s < cnt p" for s :: u16
    using that by (intro image_eqI [of _ _ "unat s"]) simp_all
  moreover have "unat (of_nat i :: u16) < cnt p" if "i < cnt p" for i
    using that slot_bound [of "slot_count p"] by (simp add: cnt_def unat_of_nat)
  ultimately show ?thesis by (auto simp: slot_range_def cnt_def [symmetric])
qed

lemma find_dead_slot_wf:
  assumes "heap_wf p"
  shows "find_dead_slot p = Ok (find (\<lambda>s. eoff p (unat s) = 0) (slot_range p))"
  using assms by (simp add: find_dead_slot_def find_dead_wf slot_range_nth)

lemma find_dead_slot_cases:
  assumes "heap_wf p"
  obtains (None) "find_dead_slot p = Ok None" "\<And>i. i < cnt p \<Longrightarrow> eoff p i \<noteq> 0"
  | (Some) s where "find_dead_slot p = Ok (Some s)" "unat s < cnt p" "eoff p (unat s) = 0"
proof (cases "find (\<lambda>s. eoff p (unat s) = 0) (slot_range p)")
  case None
  have "eoff p i \<noteq> 0" if "i < cnt p" for i
  proof -
    have "unat (of_nat i :: u16) = i"
      using that cnt_bound [OF assms] by (simp add: unat_of_nat)
    moreover from None have "\<forall>s :: u16. unat s < cnt p \<longrightarrow> eoff p (unat s) \<noteq> 0"
      by (auto simp: find_None_iff slot_range_nth)
    ultimately show ?thesis using that by metis
  qed
  with None that(1) assms show ?thesis by (simp add: find_dead_slot_wf)
next
  case (Some s)
  then have "s \<in> set (slot_range p)" "eoff p (unat s) = 0"
    by (auto simp: find_Some_iff)
  with Some that(2) assms show ?thesis by (simp add: find_dead_slot_wf slot_range_nth)
qed

lemmas page_read_defs = cnt_def slot_count_def free_start_def free_end_def slotted_page_id_def
  generation_floor_def

lemmas page_write_defs = set_free_start_def set_free_end_def set_slot_count_def

lemma unat_of_nat_u16: "n < 65536 \<Longrightarrow> unat (of_nat n :: u16) = n"
  by (simp add: unat_of_nat)

text \<open>Insert into a recycled slot, and into a new one.\<close>

definition recycle_page :: "bytes \<Rightarrow> u16 \<Rightarrow> bytes \<Rightarrow> bytes" where
  "recycle_page p s v =
     (let a = free_end p - length v in
      put (put (put p a v) 38 (le16 (of_nat a))) (64 + 8 * unat s)
        (entry_bytes (of_nat a) (of_nat (length v)) (egen p (unat s) + 1)))"

definition extend_page :: "bytes \<Rightarrow> bytes \<Rightarrow> bytes" where
  "extend_page p v =
     (let a = free_end p - length v in
      put (put (put (put (put p a v) 38 (le16 (of_nat a))) 40 (le16 (slot_count p + 1)))
        36 (le16 (of_nat (free_start p + 8)))) (64 + 8 * cnt p)
        (entry_bytes (of_nat a) (of_nat (length v)) (generation_floor p + 1)))"

lemma recycle_page_reads:
  assumes wf: "heap_wf p" and s: "unat s < cnt p" "eoff p (unat s) = 0"
    and v: "v \<noteq> []" "length v \<le> free_space p"
  defines "p' \<equiv> recycle_page p s v"
  shows "length p' = length p" "cnt p' = cnt p" "free_start p' = free_start p"
    "free_end p' = free_end p - length v" "slotted_page_id p' = slotted_page_id p"
    "generation_floor p' = generation_floor p" "egen p' (unat s) = egen p (unat s) + 1"
    "eoff p' (unat s) = free_end p - length v" "elen p' (unat s) = length v"
    "slice_of p' (free_end p - length v) (length v) = v"
    "\<And>j. j < cnt p \<Longrightarrow> j \<noteq> unat s \<Longrightarrow> slice_of p' (64 + 8 * j) 8 = slice_of p (64 + 8 * j) 8"
    "\<And>j n. free_end p \<le> j \<Longrightarrow> slice_of p' j n = slice_of p j n"
proof -
  note d = heap_wfD [OF wf]
  have sp: "length v \<le> free_end p - free_start p" "64 + 8 * cnt p + length v \<le> free_end p"
    using v d by (auto simp: free_space_def)
  let ?a = "free_end p - length v" and ?i = "unat s"
  let ?q = "put (put p ?a v) 38 (le16 (of_nat ?a))"
  have a: "?a + length v = free_end p" "64 + 8 * cnt p \<le> ?a" "?a < 65536" "length v < 65536"
    using sp d by auto
  have p': "p' = put ?q (64 + 8 * ?i) (entry_bytes (of_nat ?a) (of_nat (length v)) (egen p ?i + 1))"
    by (simp add: p'_def recycle_page_def Let_def)
  have q: "length ?q = length p" using a d by simp
  show "length p' = length p" using p' q s d by simp
  show "cnt p' = cnt p" "free_start p' = free_start p" "slotted_page_id p' = slotted_page_id p"
    "generation_floor p' = generation_floor p"
    using a d s q unfolding p' page_read_defs by (simp_all add: enc_simps)
  have "rd16 p' 38 = of_nat ?a" using a d s q unfolding p' by (simp add: enc_simps)
  then show "free_end p' = ?a" using a(3) by (simp add: free_end_def unat_of_nat_u16)
  have "72 + 8 * ?i \<le> length ?q" using q s d by simp
  note er = entry_reads [OF this]
  show "egen p' ?i = egen p ?i + 1" "eoff p' ?i = ?a" "elen p' ?i = length v"
    unfolding p' er using a by (simp_all only: unat_of_nat_u16)
  show "slice_of p' ?a (length v) = v"
    using a d s q unfolding p' by (simp add: buf_simps)
  show "slice_of p' (64 + 8 * j) 8 = slice_of p (64 + 8 * j) 8" if "j < cnt p" "j \<noteq> ?i" for j
  proof -
    have "slice_of p' (64 + 8 * j) 8 = slice_of ?q (64 + 8 * j) 8"
      unfolding p' by (rule slice_put_other) (use that q s d in auto)
    also have "\<dots> = slice_of p (64 + 8 * j) 8"
      using a d that by (simp add: buf_simps)
    finally show ?thesis .
  qed
  show "slice_of p' j n = slice_of p j n" if "free_end p \<le> j" for j n
    using a d s q that unfolding p' by (simp add: buf_simps)
qed

lemma extend_page_reads:
  assumes wf: "heap_wf p" and v: "v \<noteq> []" "length v + 8 \<le> free_space p"
  defines "p' \<equiv> extend_page p v"
  shows "length p' = length p" "cnt p' = Suc (cnt p)" "free_start p' = free_start p + 8"
    "free_end p' = free_end p - length v" "slotted_page_id p' = slotted_page_id p"
    "generation_floor p' = generation_floor p" "egen p' (cnt p) = generation_floor p + 1"
    "eoff p' (cnt p) = free_end p - length v" "elen p' (cnt p) = length v"
    "slice_of p' (free_end p - length v) (length v) = v"
    "\<And>j. j < cnt p \<Longrightarrow> slice_of p' (64 + 8 * j) 8 = slice_of p (64 + 8 * j) 8"
    "\<And>j n. free_end p \<le> j \<Longrightarrow> slice_of p' j n = slice_of p j n"
proof -
  note d = heap_wfD [OF wf]
  have sp: "72 + 8 * cnt p + length v \<le> free_end p"
    using v d by (auto simp: free_space_def)
  let ?a = "free_end p - length v"
  let ?q = "put (put (put (put p ?a v) 38 (le16 (of_nat ?a))) 40 (le16 (slot_count p + 1)))
        36 (le16 (of_nat (free_start p + 8)))"
  have a: "?a + length v = free_end p" "72 + 8 * cnt p \<le> ?a" "?a < 65536" "length v < 65536"
    using sp d by auto
  have p': "p' = put ?q (64 + 8 * cnt p)
      (entry_bytes (of_nat ?a) (of_nat (length v)) (generation_floor p + 1))"
    by (simp add: p'_def extend_page_def Let_def)
  have q: "length ?q = length p" using a d by simp
  show "length p' = length p" using p' q a d by simp
  show "slotted_page_id p' = slotted_page_id p" "generation_floor p' = generation_floor p"
    using a d q unfolding p' slotted_page_id_def generation_floor_def
    by (simp_all add: enc_simps)
  have r: "rd16 p' 38 = of_nat ?a" "rd16 p' 40 = slot_count p + 1" "rd16 p' 36 = of_nat (free_start p + 8)"
    using a d q unfolding p' by (simp_all add: enc_simps)
  from r(1) show "free_end p' = ?a" using a(3) by (simp add: free_end_def unat_of_nat_u16)
  from r(3) show "free_start p' = free_start p + 8"
    using d a unfolding free_start_def [of p'] by (simp only: unat_of_nat_u16)
  have "slot_count p + 1 = of_nat (Suc (cnt p))" by (simp add: cnt_def)
  with r(2) show "cnt p' = Suc (cnt p)"
    unfolding cnt_def [of p'] slot_count_def [of p'] using cnt_bound [OF wf]
    by (simp only: unat_of_nat_u16)
  have "72 + 8 * cnt p \<le> length ?q" using q a d by simp
  note er = entry_reads [OF this]
  show "egen p' (cnt p) = generation_floor p + 1" "eoff p' (cnt p) = ?a" "elen p' (cnt p) = length v"
    unfolding p' er using a by (simp_all only: unat_of_nat_u16)
  show "slice_of p' ?a (length v) = v"
    using a d q unfolding p' by (simp add: buf_simps)
  show "slice_of p' (64 + 8 * j) 8 = slice_of p (64 + 8 * j) 8" if "j < cnt p" for j
    using a d q that unfolding p' by (simp add: buf_simps)
  show "slice_of p' j n = slice_of p j n" if "free_end p \<le> j" for j n
    using a d q that unfolding p' by (simp add: buf_simps)
qed

lemma slotted_insert_recycle:
  assumes wf: "heap_wf p" and s: "find_dead_slot p = Ok (Some s)" "unat s < cnt p" "eoff p (unat s) = 0"
    and v: "v \<noteq> []" "length v \<le> free_space p"
  shows "slotted_insert p v =
    Ok (recycle_page p s v, locator_new (slotted_page_id p) s (egen p (unat s) + 1))"
proof -
  note d = heap_wfD [OF wf] and r = recycle_page_reads [OF wf s(2,3) v]
  let ?a = "free_end p - length v"
  let ?q = "put (put p ?a v) 38 (le16 (of_nat ?a))"
  have a: "?a + length v = free_end p" "64 + 8 * cnt p \<le> ?a"
    using v d by (auto simp: free_space_def)
  have q: "length ?q = length p" "72 + 8 * unat s \<le> length p" using a d s(2) by simp_all
  have "slot_count ?q = slot_count p" "rd32 ?q (68 + 8 * unat s) = egen p (unat s)"
    using a d s(2) by (simp_all add: slot_count_def egen_def enc_simps)
  then have "slot_entry ?q s = Ok (rd16 ?q (64 + 8 * unat s), rd16 ?q (66 + 8 * unat s), egen p (unat s))"
    using s(2) q slot_less_iff [of s p] by (simp add: slot_entry_def slot_offset_def Let_def not_le [symmetric]
        algebra_simps)
  then show ?thesis
    using a d v s(1,2) q r(5)
    by (simp add: slotted_insert_def Let_def set_free_end_def write_slot_Ok recycle_page_def)
qed

lemma slotted_insert_extend:
  assumes wf: "heap_wf p" and s: "find_dead_slot p = Ok None"
    and v: "v \<noteq> []" "length v + 8 \<le> free_space p"
  shows "slotted_insert p v =
    Ok (extend_page p v, locator_new (slotted_page_id p) (slot_count p) (generation_floor p + 1))"
proof -
  note d = heap_wfD [OF wf] and r = extend_page_reads [OF wf v]
  let ?a = "free_end p - length v"
  let ?q = "put (put p ?a v) 38 (le16 (of_nat ?a))"
  let ?r = "put ?q 40 (le16 (slot_count p + 1))"
  let ?t = "put ?r 36 (le16 (of_nat (free_start p + 8)))"
  have a: "?a + length v = free_end p" "72 + 8 * cnt p \<le> ?a"
    using v d by (auto simp: free_space_def)
  have "slot_count ?q = slot_count p" "free_start ?r = free_start p"
    "generation_floor ?t = generation_floor p"
    using a d by (simp_all add: slot_count_def free_start_def generation_floor_def enc_simps)
  then show ?thesis
    using a d v s r(5)
    by (simp add: slotted_insert_def Let_def page_write_defs write_slot_Ok cnt_def [symmetric]
        extend_page_def)
qed

text \<open>The effect of an operation on one slot of the view; the rest of the page is kept.\<close>

definition slot_updated :: "bytes \<Rightarrow> nat \<Rightarrow> u32 \<times> bytes option \<Rightarrow> bytes \<Rightarrow> bool" where
  "slot_updated p i e p' \<longleftrightarrow>
     heap_wf p' \<and> slot_view p' = (slot_view p)(i \<mapsto> e) \<and> length p' = length p \<and>
     slotted_page_id p' = slotted_page_id p \<and> generation_floor p' = generation_floor p"

lemma recycle_page_updated:
  assumes wf: "heap_wf p" and s: "unat s < cnt p" "eoff p (unat s) = 0"
    and v: "v \<noteq> []" "length v \<le> free_space p"
  shows "slot_updated p (unat s) (egen p (unat s) + 1, Some v) (recycle_page p s v)"
proof -
  note r = recycle_page_reads [OF assms] and d = heap_wfD [OF wf]
  have a: "64 + 8 * cnt p \<le> free_end p - length v" "length v \<le> free_end p"
    using v d by (auto simp: free_space_def)
  have "heap_wf (recycle_page p s v)"
    by (rule heap_wf_change [OF wf, where i = "unat s"])
       (use a d s v in \<open>auto simp: r tuple_in_data_def dest: heap_wf_live [OF wf]\<close>)
  moreover have "slot_view (recycle_page p s v) = (slot_view p)(unat s \<mapsto> (egen p (unat s) + 1, Some v))"
    by (subst slot_view_change [OF wf, where i = "unat s"])
       (use a d s heap_wf_live [OF wf] in \<open>auto simp: r tuple_at_def\<close>)
  ultimately show ?thesis by (simp add: slot_updated_def r)
qed

lemma extend_page_updated:
  assumes wf: "heap_wf p" and v: "v \<noteq> []" "length v + 8 \<le> free_space p"
  shows "slot_updated p (cnt p) (generation_floor p + 1, Some v) (extend_page p v)"
proof -
  note r = extend_page_reads [OF assms] and d = heap_wfD [OF wf]
  have a: "72 + 8 * cnt p \<le> free_end p - length v" "length v \<le> free_end p"
    using v d by (auto simp: free_space_def)
  have "heap_wf (extend_page p v)"
    by (rule heap_wf_change [OF wf, where i = "cnt p"])
       (use a d v in \<open>auto simp: r tuple_in_data_def dest: heap_wf_live [OF wf]\<close>)
  moreover have "slot_view (extend_page p v) = (slot_view p)(cnt p \<mapsto> (generation_floor p + 1, Some v))"
    by (subst slot_view_change [OF wf, where i = "cnt p"])
       (use a d heap_wf_live [OF wf] in \<open>auto simp: r tuple_at_def\<close>)
  ultimately show ?thesis by (simp add: slot_updated_def r)
qed

lemma slotted_insert_Ok:
  assumes wf: "heap_wf p" and ins: "slotted_insert p v = Ok (p', l)"
  shows "slot_updated p (unat (tl_slot l)) (tl_generation l, Some v) p'"
    and "tl_page_id l = slotted_page_id p"
    and "slot_view p (unat (tl_slot l)) = Some (tl_generation l - 1, None) \<or>
         slot_view p (unat (tl_slot l)) = None \<and> tl_generation l = generation_floor p + 1"
proof -
  from ins have v: "v \<noteq> []" by (auto simp: slotted_insert_def)
  have "slot_updated p (unat (tl_slot l)) (tl_generation l, Some v) p' \<and> tl_page_id l = slotted_page_id p \<and>
      (slot_view p (unat (tl_slot l)) = Some (tl_generation l - 1, None) \<or>
       slot_view p (unat (tl_slot l)) = None \<and> tl_generation l = generation_floor p + 1)"
  using wf
  proof (cases rule: find_dead_slot_cases)
    case None
    with ins v have "length v + 8 \<le> free_space p"
      by (auto simp: slotted_insert_def Let_def split: if_splits)
    with slotted_insert_extend [OF wf None(1) v] extend_page_updated [OF wf v] ins show ?thesis
      by (auto simp: locator_new_def cnt_def [symmetric] slot_view_def)
  next
    case (Some s)
    with ins v have "length v \<le> free_space p"
      by (auto simp: slotted_insert_def Let_def split: if_splits)
    with slotted_insert_recycle [OF wf Some v] recycle_page_updated [OF wf Some(2,3) v] ins Some
    show ?thesis by (auto simp: locator_new_def slot_view_def tuple_at_def)
  qed
  then show "slot_updated p (unat (tl_slot l)) (tl_generation l, Some v) p'"
    and "tl_page_id l = slotted_page_id p"
    and "slot_view p (unat (tl_slot l)) = Some (tl_generation l - 1, None) \<or>
         slot_view p (unat (tl_slot l)) = None \<and> tl_generation l = generation_floor p + 1"
    by blast+
qed

text \<open>An insert fails exactly when the value is empty or does not fit, and never panics.\<close>

lemma slotted_insert_outcome:
  assumes wf: "heap_wf p"
  shows "can_fit p (length v) = Ok b \<Longrightarrow>
     (if v = [] then slotted_insert p v = Err (ValueTooLarge (slotted_page_id p) 0 (free_space p))
      else if b then \<exists>p' l. slotted_insert p v = Ok (p', l)
      else slotted_insert p v = Err (ValueTooLarge (slotted_page_id p) (length v) (free_space p)))"
    and "\<exists>b. can_fit p (length v) = Ok b"
proof -
  show "if v = [] then slotted_insert p v = Err (ValueTooLarge (slotted_page_id p) 0 (free_space p))
      else if b then \<exists>p' l. slotted_insert p v = Ok (p', l)
      else slotted_insert p v = Err (ValueTooLarge (slotted_page_id p) (length v) (free_space p))"
    if "can_fit p (length v) = Ok b"
  using wf
  proof (cases rule: find_dead_slot_cases)
    case None
    with that slotted_insert_extend [OF wf None(1), of v] show ?thesis
      by (auto simp: can_fit_def slotted_insert_def Let_def)
  next
    case (Some s)
    with that slotted_insert_recycle [OF wf Some, of v] show ?thesis
      by (auto simp: can_fit_def slotted_insert_def Let_def)
  qed
  show "\<exists>b. can_fit p (length v) = Ok b"
    using wf by (simp add: can_fit_def find_dead_slot_wf)
qed

text \<open>Rewriting the directory entry of an existing slot over a buffer that kept the rest.\<close>

lemma entry_change:
  fixes a l :: u16 and g :: u32
  assumes wf: "heap_wf p" and i: "i < cnt p" and len: "length q = length p"
    and head: "\<And>j n. j + n \<le> 64 + 8 * cnt p \<Longrightarrow> j + n \<le> 38 \<or> 40 \<le> j \<Longrightarrow>
        slice_of q j n = slice_of p j n"
    and fe: "64 + 8 * cnt p \<le> free_end q" "free_end q \<le> free_end p"
    and kept: "\<And>j. j < cnt p \<Longrightarrow> j \<noteq> i \<Longrightarrow> eoff p j \<noteq> 0 \<Longrightarrow>
        slice_of q (eoff p j) (elen p j) = slice_of p (eoff p j) (elen p j)"
    and inr: "a \<noteq> 0 \<Longrightarrow> free_end q \<le> unat a \<and> 0 < unat l \<and> unat a + unat l \<le> length p - 8"
    and dis: "\<And>j. a \<noteq> 0 \<Longrightarrow> j < cnt p \<Longrightarrow> j \<noteq> i \<Longrightarrow> eoff p j \<noteq> 0 \<Longrightarrow>
        unat a + unat l \<le> eoff p j \<or> eoff p j + elen p j \<le> unat a"
  shows "slot_updated p i (g, if a = 0 then None else Some (slice_of q (unat a) (unat l)))
    (put q (64 + 8 * i) (entry_bytes a l g))"
proof -
  define p' where "p' = put q (64 + 8 * i) (entry_bytes a l g)"
  note d = heap_wfD [OF wf]
  have qi: "72 + 8 * i \<le> length q" "72 + 8 * i \<le> length p" using i len d by simp_all
  note er = entry_reads [OF qi(1), of a l g, folded p'_def]
  have len': "length p' = length p" using qi len by (simp add: p'_def)
  have hd: "slice_of p' j n = slice_of p j n" if "j + n \<le> 64" "j + n \<le> 38 \<or> 40 \<le> j" for j n
    using that qi head [of j n] by (simp add: p'_def buf_simps)
  have pid: "slotted_page_id p' = slotted_page_id p" "generation_floor p' = generation_floor p"
    by (simp_all add: slotted_page_id_def generation_floor_def rd64_def rd32_def hd)
  have c: "cnt p' = cnt p" "free_start p' = free_start p"
    by (simp_all add: cnt_def slot_count_def free_start_def rd16_def hd)
  have f: "free_end p' = free_end q"
    using qi by (simp add: p'_def free_end_def enc_simps)
  have keep: "slice_of p' (64 + 8 * j) 8 = slice_of p (64 + 8 * j) 8" if "j < cnt p" "j \<noteq> i" for j
  proof -
    have "slice_of p' (64 + 8 * j) 8 = slice_of q (64 + 8 * j) 8"
      unfolding p'_def by (rule slice_put_other) (use that qi in auto)
    with that head [of "64 + 8 * j" 8] show ?thesis by simp
  qed
  have a0: "unat a \<noteq> 0 \<longleftrightarrow> a \<noteq> 0" by (simp add: unat_eq_0)
  have wf': "heap_wf p'"
    by (rule heap_wf_change [OF wf len', where i = i])
       (use i d fe inr dis a0 keep in \<open>auto simp: c f er tuple_in_data_def len'\<close>)
  have data: "slice_of p' j n = slice_of q j n" if "64 + 8 * cnt p \<le> j" for j n
    using that qi i by (simp add: p'_def buf_simps)
  have "slice_of p' (unat a) (unat l) = slice_of q (unat a) (unat l)" if "a \<noteq> 0"
    using inr [OF that] fe by (intro data) simp
  moreover have "slice_of p' (eoff p j) (elen p j) = slice_of p (eoff p j) (elen p j)"
    if "j < cnt p" "j \<noteq> i" "eoff p j \<noteq> 0" for j
    using kept [OF that] data heap_wf_live(5) [OF wf that(1,3)] by simp
  ultimately have "slot_view p' = (slot_view p)(i \<mapsto>
      (g, if a = 0 then None else Some (slice_of q (unat a) (unat l))))"
    using slot_view_change [OF wf _ _ keep, of i] i by (cases "a = 0") (simp_all add: c er tuple_at_def unat_eq_0)
  with wf' len' pid show ?thesis by (simp add: slot_updated_def p'_def)
qed

text \<open>Delete: the tuple bytes are zeroed and the slot is dead.\<close>

lemma slotted_delete_live:
  assumes wf: "heap_wf p" and i: "unat (tl_slot l) < cnt p" "eoff p (unat (tl_slot l)) \<noteq> 0"
    and g: "egen p (unat (tl_slot l)) = tl_generation l"
  obtains p' where "slotted_delete p l = Ok p'"
    "slot_updated p (unat (tl_slot l)) (tl_generation l, None) p'"
    "slice_of p' (eoff p (unat (tl_slot l))) (elen p (unat (tl_slot l))) =
       replicate (elen p (unat (tl_slot l))) 0"
proof -
  let ?i = "unat (tl_slot l)"
  let ?q = "zero p (eoff p ?i) (elen p ?i)"
  let ?p = "put ?q (64 + 8 * ?i) (entry_bytes 0 (rd16 p (66 + 8 * ?i)) (tl_generation l))"
  note d = heap_wfD [OF wf] and v = heap_wf_live [OF wf i]
  have "slotted_delete p l = Ok ?p"
    using i g d v
    by (simp add: slotted_delete_def slot_entry_wf wf dead_iff eoff_def [symmetric]
        elen_def [symmetric] write_slot_Ok)
  moreover have "slice_of ?q (eoff p j) (elen p j) = slice_of p (eoff p j) (elen p j)"
    if "j < cnt p" "j \<noteq> ?i" "eoff p j \<noteq> 0" for j
    using heap_wf_disjoint [OF wf i(1) that(1)] that i v by (intro slice_zero_other) auto
  then have "slot_updated p ?i (tl_generation l, if (0 :: u16) = 0 then None else
      Some (slice_of ?q (unat (0 :: u16)) (unat (rd16 p (66 + 8 * ?i))))) ?p"
    by (intro entry_change [OF wf i(1)])
       (use v d in \<open>simp_all add: buf_simps free_end_def enc_simps\<close>)
  moreover have "slice_of ?p (eoff p ?i) (elen p ?i) = replicate (elen p ?i) 0"
    using v d i by (simp add: buf_simps)
  ultimately show thesis using that by simp
qed

text \<open>Update, in place and by moving the tuple.\<close>

lemma slotted_update_in_place:
  assumes wf: "heap_wf p" and i: "unat (tl_slot l) < cnt p" "eoff p (unat (tl_slot l)) \<noteq> 0"
    and g: "egen p (unat (tl_slot l)) = tl_generation l"
    and v: "v \<noteq> []" "length v \<le> elen p (unat (tl_slot l))"
  obtains p' where "slotted_update p l v = Ok p'"
    "slot_updated p (unat (tl_slot l)) (tl_generation l, Some v) p'"
proof -
  let ?i = "unat (tl_slot l)" and ?a = "rd16 p (64 + 8 * unat (tl_slot l))"
  let ?q = "zero (put p (eoff p ?i) v) (eoff p ?i + length v) (elen p ?i - length v)"
  let ?p = "put ?q (64 + 8 * ?i) (entry_bytes ?a (of_nat (length v)) (tl_generation l))"
  note d = heap_wfD [OF wf] and lv = heap_wf_live [OF wf i]
  have u: "unat (of_nat (length v) :: u16) = length v" using lv v d by (intro unat_of_nat_u16) simp
  have a: "unat ?a = eoff p ?i" by (simp add: eoff_def)
  have fe: "free_end ?q = free_end p" using v d lv by (simp add: free_end_def enc_simps)
  have upd: "slotted_update p l v = Ok ?p"
    using i g d v lv
    by (simp add: slotted_update_def slot_entry_wf wf dead_iff eoff_def [symmetric]
        elen_def [symmetric] write_slot_Ok)
  have "slice_of ?q (eoff p j) (elen p j) = slice_of p (eoff p j) (elen p j)"
    if "j < cnt p" "j \<noteq> ?i" "eoff p j \<noteq> 0" for j
    using heap_wf_disjoint [OF wf i(1) that(1)] that i lv v
    by (auto simp: slice_zero_other slice_put_other)
  moreover have "eoff p ?i + length v \<le> eoff p j \<or> eoff p j + elen p j \<le> eoff p ?i"
    if "j < cnt p" "j \<noteq> ?i" "eoff p j \<noteq> 0" for j
    using heap_wf_disjoint [OF wf i(1) that(1)] that i v by auto
  ultimately have "slot_updated p ?i (tl_generation l, if ?a = 0 then None else
      Some (slice_of ?q (unat ?a) (unat (of_nat (length v) :: u16)))) ?p"
    by (intro entry_change [OF wf i(1)])
       (use v d lv in \<open>simp_all add: buf_simps fe u a\<close>)
  moreover have "slice_of ?q (eoff p ?i) (length v) = v"
    using v lv by (simp add: buf_simps)
  ultimately show thesis using that upd i by (simp add: dead_iff u a)
qed

lemma slotted_update_move:
  assumes wf: "heap_wf p" and i: "unat (tl_slot l) < cnt p" "eoff p (unat (tl_slot l)) \<noteq> 0"
    and g: "egen p (unat (tl_slot l)) = tl_generation l"
    and v: "elen p (unat (tl_slot l)) < length v" "length v \<le> free_space p"
  obtains p' where "slotted_update p l v = Ok p'"
    "slot_updated p (unat (tl_slot l)) (tl_generation l, Some v) p'"
proof -
  let ?i = "unat (tl_slot l)" and ?a = "free_end p - length v"
  let ?z = "zero p (eoff p ?i) (elen p ?i)"
  let ?q = "put (put ?z ?a v) 38 (le16 (of_nat ?a))"
  let ?p = "put ?q (64 + 8 * ?i) (entry_bytes (of_nat ?a) (of_nat (length v)) (tl_generation l))"
  note d = heap_wfD [OF wf] and lv = heap_wf_live [OF wf i]
  have a: "64 + 8 * cnt p \<le> ?a" "?a + length v = free_end p" "v \<noteq> []"
    using v d by (auto simp: free_space_def)
  have u: "unat (of_nat (length v) :: u16) = length v" "unat (of_nat ?a :: u16) = ?a"
    using a d by (simp_all only: unat_of_nat_u16)
  then have a0: "(of_nat ?a :: u16) \<noteq> 0" using a by (metis unat_0 add_is_0 le_zero_eq zero_neq_numeral)
  have fz: "free_end ?z = free_end p" using d lv by (simp add: free_end_def enc_simps)
  have fe: "free_end ?q = ?a" using u d lv a by (simp add: free_end_def enc_simps del: of_nat_diff)
  have upd: "slotted_update p l v = Ok ?p"
    using i g d v lv a fz
    by (simp add: slotted_update_def slot_entry_wf wf dead_iff eoff_def [symmetric]
        elen_def [symmetric] write_slot_Ok Let_def set_free_end_def)
  have other: "slice_of ?q (eoff p j) (elen p j) = slice_of p (eoff p j) (elen p j)"
    if "j < cnt p" "j \<noteq> ?i" "eoff p j \<noteq> 0" for j
    using heap_wf_disjoint [OF wf i(1) that(1)] heap_wf_live [OF wf that(1,3)] that i lv a d
    by (auto simp: slice_zero_other slice_put_other)
  have "slot_updated p ?i (tl_generation l, if (of_nat ?a :: u16) = 0 then None else
      Some (slice_of ?q (unat (of_nat ?a :: u16)) (unat (of_nat (length v) :: u16)))) ?p"
  proof (rule entry_change [OF wf i(1)])
    show "slice_of ?q j n = slice_of p j n" if "j + n \<le> 64 + 8 * cnt p" "j + n \<le> 38 \<or> 40 \<le> j" for j n
      using that a d lv by (auto simp: slice_put_other slice_zero_other)
  qed (use a d lv other in \<open>simp_all add: fe u del: of_nat_diff, (auto dest: heap_wf_live [OF wf])?\<close>)
  moreover have "slice_of ?q ?a (length v) = v"
    using a d lv by (simp add: buf_simps)
  ultimately show thesis using that upd a0 u by (simp del: of_nat_diff)
qed

text \<open>Lookup by locator, and the operations that resolve a locator first.\<close>

lemma slotted_get_view:
  assumes "heap_wf p"
  shows "slotted_get p l =
    (case slot_view p (unat (tl_slot l)) of
       None \<Rightarrow> Err (NoSuchSlot (slotted_page_id p) (tl_slot l) (slot_count p))
     | Some (g, None) \<Rightarrow> Err (DeadSlot (slotted_page_id p) (tl_slot l))
     | Some (g, Some v) \<Rightarrow>
         if g \<noteq> tl_generation l
         then Err (StaleLocator (slotted_page_id p) (tl_slot l) (ucast (tl_generation l)) (ucast g))
         else Ok v)"
  using assms heap_wf_live [OF assms, of "unat (tl_slot l)"]
  by (auto simp: slotted_get_def slot_entry_wf slot_view_def tuple_at_def dead_iff
      eoff_def [symmetric] elen_def [symmetric])

lemma slotted_get_Ok_iff:
  "heap_wf p \<Longrightarrow> slotted_get p l = Ok v \<longleftrightarrow>
     slot_view p (unat (tl_slot l)) = Some (tl_generation l, Some v)"
  by (auto simp: slotted_get_view split: option.splits if_splits)

lemma slotted_get_no_panic: "heap_wf p \<Longrightarrow> slotted_get p l \<noteq> Panic"
  by (auto simp: slotted_get_view split: option.splits)

lemma get_Err_others:
  assumes "heap_wf p" "slotted_get p l = Err e"
  shows "slotted_delete p l = Err e" "slotted_update p l v = Err e"
  using assms heap_wf_live [OF assms(1), of "unat (tl_slot l)"]
  by (auto simp: slotted_get_def slotted_delete_def slotted_update_def slot_entry_wf dead_iff
      eoff_def [symmetric] elen_def [symmetric] split: if_splits)

lemma get_Ok_live:
  assumes "heap_wf p" "slotted_get p l = Ok w"
  shows "unat (tl_slot l) < cnt p" "eoff p (unat (tl_slot l)) \<noteq> 0"
    "egen p (unat (tl_slot l)) = tl_generation l" "length w = elen p (unat (tl_slot l))"
    "w = slice_of p (eoff p (unat (tl_slot l))) (elen p (unat (tl_slot l)))"
  using assms heap_wf_live [OF assms(1), of "unat (tl_slot l)"]
  by (auto simp: slotted_get_Ok_iff slot_view_def tuple_at_def split: if_splits)

lemma slotted_update_outcome:
  assumes wf: "heap_wf p" and get: "slotted_get p l = Ok w"
  shows "if v = [] then slotted_update p l v = Err (ValueTooLarge (slotted_page_id p) 0 (free_space p))
    else if length v \<le> max (length w) (free_space p)
    then \<exists>p'. slotted_update p l v = Ok p' \<and>
           slot_updated p (unat (tl_slot l)) (tl_generation l, Some v) p'
    else slotted_update p l v = Err (ValueTooLarge (slotted_page_id p) (length v) (free_space p))"
proof -
  note live = get_Ok_live [OF wf get]
  consider "v = []" | "v \<noteq> []" "length v \<le> length w"
    | "length w < length v" "length v \<le> free_space p"
    | "v \<noteq> []" "length w < length v" "free_space p < length v" by fastforce
  then show ?thesis
  proof cases
    case 1
    with live wf show ?thesis
      by (simp add: slotted_update_def slot_entry_wf dead_iff)
  next
    case 2
    then obtain p' where "slotted_update p l v = Ok p'"
        "slot_updated p (unat (tl_slot l)) (tl_generation l, Some v) p'"
      using live(4) by (auto intro: slotted_update_in_place [OF wf live(1-3)])
    with 2 show ?thesis by simp
  next
    case 3
    then obtain p' where "slotted_update p l v = Ok p'"
        "slot_updated p (unat (tl_slot l)) (tl_generation l, Some v) p'"
      using live(4) by (auto intro: slotted_update_move [OF wf live(1-3)])
    with 3 show ?thesis by auto
  next
    case 4
    with live wf show ?thesis
      by (simp add: slotted_update_def slot_entry_wf dead_iff elen_def [symmetric])
  qed
qed

lemma slotted_update_Ok:
  assumes "heap_wf p" "slotted_update p l v = Ok p'"
  shows "slot_updated p (unat (tl_slot l)) (tl_generation l, Some v) p'"
    and "\<exists>w. slotted_get p l = Ok w" and "v \<noteq> []"
proof -
  obtain w where w: "slotted_get p l = Ok w"
    using assms get_Err_others(2) [of p l _ v] slotted_get_no_panic [of p l]
    by (cases "slotted_get p l") auto
  then show "\<exists>w. slotted_get p l = Ok w" ..
  show "slot_updated p (unat (tl_slot l)) (tl_generation l, Some v) p'" "v \<noteq> []"
    using slotted_update_outcome [OF assms(1) w, of v] assms(2) by (auto split: if_splits)
qed

lemma slotted_delete_Ok:
  assumes "heap_wf p" "slotted_delete p l = Ok p'"
  shows "slot_updated p (unat (tl_slot l)) (tl_generation l, None) p'"
    and "\<exists>w. slotted_get p l = Ok w"
proof -
  obtain w where w: "slotted_get p l = Ok w"
    using assms get_Err_others(1) [of p l] slotted_get_no_panic [of p l]
    by (cases "slotted_get p l") auto
  then show "\<exists>w. slotted_get p l = Ok w" ..
  show "slot_updated p (unat (tl_slot l)) (tl_generation l, None) p'"
    by (rule slotted_delete_live [OF assms(1) get_Ok_live(1-3) [OF assms(1) w]]) (use assms(2) in simp)
qed

end
