(* ===== verification/Slotted_Page.thy ===== *)
theory Slotted_Page
  imports Slotted
begin

text \<open>
  Compaction and initialisation of slotted pages, the contract of a page of tuples as a
  locale with its client lemmas on locators, and the properties of slotted pages.
\<close>

section \<open>Compaction\<close>

definition live_slots :: "bytes \<Rightarrow> u16 list" where
  "live_slots p = filter (\<lambda>s. eoff p (unat s) \<noteq> 0) (slot_range p)"

definition live_entry :: "bytes \<Rightarrow> u16 \<Rightarrow> u16 \<times> bytes \<times> u32" where
  "live_entry p s =
     (s, slice_of p (eoff p (unat s)) (elen p (unat s)), egen p (unat s))"

lemma collect_live_wf:
  "heap_wf p \<Longrightarrow> \<forall>s\<in>set ss. unat s < cnt p \<Longrightarrow>
   collect_live p ss = Ok (map (live_entry p) (filter (\<lambda>s. eoff p (unat s) \<noteq> 0) ss))"
  by (induction ss)
     (auto simp: slot_entry_wf dead_iff live_entry_def eoff_def [symmetric] elen_def [symmetric]
       heap_wf_live)

lemma distinct_slot_range: "distinct (slot_range p)"
proof -
  have "inj_on (of_nat :: nat \<Rightarrow> u16) {0..<unat (slot_count p)}"
    using slot_bound [of "slot_count p"]
    by (intro inj_on_inverseI [where g = unat]) (metis atLeastLessThan_iff order.strict_trans unat_of_nat_u16)
  then show ?thesis by (simp add: slot_range_def distinct_map)
qed

lemma live_slots_set: "set (live_slots p) = {s. unat s < cnt p \<and> eoff p (unat s) \<noteq> 0}"
  by (auto simp: live_slots_def slot_range_nth)

lemma distinct_live_slots: "distinct (live_slots p)"
  by (simp add: live_slots_def distinct_slot_range)

text \<open>The live tuples fit between the free-space end and the trailer, being disjoint.\<close>

lemma sum_live_le:
  assumes wf: "heap_wf p"
  shows "(\<Sum>s\<leftarrow>live_slots p. elen p (unat s)) \<le> length p - 8 - free_end p"
proof -
  let ?I = "\<lambda>s :: u16. {eoff p (unat s)..<eoff p (unat s) + elen p (unat s)}"
  have "?I s \<inter> ?I t = {}" if "s \<in> set (live_slots p)" "t \<in> set (live_slots p)" "s \<noteq> t" for s t
  proof -
    have "unat s \<noteq> unat t" using that(3) by (simp add: word_eq_iff_unsigned [where 'a = nat])
    with that heap_wf_disjoint [OF wf, of "unat s" "unat t"] show ?thesis
      by (auto simp: live_slots_set)
  qed
  then have "(\<Sum>s\<in>set (live_slots p). card (?I s)) = card (\<Union>s\<in>set (live_slots p). ?I s)"
    by (intro card_UN_disjoint [symmetric]) auto
  also have "\<dots> \<le> card {free_end p..<length p - 8}"
  proof (rule card_mono)
    show "(\<Union>s\<in>set (live_slots p). ?I s) \<subseteq> {free_end p..<length p - 8}"
      using heap_wf_live [OF wf] by (fastforce simp: live_slots_set)
  qed simp
  finally show ?thesis
    by (simp add: sum_list_distinct_conv_sum_set distinct_live_slots)
qed

text \<open>
  The state of the rewriting loop: the slots of \<open>D\<close> have been placed above \<open>c\<close>, the other
  directory entries are still those of the original page.
\<close>

definition placing :: "bytes \<Rightarrow> bytes \<Rightarrow> nat \<Rightarrow> nat set \<Rightarrow> bool" where
  "placing p q c D \<longleftrightarrow>
     length q = length p \<and> 64 + 8 * cnt p \<le> c \<and> c \<le> length p - 8 \<and>
     (\<forall>j n. j + n \<le> 64 \<longrightarrow> slice_of q j n = slice_of p j n) \<and>
     (\<forall>i < cnt p. i \<notin> D \<longrightarrow> slice_of q (64 + 8 * i) 8 = slice_of p (64 + 8 * i) 8) \<and>
     (\<forall>i\<in>D. i < cnt p \<and> eoff p i \<noteq> 0 \<and> c \<le> eoff q i \<and> eoff q i + elen p i \<le> length p - 8 \<and>
        elen q i = elen p i \<and> egen q i = egen p i \<and>
        slice_of q (eoff q i) (elen p i) = slice_of p (eoff p i) (elen p i)) \<and>
     (\<forall>i\<in>D. \<forall>j\<in>D. i \<noteq> j \<longrightarrow> tuples_disjoint q i j)"

lemma placingD:
  assumes "placing p q c D"
  shows "length q = length p" "64 + 8 * cnt p \<le> c" "c \<le> length p - 8"
    "j + n \<le> 64 \<Longrightarrow> slice_of q j n = slice_of p j n"
    "i < cnt p \<Longrightarrow> i \<notin> D \<Longrightarrow> slice_of q (64 + 8 * i) 8 = slice_of p (64 + 8 * i) 8"
    "i \<in> D \<Longrightarrow> i < cnt p" "i \<in> D \<Longrightarrow> eoff p i \<noteq> 0" "i \<in> D \<Longrightarrow> c \<le> eoff q i"
    "i \<in> D \<Longrightarrow> eoff q i + elen p i \<le> length p - 8" "i \<in> D \<Longrightarrow> elen q i = elen p i"
    "i \<in> D \<Longrightarrow> egen q i = egen p i"
    "i \<in> D \<Longrightarrow> slice_of q (eoff q i) (elen p i) = slice_of p (eoff p i) (elen p i)"
    "i \<in> D \<Longrightarrow> k \<in> D \<Longrightarrow> i \<noteq> k \<Longrightarrow> tuples_disjoint q i k"
  using assms by (auto simp: placing_def)

lemma placing_step:
  assumes wf: "heap_wf p" and pl: "placing p q c D" and i: "i < cnt p" "i \<notin> D" "eoff p i \<noteq> 0"
    and room: "64 + 8 * cnt p + elen p i \<le> c"
  defines "v \<equiv> slice_of p (eoff p i) (elen p i)" and "a \<equiv> c - elen p i"
  shows "placing p (put (put q a v) (64 + 8 * i)
      (entry_bytes (of_nat a) (of_nat (length v)) (egen p i))) a (insert i D)" (is "placing p ?r a _")
proof -
  note d = heap_wfD [OF wf] and lv = heap_wf_live [OF wf i(1,3)] and P = placingD [OF pl]
  have v: "length v = elen p i" using lv by (simp add: v_def)
  have a: "a + length v = c" "64 + 8 * cnt p \<le> a" "a < 65536" "length v < 65536" "c \<le> length q"
    using room P(1-3) d v by (auto simp: a_def)
  let ?q = "put q a v"
  have q: "length ?q = length q" "72 + 8 * i \<le> length ?q" using a i P(1) d by simp_all
  define r where "r = ?r"
  note er = entry_reads [OF q(2), of "of_nat a" "of_nat (length v)" "egen p i", folded r_def]
  have new: "eoff r i = a" "elen r i = length v" "egen r i = egen p i"
    unfolding er using a by (simp_all only: unat_of_nat_u16)
  have len: "length r = length p" using q P(1) by (simp add: r_def)
  have low: "slice_of r j n = slice_of q j n" if "j + n \<le> 64" for j n
    using that q a by (simp add: r_def buf_simps)
  have ent: "slice_of r (64 + 8 * j) 8 = slice_of q (64 + 8 * j) 8" if "j < cnt p" "j \<noteq> i" for j
  proof -
    have "slice_of r (64 + 8 * j) 8 = slice_of ?q (64 + 8 * j) 8"
      unfolding r_def by (rule slice_put_other) (use that q in auto)
    also have "\<dots> = slice_of q (64 + 8 * j) 8" using that a by (simp add: buf_simps)
    finally show ?thesis .
  qed
  have data: "slice_of r j n = slice_of q j n" if "c \<le> j" for j n
    using that q a i by (simp add: r_def buf_simps)
  have same: "eoff r j = eoff q j" "elen r j = elen q j" "egen r j = egen q j" if "j \<in> D" for j
    using entry_cong [OF ent [of j]] that P(6) i by auto
  have "slice_of r a (length v) = v" using a q i by (simp add: r_def buf_simps)
  moreover have "tuples_disjoint r j i" "tuples_disjoint r i j" if "j \<in> D" for j
    using P(8) [OF that] a by (auto simp: tuples_disjoint_def same that new)
  moreover have "tuples_disjoint r j k" if "j \<in> D" "k \<in> D" "j \<noteq> k" for j k
    using P(13) [OF that] that by (simp add: tuples_disjoint_def same)
  moreover have "slice_of r (64 + 8 * j) 8 = slice_of p (64 + 8 * j) 8" if "j < cnt p" "j \<notin> insert i D" for j
    using that ent [of j] P(5) [of j] by simp
  moreover have "slice_of r j n = slice_of p j n" if "j + n \<le> 64" for j n
    using low [OF that] P(4) [OF that] by simp
  moreover have "j < cnt p \<and> eoff p j \<noteq> 0 \<and> a \<le> eoff r j \<and> eoff r j + elen p j \<le> length p - 8 \<and>
      elen r j = elen p j \<and> egen r j = egen p j \<and>
      slice_of r (eoff r j) (elen p j) = slice_of p (eoff p j) (elen p j)" if "j \<in> D" for j
    using P(6-12) [OF that] a(1) that by (simp add: same data)
  ultimately show ?thesis
    using a i P(2,3) len lv unfolding placing_def r_def [symmetric] by (auto simp: new v v_def [symmetric])
qed

lemma place_live_placing:
  assumes wf: "heap_wf p"
  shows "placing p q c D \<Longrightarrow> distinct ss \<Longrightarrow> (\<forall>s\<in>set ss. unat s < cnt p \<and> eoff p (unat s) \<noteq> 0 \<and> unat s \<notin> D) \<Longrightarrow>
    64 + 8 * cnt p + (\<Sum>s\<leftarrow>ss. elen p (unat s)) \<le> c \<Longrightarrow>
    \<exists>r. place_live q c (map (live_entry p) ss) = Ok (r, c - (\<Sum>s\<leftarrow>ss. elen p (unat s))) \<and>
        placing p r (c - (\<Sum>s\<leftarrow>ss. elen p (unat s))) (D \<union> (\<lambda>s. unat s) ` set ss)"
proof (induction ss arbitrary: q c D)
  case (Cons s ss)
  let ?i = "unat s"
  let ?v = "slice_of p (eoff p ?i) (elen p ?i)" and ?a = "c - elen p ?i"
  let ?r = "put (put q ?a ?v) (64 + 8 * ?i) (entry_bytes (of_nat ?a) (of_nat (length ?v)) (egen p ?i))"
  from Cons.prems(3) have i: "?i < cnt p" "?i \<notin> D" "eoff p ?i \<noteq> 0" by auto
  have room: "64 + 8 * cnt p + elen p ?i \<le> c" using Cons.prems(4) by simp
  note lv = heap_wf_live [OF wf i(1,3)] and P = placingD [OF Cons.prems(1)] and d = heap_wfD [OF wf]
  have "placing p ?r ?a (insert ?i D)"
    by (rule placing_step [OF wf Cons.prems(1) i room])
  moreover have "unat t \<noteq> ?i" if "t \<in> set ss" for t
    using that Cons.prems(2) by (auto dest: unsigned_word_eqI)
  ultimately have "\<exists>r. place_live ?r ?a (map (live_entry p) ss) = Ok (r, ?a - (\<Sum>s\<leftarrow>ss. elen p (unat s))) \<and>
      placing p r (?a - (\<Sum>s\<leftarrow>ss. elen p (unat s))) (insert ?i D \<union> (\<lambda>s. unat s) ` set ss)"
    using Cons.prems by (intro Cons.IH) auto
  moreover have "place_live q c (map (live_entry p) (s # ss)) = place_live ?r ?a (map (live_entry p) ss)"
    using room lv P(1-3) d i by (simp add: live_entry_def write_slot_Ok Let_def)
  ultimately show ?case by (simp add: diff_diff_left)
qed simp

definition live_bytes :: "bytes \<Rightarrow> nat" where
  "live_bytes p = (\<Sum>s\<leftarrow>live_slots p. elen p (unat s))"

lemma placing_done:
  assumes wf: "heap_wf p" and pl: "placing p q c ((\<lambda>s. unat s) ` set (live_slots p))"
  defines "p' \<equiv> set_free_end q c"
  shows "heap_wf p'" "slot_view p' = slot_view p" "length p' = length p" "free_end p' = c" "cnt p' = cnt p"
    "slotted_page_id p' = slotted_page_id p" "generation_floor p' = generation_floor p"
proof -
  let ?D = "(\<lambda>s. unat s) ` set (live_slots p)"
  note P = placingD [OF pl] and d = heap_wfD [OF wf]
  have D: "i \<in> ?D \<longleftrightarrow> i < cnt p \<and> eoff p i \<noteq> 0" for i
  proof -
    have "unat (of_nat i :: u16) = i" if "i < cnt p"
      using that cnt_bound [OF wf] by (simp add: unat_of_nat)
    then show ?thesis by (auto simp: live_slots_set intro!: image_eqI [of _ _ "of_nat i"])
  qed
  show len: "length p' = length p" using P(1) d by (simp add: p'_def set_free_end_def)
  have c: "c < 65536" using P(3) d by simp
  then show fe: "free_end p' = c" using P(1) d
    by (simp add: p'_def set_free_end_def free_end_def enc_simps unat_of_nat_u16)
  have sl: "slice_of p' j n = slice_of q j n" if "j + n \<le> 38 \<or> 40 \<le> j" for j n
    unfolding p'_def set_free_end_def by (rule slice_put_other) (use that P(1) d in auto)
  have low: "slice_of p' j n = slice_of p j n" if "j + n \<le> 64" "j + n \<le> 38 \<or> 40 \<le> j" for j n
    using sl [OF that(2)] P(4) [OF that(1)] by simp
  show cn: "cnt p' = cnt p" and "slotted_page_id p' = slotted_page_id p"
    "generation_floor p' = generation_floor p"
    by (simp_all add: cnt_def slot_count_def slotted_page_id_def generation_floor_def rd16_def rd32_def
        rd64_def low)
  have fs: "free_start p' = free_start p" by (simp add: free_start_def rd16_def low)
  have q: "eoff p' i = eoff q i" "elen p' i = elen q i" "egen p' i = egen q i" for i
    using entry_cong [of p' i q] sl [of "64 + 8 * i" 8] by simp_all
  have dead: "eoff q i = 0" "egen q i = egen p i" if "i < cnt p" "eoff p i = 0" for i
    using entry_cong [OF P(5) [of i]] that D by auto
  have live: "c \<le> eoff q i" "eoff q i + elen p i \<le> length p - 8" "elen q i = elen p i" "egen q i = egen p i"
    "slice_of q (eoff q i) (elen p i) = slice_of p (eoff p i) (elen p i)" "eoff q i \<noteq> 0" "0 < elen p i"
    if "i < cnt p" "eoff p i \<noteq> 0" for i
    using P(8-12) [of i] P(2) that D heap_wf_live(2) [OF wf that] by auto
  have l: "eoff q i \<noteq> 0 \<Longrightarrow> eoff p i \<noteq> 0" if "i < cnt p" for i using dead(1) [OF that] by auto
  have "tuples_disjoint p' i j" if "i < cnt p" "j < cnt p" "i \<noteq> j" "eoff q i \<noteq> 0" "eoff q j \<noteq> 0" for i j
    using P(13) [of i j] that l D by (simp add: tuples_disjoint_def q)
  moreover have "tuple_in_data p' i" if "i < cnt p" "eoff q i \<noteq> 0" for i
    using live [OF that(1) l [OF that]] by (simp add: tuple_in_data_def q fe len)
  ultimately show "heap_wf p'"
    using d P(2,3) by (simp add: heap_wf_def page_layout_def len cn fs fe q)
  show "slot_view p' = slot_view p"
  proof
    fix i show "slot_view p' i = slot_view p i"
      using live [of i] dead [of i] sl [of "eoff q i" "elen p i"] P(2)
      by (cases "eoff p i = 0") (auto simp: slot_view_def cn q tuple_at_def)
  qed
qed

lemma compact_wf:
  assumes wf: "heap_wf p"
  obtains p' where "compact p (length p) = Ok (p', free_space p' - free_space p)" "heap_wf p'"
    "slot_view p' = slot_view p" "length p' = length p" "slotted_page_id p' = slotted_page_id p"
    "generation_floor p' = generation_floor p" "cnt p' = cnt p"
    "free_space p' = length p - 72 - 8 * cnt p - live_bytes p"
proof -
  note d = heap_wfD [OF wf]
  let ?z = "zero p (64 + 8 * cnt p) (length p - 8 - (64 + 8 * cnt p))"
  have "slice_of ?z j n = slice_of p j n" if "j + n \<le> 64 + 8 * cnt p" for j n
    using that d by (simp add: buf_simps)
  then have "placing p ?z (length p - 8) {}"
    using d by (simp add: placing_def)
  moreover have room: "64 + 8 * cnt p + live_bytes p \<le> length p - 8"
    using sum_live_le [OF wf] d by (simp add: live_bytes_def)
  ultimately obtain r where r: "place_live ?z (length p - 8) (map (live_entry p) (live_slots p)) =
      Ok (r, length p - 8 - live_bytes p)"
      "placing p r (length p - 8 - live_bytes p) ((\<lambda>s. unat s) ` set (live_slots p))"
    using place_live_placing [OF wf, of ?z "length p - 8" "{}" "live_slots p"]
    by (auto simp: distinct_live_slots live_slots_set live_bytes_def)
  let ?p = "set_free_end r (length p - 8 - live_bytes p)"
  have "collect_live p (slot_range p) = Ok (map (live_entry p) (live_slots p))"
    using wf by (simp add: collect_live_wf slot_range_nth live_slots_def)
  then have "compact p (length p) = Ok (?p, free_space ?p - free_space p)"
    using r(1) d by (simp add: compact_def Let_def cnt_def [symmetric] mult.commute)
  with placing_done [OF wf r(2)] d heap_wfD(3) [OF placing_done(1) [OF wf r(2)]] show thesis
    by (intro that [of ?p]) (simp_all add: free_space_def)
qed

section \<open>Fresh pages\<close>

lemma init_with_floor_wf:
  fixes b :: bytes and pid :: page_id and floor :: u32
  assumes "72 \<le> length b" "length b \<le> 65536"
  defines "p \<equiv> init_with_floor b pid (length b) floor"
  shows "heap_wf p" "slot_view p = Map.empty" "slotted_page_id p = pid" "generation_floor p = floor"
    "length p = length b"
proof -
  have "unat (of_nat (length b - 8) :: u16) = length b - 8"
    using assms by (intro unat_of_nat_u16) simp
  then have "cnt p = 0" "free_start p = 64" "free_end p = length b - 8" "length p = length b"
    using assms by (simp_all add: p_def init_with_floor_def page_read_defs header_encode_reads header_new_def)
  then show "heap_wf p" "slot_view p = Map.empty" "length p = length b"
    using assms by (auto simp: heap_wf_def page_layout_def slot_view_def)
  show "slotted_page_id p = pid" "generation_floor p = floor"
    by (simp_all add: p_def init_with_floor_def slotted_page_id_def generation_floor_def
        header_encode_reads header_new_def)
qed

section \<open>The contract of a page of tuples\<close>

text \<open>
  What the heap file and the version chains rely on: the page is a directory of slots, each
  with a generation and possibly a tuple. The laws fix each operation's effect on that view;
  the lemmas derive what a holder of locators sees, namely a map from (slot, generation) to
  tuples in which insertion never hands out a key that was handed out before.
\<close>

type_synonym tuple_key = "u16 \<times> u32"

definition locator_key :: "tuple_locator \<Rightarrow> tuple_key" where
  "locator_key l = (tl_slot l, tl_generation l)"

definition view_tuples :: "(nat \<rightharpoonup> u32 \<times> bytes option) \<Rightarrow> tuple_key \<rightharpoonup> bytes" where
  "view_tuples w k =
     (case w (unat (fst k)) of
        Some (g, Some v) \<Rightarrow> if g = snd k then Some v else None
      | _ \<Rightarrow> None)"

definition view_spent :: "(nat \<rightharpoonup> u32 \<times> bytes option) \<Rightarrow> tuple_key \<Rightarrow> bool" where
  "view_spent w k \<longleftrightarrow> (case w (unat (fst k)) of Some (g, _) \<Rightarrow> snd k \<le> g | None \<Rightarrow> False)"

definition gens_upto :: "(nat \<rightharpoonup> u32 \<times> bytes option) \<Rightarrow> nat \<Rightarrow> bool" where
  "gens_upto w n \<longleftrightarrow> (\<forall>i g t. w i = Some (g, t) \<longrightarrow> unat g \<le> n)"

lemma u32_succ:
  fixes g :: u32
  assumes "unat (g - 1) \<le> n" "n < 2 ^ 32 - 1"
  shows "unat g = Suc (unat (g - 1))" "g - 1 < g"
proof -
  have "unat (g - 1 + 1) = (unat (g - 1) + 1) mod 2 ^ 32"
    unfolding unat_word_ariths(1) by simp
  with assms show "unat g = Suc (unat (g - 1))" by simp
  then show "g - 1 < g" by (simp add: word_less_nat_alt)
qed

locale tuple_page =
  fixes inv :: "'s \<Rightarrow> bool"
    and view :: "'s \<Rightarrow> nat \<rightharpoonup> u32 \<times> bytes option"
    and floor :: "'s \<Rightarrow> u32"
    and get :: "'s \<Rightarrow> tuple_locator \<Rightarrow> bytes res"
    and ins :: "'s \<Rightarrow> bytes \<Rightarrow> ('s \<times> tuple_locator) res"
    and del :: "'s \<Rightarrow> tuple_locator \<Rightarrow> 's res"
    and upd :: "'s \<Rightarrow> tuple_locator \<Rightarrow> bytes \<Rightarrow> 's res"
    and cmp :: "'s \<Rightarrow> ('s \<times> nat) res"
  assumes get_law: "inv s \<Longrightarrow> get s l = Ok v \<longleftrightarrow> view s (unat (tl_slot l)) = Some (tl_generation l, Some v)"
    and ins_law: "inv s \<Longrightarrow> ins s v = Ok (s', l) \<Longrightarrow>
      inv s' \<and> floor s' = floor s \<and> view s' = (view s)(unat (tl_slot l) \<mapsto> (tl_generation l, Some v)) \<and>
      (view s (unat (tl_slot l)) = Some (tl_generation l - 1, None) \<or>
       view s (unat (tl_slot l)) = None \<and> tl_generation l = floor s + 1)"
    and del_law: "inv s \<Longrightarrow> del s l = Ok s' \<Longrightarrow>
      inv s' \<and> floor s' = floor s \<and> view s' = (view s)(unat (tl_slot l) \<mapsto> (tl_generation l, None)) \<and>
      (\<exists>v. get s l = Ok v)"
    and upd_law: "inv s \<Longrightarrow> upd s l v = Ok s' \<Longrightarrow>
      inv s' \<and> floor s' = floor s \<and> view s' = (view s)(unat (tl_slot l) \<mapsto> (tl_generation l, Some v)) \<and>
      (\<exists>w. get s l = Ok w)"
    and cmp_law: "inv s \<Longrightarrow> cmp s = Ok (s', n) \<Longrightarrow> inv s' \<and> floor s' = floor s \<and> view s' = view s"
begin

lemma get_tuples: "inv s \<Longrightarrow> get s l = Ok v \<longleftrightarrow> view_tuples (view s) (locator_key l) = Some v"
  by (auto simp: get_law view_tuples_def locator_key_def split: option.splits if_splits)

lemma tuples_change:
  assumes "w (unat (tl_slot l)) = None \<or> (\<exists>g t. w (unat (tl_slot l)) = Some (g, t) \<and> (t = None \<or> g = tl_generation l))"
  shows "view_tuples (w(unat (tl_slot l) \<mapsto> (tl_generation l, t))) =
         (view_tuples w)(locator_key l := t)"
proof
  fix k :: tuple_key
  obtain s g where k: "k = (s, g)" by (cases k)
  show "view_tuples (w(unat (tl_slot l) \<mapsto> (tl_generation l, t))) k =
         ((view_tuples w)(locator_key l := t)) k"
  proof (cases "s = tl_slot l")
    case True
    with assms k show ?thesis
      by (cases t) (auto simp: view_tuples_def locator_key_def split: option.splits)
  next
    case False
    then have "unat s \<noteq> unat (tl_slot l)" by (auto dest: unsigned_word_eqI)
    with False k show ?thesis by (simp add: view_tuples_def locator_key_def)
  qed
qed

lemma ins_tuples:
  "inv s \<Longrightarrow> ins s v = Ok (s', l) \<Longrightarrow> view_tuples (view s') = (view_tuples (view s))(locator_key l \<mapsto> v)"
  using ins_law [of s v s' l] tuples_change [of "view s" l "Some v"] by auto

lemma del_tuples:
  "inv s \<Longrightarrow> del s l = Ok s' \<Longrightarrow> view_tuples (view s') = (view_tuples (view s))(locator_key l := None)"
  using del_law [of s l s'] tuples_change [of "view s" l None] by (auto simp: get_law)

lemma upd_tuples:
  "inv s \<Longrightarrow> upd s l v = Ok s' \<Longrightarrow> view_tuples (view s') = (view_tuples (view s))(locator_key l \<mapsto> v)"
  using upd_law [of s l v s'] tuples_change [of "view s" l "Some v"] by (auto simp: get_law)

lemma spent_mono_same:
  assumes "w (unat (tl_slot l)) = Some (tl_generation l, t')" "view_spent w k"
  shows "view_spent (w(unat (tl_slot l) \<mapsto> (tl_generation l, t))) k"
  using assms by (auto simp: view_spent_def split: option.splits)

lemma del_spent: "inv s \<Longrightarrow> del s l = Ok s' \<Longrightarrow> view_spent (view s) k \<Longrightarrow> view_spent (view s') k"
  using del_law [of s l s'] by (auto simp: get_law spent_mono_same)

lemma upd_spent: "inv s \<Longrightarrow> upd s l v = Ok s' \<Longrightarrow> view_spent (view s) k \<Longrightarrow> view_spent (view s') k"
  using upd_law [of s l v s'] by (auto simp: get_law spent_mono_same)

lemma ins_spent:
  assumes "inv s" "ins s v = Ok (s', l)" "gens_upto (view s) n" "unat (floor s) \<le> n" "n < 2 ^ 32 - 1"
  shows "\<not> view_spent (view s) (locator_key l)" "view_spent (view s') (locator_key l)"
    "view_spent (view s) k \<Longrightarrow> view_spent (view s') k" "gens_upto (view s') (Suc n)"
proof -
  note law = ins_law [OF assms(1,2)]
  have prev: "unat (tl_generation l - 1) \<le> n"
    using law assms(3,4) by (auto simp: gens_upto_def)
  note g = u32_succ [OF prev assms(5)]
  show "\<not> view_spent (view s) (locator_key l)"
    using law g by (auto simp: view_spent_def locator_key_def)
  show "view_spent (view s') (locator_key l)"
    using law by (simp add: view_spent_def locator_key_def)
  show "view_spent (view s') k" if "view_spent (view s) k"
    using that law g(2) by (auto simp: view_spent_def split: option.splits)
  show "gens_upto (view s') (Suc n)"
    using law assms(3) g(1) prev by (auto simp: gens_upto_def le_Suc_eq)
qed

end

interpretation slotted: tuple_page heap_wf slot_view generation_floor slotted_get slotted_insert
  slotted_delete slotted_update "\<lambda>p. compact p (length p)"
proof unfold_locales
  fix s s' :: bytes and v w l n
  assume wf: "heap_wf s"
  show "slotted_get s l = Ok v \<longleftrightarrow> slot_view s (unat (tl_slot l)) = Some (tl_generation l, Some v)"
    using wf by (rule slotted_get_Ok_iff)
  show "heap_wf s' \<and> generation_floor s' = generation_floor s \<and>
      slot_view s' = (slot_view s)(unat (tl_slot l) \<mapsto> (tl_generation l, Some v)) \<and>
      (slot_view s (unat (tl_slot l)) = Some (tl_generation l - 1, None) \<or>
       slot_view s (unat (tl_slot l)) = None \<and> tl_generation l = generation_floor s + 1)"
    if "slotted_insert s v = Ok (s', l)"
    using slotted_insert_Ok [OF wf that] by (simp add: slot_updated_def)
  show "heap_wf s' \<and> generation_floor s' = generation_floor s \<and>
      slot_view s' = (slot_view s)(unat (tl_slot l) \<mapsto> (tl_generation l, None)) \<and>
      (\<exists>v. slotted_get s l = Ok v)"
    if "slotted_delete s l = Ok s'"
    using slotted_delete_Ok [OF wf that] by (simp add: slot_updated_def)
  show "heap_wf s' \<and> generation_floor s' = generation_floor s \<and>
      slot_view s' = (slot_view s)(unat (tl_slot l) \<mapsto> (tl_generation l, Some v)) \<and>
      (\<exists>w. slotted_get s l = Ok w)"
    if "slotted_update s l v = Ok s'"
    using slotted_update_Ok [OF wf that] by (simp add: slot_updated_def)
  show "heap_wf s' \<and> generation_floor s' = generation_floor s \<and> slot_view s' = slot_view s"
    if "compact s (length s) = Ok (s', n)"
    using compact_wf [OF wf] that by (metis result.inject(1) prod.inject)
qed

section \<open>Histories of a page\<close>

text \<open>
  A history is a sequence of calls on one page. A call that returns an error leaves the page
  as it was. Beside the page, the run records the abstract state: the map of tuples by
  (slot, generation) and the keys handed out, newest first.
\<close>

datatype page_op =
  InsertOp bytes | DeleteOp tuple_locator | UpdateOp tuple_locator bytes | CompactOp

type_synonym page_run = "bytes \<times> (tuple_key \<rightharpoonup> bytes) \<times> tuple_key list"

fun page_step :: "page_op \<Rightarrow> page_run \<Rightarrow> page_run" where
  "page_step (InsertOp v) (p, m, issued) =
     (case slotted_insert p v of
        Ok (p', l) \<Rightarrow> (p', m(locator_key l \<mapsto> v), locator_key l # issued)
      | _ \<Rightarrow> (p, m, issued))"
| "page_step (DeleteOp l) (p, m, issued) =
     (case slotted_delete p l of Ok p' \<Rightarrow> (p', m(locator_key l := None), issued) | _ \<Rightarrow> (p, m, issued))"
| "page_step (UpdateOp l v) (p, m, issued) =
     (case slotted_update p l v of Ok p' \<Rightarrow> (p', m(locator_key l \<mapsto> v), issued) | _ \<Rightarrow> (p, m, issued))"
| "page_step CompactOp (p, m, issued) =
     (case compact p (length p) of Ok (p', _) \<Rightarrow> (p', m, issued) | _ \<Rightarrow> (p, m, issued))"

definition page_history :: "page_op list \<Rightarrow> bytes \<Rightarrow> page_run" where
  "page_history ops p = fold page_step ops (p, Map.empty, [])"

definition run_ok :: "nat \<Rightarrow> page_run \<Rightarrow> bool" where
  "run_ok n r \<longleftrightarrow>
     (case r of (p, m, issued) \<Rightarrow>
        heap_wf p \<and> view_tuples (slot_view p) = m \<and> distinct issued \<and>
        (\<forall>k\<in>set issued. view_spent (slot_view p) k) \<and>
        gens_upto (slot_view p) n \<and> unat (generation_floor p) \<le> n)"

lemma gens_upto_same:
  "gens_upto w n \<Longrightarrow> w i = Some (g, t') \<Longrightarrow> gens_upto (w(i \<mapsto> (g, t))) n"
  by (auto simp: gens_upto_def)

lemma gens_upto_Suc: "gens_upto w n \<Longrightarrow> gens_upto w (Suc n)"
  unfolding gens_upto_def by (meson le_SucI)

lemma run_ok_step:
  assumes ok: "run_ok n (p, m, issued)" and n: "n < 2 ^ 32 - 1"
  shows "run_ok (Suc n) (page_step oper (p, m, issued))"
proof -
  have wf: "heap_wf p" and m: "view_tuples (slot_view p) = m" and d: "distinct issued"
    and sp: "\<forall>k\<in>set issued. view_spent (slot_view p) k" and g: "gens_upto (slot_view p) n"
    and f: "unat (generation_floor p) \<le> n"
    using ok by (simp_all add: run_ok_def)
  have keep: "run_ok (Suc n) (p, m, issued)"
    using wf m d sp g f by (simp add: run_ok_def gens_upto_Suc)
  show ?thesis
  proof (cases oper)
    case (InsertOp v)
    show ?thesis
    proof (cases "slotted_insert p v")
      case (Ok r)
      then obtain p' l where r: "slotted_insert p v = Ok (p', l)" by (cases r) auto
      note s = slotted.ins_spent [OF wf r g f n]
      with r m d sp f slotted.ins_law [OF wf r] slotted.ins_tuples [OF wf r] show ?thesis
        unfolding InsertOp by (auto simp: run_ok_def)
    qed (use keep InsertOp in simp_all)
  next
    case (DeleteOp l)
    show ?thesis
    proof (cases "slotted_delete p l")
      case (Ok p')
      note law = slotted.del_law [OF wf Ok]
      then have "gens_upto (slot_view p') n" using g wf by (auto simp: slotted.get_law gens_upto_same)
      with Ok m d sp f law slotted.del_tuples [OF wf Ok] slotted.del_spent [OF wf Ok] show ?thesis
        unfolding DeleteOp by (simp add: run_ok_def gens_upto_Suc)
    qed (use keep DeleteOp in simp_all)
  next
    case (UpdateOp l v)
    show ?thesis
    proof (cases "slotted_update p l v")
      case (Ok p')
      note law = slotted.upd_law [OF wf Ok]
      then have "gens_upto (slot_view p') n" using g wf by (auto simp: slotted.get_law gens_upto_same)
      with Ok m d sp f law slotted.upd_tuples [OF wf Ok] slotted.upd_spent [OF wf Ok] show ?thesis
        unfolding UpdateOp by (simp add: run_ok_def gens_upto_Suc)
    qed (use keep UpdateOp in simp_all)
  next
    case CompactOp
    obtain p' k where r: "compact p (length p) = Ok (p', k)" by (rule compact_wf [OF wf])
    with keep slotted.cmp_law [OF wf r] show ?thesis
      unfolding CompactOp by (simp add: run_ok_def)
  qed
qed

lemma run_ok_fold:
  "run_ok n r \<Longrightarrow> n + length ops < 2 ^ 32 \<Longrightarrow> run_ok (n + length ops) (fold page_step ops r)"
proof (induction ops arbitrary: n r)
  case (Cons oper ops)
  obtain p m i where r: "r = (p, m, i)" by (cases r)
  from Cons.prems have "run_ok (Suc n) (page_step oper r)"
    unfolding r by (intro run_ok_step) simp_all
  with Cons.IH [of "Suc n" "page_step oper r"] Cons.prems show ?case by simp
qed simp

lemma run_ok_init:
  assumes "72 \<le> length b" "length b \<le> 65536"
  shows "run_ok (unat floor) (init_with_floor b pid (length b) floor, Map.empty, [])"
  using init_with_floor_wf [OF assms, of pid floor]
  by (simp add: run_ok_def gens_upto_def view_tuples_def fun_eq_iff)

section \<open>Properties of slotted pages\<close>

text \<open>
  C2. A slotted page refines a map from tuple locators to values. After any history of
  inserts, deletes, updates and compactions on a fresh page of at most 64 KiB, the page
  invariant holds, no (slot, generation) pair was handed out twice, and a lookup returns a
  value exactly when that locator's tuple is live, in which case the value is the last one
  written through it. The bound on the number of calls keeps the 32-bit generation from wrapping.
\<close>

theorem page_history_refines_map:
  assumes "72 \<le> length b" "length b \<le> 65536" "unat floor + length ops < 2 ^ 32"
    and "page_history ops (init_with_floor b pid (length b) floor) = (p, m, issued)"
  shows "heap_wf p \<and> distinct issued \<and> (\<forall>l v. slotted_get p l = Ok v \<longleftrightarrow> m (locator_key l) = Some v)"
proof -
  have "run_ok (unat floor + length ops) (p, m, issued)"
    using run_ok_fold [OF run_ok_init [OF assms(1,2), of floor pid] assms(3)] assms(4)
    by (simp add: page_history_def)
  then show ?thesis by (auto simp: run_ok_def slotted.get_tuples)
qed

theorem page_history_refines_map_witness:
  "\<exists>p m issued. page_history [CompactOp] (init_with_floor (replicate 512 0) 7 512 3) = (p, m, issued) \<and>
     heap_wf p \<and> distinct issued \<and> (\<forall>l v. slotted_get p l = Ok v \<longleftrightarrow> m (locator_key l) = Some v)"
proof -
  obtain p m issued where
    h: "page_history [CompactOp] (init_with_floor (replicate 512 0) 7 (length (replicate 512 (0 :: byte))) 3) =
      (p, m, issued)"
    by (metis prod.exhaust)
  from page_history_refines_map [OF _ _ _ h] have
    "heap_wf p \<and> distinct issued \<and> (\<forall>l v. slotted_get p l = Ok v \<longleftrightarrow> m (locator_key l) = Some v)"
    by simp
  with h show ?thesis by auto
qed

text \<open>
  C21. Insertion succeeds exactly when the value is non-empty and fits (counting a new
  directory entry when no dead slot can be reused), and never panics. The returned locator
  names this page and reads back the value, and every other slot keeps its tuple and generation.
\<close>

theorem insert_then_get:
  assumes "heap_wf p"
  shows "\<exists>fits. can_fit p (length v) = Ok fits \<and>
    (if v \<noteq> [] \<and> fits
     then \<exists>p' l. slotted_insert p v = Ok (p', l) \<and> heap_wf p' \<and> tl_page_id l = slotted_page_id p \<and>
            slotted_get p' l = Ok v \<and> slot_view p' = (slot_view p)(unat (tl_slot l) \<mapsto> (tl_generation l, Some v))
     else slotted_insert p v = Err (ValueTooLarge (slotted_page_id p) (length v) (free_space p)))"
proof -
  obtain b where b: "can_fit p (length v) = Ok b" using slotted_insert_outcome(2) [OF assms] by blast
  show ?thesis
  proof (cases "v \<noteq> [] \<and> b")
    case True
    with slotted_insert_outcome(1) [OF assms b] obtain p' l where r: "slotted_insert p v = Ok (p', l)"
      by auto
    with slotted_insert_Ok [OF assms r] True b show ?thesis
      by (auto simp: slot_updated_def slotted_get_Ok_iff)
  next
    case False
    with slotted_insert_outcome(1) [OF assms b] b show ?thesis by (auto split: if_splits)
  qed
qed

lemma fresh_page:
  "heap_wf (slotted_init (replicate 512 0) pid 512)"
  "slot_view (slotted_init (replicate 512 0) pid 512) = Map.empty"
  "length (slotted_init (replicate 512 0) pid 512) = 512"
  "free_space (slotted_init (replicate 512 0) pid 512) = 440"
proof -
  show "heap_wf (slotted_init (replicate 512 0) pid 512)"
    "slot_view (slotted_init (replicate 512 0) pid 512) = Map.empty"
    "length (slotted_init (replicate 512 0) pid 512) = 512"
    using init_with_floor_wf [of "replicate 512 0" pid 0]
    by (simp_all only: slotted_init_def length_replicate)
  show "free_space (slotted_init (replicate 512 0) pid 512) = 440"
    by (simp add: slotted_init_def init_with_floor_def free_space_def free_end_def free_start_def
        header_encode_reads header_new_def)
qed

lemma one_tuple_page:
  obtains p l where "slotted_insert (slotted_init (replicate 512 0) 7 512) [1, 2, 3] = Ok (p, l)"
    "heap_wf p" "slotted_get p l = Ok [1, 2, 3]" "length p = 512"
proof -
  let ?p = "slotted_init (replicate 512 0) 7 512"
  have "cnt ?p = 0"
    by (simp add: slotted_init_def init_with_floor_def cnt_def slot_count_def header_encode_reads
        header_new_def)
  then have "can_fit ?p (length [1, 2, 3 :: byte]) = Ok True"
    by (simp add: can_fit_def find_dead_slot_def slot_range_def cnt_def fresh_page(4))
  with slotted_insert_outcome(1) [OF fresh_page(1), of 7 "[1, 2, 3]" True]
  obtain p l where r: "slotted_insert ?p [1, 2, 3] = Ok (p, l)" by auto
  with slotted_insert_Ok(1) [OF fresh_page(1) r] show thesis
    by (intro that [OF r]) (simp_all add: slot_updated_def slotted_get_Ok_iff fresh_page(3))
qed

theorem insert_then_get_witness:
  "\<exists>p v. p = slotted_init (replicate 512 0) 7 512 \<and> v = [1, 2, 3] \<and>
    (\<exists>fits. can_fit p (length v) = Ok fits \<and>
    (if v \<noteq> [] \<and> fits
     then \<exists>p' l. slotted_insert p v = Ok (p', l) \<and> heap_wf p' \<and> tl_page_id l = slotted_page_id p \<and>
            slotted_get p' l = Ok v \<and> slot_view p' = (slot_view p)(unat (tl_slot l) \<mapsto> (tl_generation l, Some v))
     else slotted_insert p v = Err (ValueTooLarge (slotted_page_id p) (length v) (free_space p))))"
  by (rule exI, rule exI, rule conjI [OF refl], rule conjI [OF refl], rule insert_then_get,
      rule fresh_page(1))

text \<open>
  Deletion through a valid locator zeroes the tuple's bytes, so that a page image does
  not leak deleted content, makes the locator report a dead slot, and keeps every other slot.
\<close>

theorem delete_erases:
  assumes wf: "heap_wf p" and get: "slotted_get p l = Ok v"
  shows "\<exists>p'. slotted_delete p l = Ok p' \<and> heap_wf p' \<and>
    slice_of p' (eoff p (unat (tl_slot l))) (length v) = replicate (length v) 0 \<and>
    slotted_get p' l = Err (DeadSlot (slotted_page_id p) (tl_slot l)) \<and>
    slot_view p' = (slot_view p)(unat (tl_slot l) \<mapsto> (tl_generation l, None))"
proof -
  note live = get_Ok_live [OF wf get]
  obtain p' where p': "slotted_delete p l = Ok p'"
    "slot_updated p (unat (tl_slot l)) (tl_generation l, None) p'"
    "slice_of p' (eoff p (unat (tl_slot l))) (elen p (unat (tl_slot l))) =
       replicate (elen p (unat (tl_slot l))) 0"
    by (rule slotted_delete_live [OF wf live(1-3)])
  then show ?thesis using live(4) by (auto simp: slot_updated_def slotted_get_view)
qed

theorem delete_erases_witness:
  "\<exists>p l p'. slotted_insert (slotted_init (replicate 512 0) 7 512) [1, 2, 3] = Ok (p, l) \<and>
     slotted_delete p l = Ok p' \<and> slotted_get p' l = Err (DeadSlot (slotted_page_id p) (tl_slot l))"
proof -
  obtain p l where "slotted_insert (slotted_init (replicate 512 0) 7 512) [1, 2, 3] = Ok (p, l)"
    "heap_wf p" "slotted_get p l = Ok [1, 2, 3]" by (rule one_tuple_page)
  with delete_erases [of p l "[1, 2, 3]"] show ?thesis by blast
qed

text \<open>
  Updating through a valid locator succeeds exactly when the new value is non-empty and
  no longer than the old one or the free space. The same locator then reads the new value,
  and every other slot is kept; otherwise the update reports the value too large.
\<close>

theorem update_keeps_locator:
  assumes wf: "heap_wf p" and get: "slotted_get p l = Ok w"
  shows "if v \<noteq> [] \<and> length v \<le> max (length w) (free_space p)
    then \<exists>p'. slotted_update p l v = Ok p' \<and> heap_wf p' \<and> slotted_get p' l = Ok v \<and>
           slot_view p' = (slot_view p)(unat (tl_slot l) \<mapsto> (tl_generation l, Some v))
    else slotted_update p l v = Err (ValueTooLarge (slotted_page_id p) (length v) (free_space p))"
  using slotted_update_outcome [OF wf get, of v]
  by (auto simp: slot_updated_def slotted_get_Ok_iff split: if_splits)

theorem update_keeps_locator_witness:
  "\<exists>p l p'. slotted_insert (slotted_init (replicate 512 0) 7 512) [1, 2, 3] = Ok (p, l) \<and>
     slotted_update p l [9] = Ok p' \<and> slotted_get p' l = Ok [9]"
proof -
  obtain p l where "slotted_insert (slotted_init (replicate 512 0) 7 512) [1, 2, 3] = Ok (p, l)"
    "heap_wf p" "slotted_get p l = Ok [1, 2, 3]" by (rule one_tuple_page)
  with update_keeps_locator [of p l "[1, 2, 3]" "[9]"] show ?thesis
    by (auto simp: le_max_iff_disj)
qed

text \<open>
  C20. Compaction of a page of at most 64 KiB never fails, keeps every slot's generation and
  tuple, and leaves as free space everything but the directory and the live tuples; the
  number it returns is the free space gained.
\<close>

theorem compact_preserves_tuples:
  assumes "heap_wf p"
  shows "\<exists>p'. compact p (length p) = Ok (p', free_space p' - free_space p) \<and> heap_wf p' \<and>
    slot_view p' = slot_view p \<and> slotted_get p' = slotted_get p \<and>
    free_space p' = length p - 72 - 8 * cnt p - live_bytes p"
proof -
  obtain p' where "compact p (length p) = Ok (p', free_space p' - free_space p)" "heap_wf p'"
    "slot_view p' = slot_view p" "slotted_page_id p' = slotted_page_id p" "cnt p' = cnt p"
    "free_space p' = length p - 72 - 8 * cnt p - live_bytes p"
    by (rule compact_wf [OF assms])
  moreover from this have "slot_count p' = slot_count p"
    by (auto simp: cnt_def dest: unsigned_word_eqI)
  ultimately have "slotted_get p' l = slotted_get p l" for l
    using assms by (auto simp: slotted_get_view split: option.splits)
  then have "slotted_get p' = slotted_get p" ..
  with \<open>compact p (length p) = _\<close> \<open>heap_wf p'\<close> \<open>slot_view p' = _\<close> \<open>free_space p' = _\<close> show ?thesis
    by blast
qed

theorem compact_preserves_tuples_witness:
  "\<exists>p l p'. slotted_insert (slotted_init (replicate 512 0) 7 512) [1, 2, 3] = Ok (p, l) \<and>
     compact p 512 = Ok (p', free_space p' - free_space p) \<and> slotted_get p' l = Ok [1, 2, 3]"
proof -
  obtain p l where "slotted_insert (slotted_init (replicate 512 0) 7 512) [1, 2, 3] = Ok (p, l)"
    "heap_wf p" "slotted_get p l = Ok [1, 2, 3]" "length p = 512" by (rule one_tuple_page)
  with compact_preserves_tuples [of p] show ?thesis by (metis (no_types, lifting))
qed

text \<open>
  A tuple locator survives its 14-byte encoding, and any 14 bytes decode to a locator
  that encodes back to them.
\<close>

theorem locator_round_trip:
  "locator_decode (locator_encode l @ rest) = Some l \<and>
   (length b = 14 \<longrightarrow> (\<exists>l'. locator_decode b = Some l' \<and> locator_encode l' = b))"
proof -
  have "rd64 b 0 = of_nat (le_val (take 8 b))" "rd16 b 8 = of_nat (le_val (take 2 (drop 8 b)))"
    "rd32 b 10 = of_nat (le_val (take 4 (drop 10 b)))"
    by (simp_all add: rd64_def rd16_def rd32_def slice_of_def)
  moreover have "take 8 b @ take 2 (drop 8 b) @ take 4 (drop 10 b) = b" if "length b = 14"
    using that append_take_drop_id [of 8 b] append_take_drop_id [of 2 "drop 8 b"] by simp
  ultimately show ?thesis
    by (auto simp: locator_encode_bytes locator_decode_def le64_of_le_val le16_of_le_val le32_of_le_val
        rd64_def rd16_def rd32_def slice_of_def)
qed

theorem locator_round_trip_witness:
  "locator_decode (locator_encode (locator_new 7 3 9) @ [1]) = Some (locator_new 7 3 9) \<and>
   (\<exists>l'. locator_decode (replicate 14 5) = Some l' \<and> locator_encode l' = replicate 14 5)"
  using locator_round_trip [of "locator_new 7 3 9" "[1]" "replicate 14 5"] by simp

section \<open>Pages above 64 KiB\<close>

text \<open>
  \<open>validate_page_size\<close> admits pages of up to 1 MiB while every offset of the page format is a
  \<open>u16\<close>. On a 128 KiB page the free-space end is truncated to 65528 at initialisation, which
  is harmless, but compaction starts again from the untruncated page end.
\<close>

lemma large_page_valid: "validate_page_size 131072 = Ok ()"
  by (simp add: validate_page_size_def is_power_of_two_iff) (intro exI [of _ 17], simp)

lemma first_entry_reads:
  assumes "72 \<le> length p"
  shows "rd16 (put p 64 (entry_bytes a l g)) 64 = a" "rd16 (put p 64 (entry_bytes a l g)) 66 = l"
    "rd32 (put p 64 (entry_bytes a l g)) 68 = g"
proof -
  have "slice_of (entry_bytes a l g) 0 2 = le16 a" "slice_of (entry_bytes a l g) 2 2 = le16 l"
    "slice_of (entry_bytes a l g) 4 4 = le32 g"
    by (simp_all add: entry_bytes_def slice_of_def)
  then show "rd16 (put p 64 (entry_bytes a l g)) 64 = a" "rd16 (put p 64 (entry_bytes a l g)) 66 = l"
    "rd32 (put p 64 (entry_bytes a l g)) 68 = g"
    using assms by (simp_all add: rd16_def rd32_def slice_put_inside)
qed

lemma large_page_insert:
  assumes "length b = 131072"
  obtains p where "slotted_insert (slotted_init b 7 131072) [1] = Ok (p, locator_new 7 0 1)"
    "length p = 131072" "slot_count p = 1" "rd16 p 64 = 65527" "rd16 p 66 = 1" "rd32 p 68 = 1"
    "slice_of p 65527 1 = [1]" "rd64 p 8 = 7"
proof -
  let ?p = "slotted_init b 7 131072"
  have r: "rd16 ?p 36 = 64" "rd16 ?p 38 = 65528" "rd16 ?p 40 = 0" "rd32 ?p 52 = 0" "rd64 ?p 8 = 7"
    "length ?p = 131072"
    using assms by (simp_all add: slotted_init_def init_with_floor_def header_encode_reads header_new_def)
  let ?q = "put (put (put (put ?p 65527 [1]) 38 (le16 65527)) 40 (le16 1)) 36 (le16 72)"
  let ?r = "put ?q 64 (entry_bytes 65527 1 1)"
  have "slotted_insert ?p [1] = Ok (?r, locator_new 7 0 1)"
    using r by (simp add: slotted_insert_def find_dead_slot_def slot_range_def page_read_defs free_space_def
        page_write_defs Let_def enc_simps write_slot_Ok)
  moreover have "length ?r = 131072" using r by simp
  moreover have "slot_count ?r = 1" "rd64 ?r 8 = 7" using r by (simp_all add: slot_count_def enc_simps)
  moreover have "rd16 ?r 64 = 65527" "rd16 ?r 66 = 1" "rd32 ?r 68 = 1"
    using r by (simp_all add: first_entry_reads)
  moreover have "slice_of ?r 65527 (length [1 :: byte]) = [1]"
    using r slice_put_same [of 65527 "[1]" ?p] by (simp add: slice_put_after)
  ultimately show thesis using that by simp
qed

text \<open>
  C37. On a 128 KiB page, a size that \<open>validate_page_size\<close> accepts, a tuple inserted into a
  fresh page reads back, but after \<open>compact\<close> its still valid locator silently reads a zero
  byte instead: the tuple was moved to offset 131063 and its slot records 65527.
\<close>

theorem compact_loses_tuple_on_large_page:
  assumes "length b = 131072"
  shows "validate_page_size 131072 = Ok () \<and>
    (\<exists>p1 l p2 n. slotted_insert (slotted_init b 7 131072) [1] = Ok (p1, l) \<and>
       slotted_get p1 l = Ok [1] \<and> compact p1 131072 = Ok (p2, n) \<and> slotted_get p2 l = Ok [0])"
proof -
  obtain p where p: "slotted_insert (slotted_init b 7 131072) [1] = Ok (p, locator_new 7 0 1)"
    "length p = 131072" "slot_count p = 1" "rd16 p 64 = 65527" "rd16 p 66 = 1" "rd32 p 68 = 1"
    "slice_of p 65527 1 = [1]" "rd64 p 8 = 7"
    by (rule large_page_insert [OF assms])
  have entry: "slot_entry p 0 = Ok (65527, 1, 1)"
    using p by (simp add: slot_entry_def slot_offset_def Let_def)
  then have get: "slotted_get p (locator_new 7 0 1) = Ok [1]"
    using p by (simp add: slotted_get_def locator_new_def)
  let ?z = "zero p 72 130992"
  let ?q = "put (put (put ?z 131063 [1]) 64 (entry_bytes 65527 1 1)) 38 (le16 65527)"
  have wrap: "(131063 :: u16) = 65527" by simp
  have compact: "\<exists>n. compact p 131072 = Ok (?q, n)"
    using p entry by (simp add: compact_def slot_range_def Let_def write_slot_Ok set_free_end_def wrap)
  have "slot_count ?q = 1" "length ?q = 131072"
    using p by (simp_all add: slot_count_def enc_simps)
  moreover have "rd16 ?q 64 = 65527" "rd16 ?q 66 = 1" "rd32 ?q 68 = 1"
    using p by (simp_all add: enc_simps first_entry_reads)
  moreover have "slice_of ?q 65527 1 = [0]"
  proof -
    have "slice_of ?q 65527 1 = slice_of ?z 65527 1" using p by (simp add: buf_simps)
    also have "\<dots> = [0]" using p by (simp add: zero_def slice_put_inside) (simp add: slice_of_def)
    finally show ?thesis .
  qed
  ultimately have "slotted_get ?q (locator_new 7 0 1) = Ok [0]"
    by (simp add: slotted_get_def locator_new_def slot_entry_def slot_offset_def Let_def)
  with p(1) get compact large_page_valid show ?thesis by blast
qed

theorem compact_loses_tuple_on_large_page_witness:
  "\<exists>p1 l p2 n. slotted_insert (slotted_init (replicate 131072 0) 7 131072) [1] = Ok (p1, l) \<and>
     slotted_get p1 l = Ok [1] \<and> compact p1 131072 = Ok (p2, n) \<and> slotted_get p2 l = Ok [0]"
  using compact_loses_tuple_on_large_page [of "replicate 131072 0"] by (simp only: length_replicate simp_thms)

end
