(* ===== verification/Recovered.thy ===== *)
theory Recovered
  imports Slotted Std_Collections
begin

text \<open>
  The compact transaction outcomes of \<open>crates/bicdb-page/src/mvcc.rs\<close>: the nine-byte
  \<open>RecoveredOutcome\<close>, the sorted vector \<open>RecoveredOutcomes\<close> filled by log recovery, and the
  version header that precedes every stored value.
\<close>

type_synonym xid = u64

datatype tx_status = InProgress | Committed | Aborted

section \<open>One outcome in nine bytes\<close>

text \<open>
  The big-endian transaction id followed by a status byte. The tuple field of the Rust type
  is private and filled only by \<open>new\<close> and \<open>from_spill_bytes\<close>, so its values are the
  nine-byte arrays whose last byte is one of the two codes.
\<close>

typedef recovered_outcome = "{b :: bytes. length b = 9 \<and> (b ! 8 = 1 \<or> b ! 8 = 2)}"
  morphisms to_spill_bytes Abs_outcome
proof
  show "replicate 8 0 @ [1] \<in> {b :: bytes. length b = 9 \<and> (b ! 8 = 1 \<or> b ! 8 = 2)}"
    by (simp add: nth_append)
qed

setup_lifting type_definition_recovered_outcome

lift_definition outcome_committed :: "xid \<Rightarrow> recovered_outcome" is "\<lambda>xid. be64 xid @ [1]"
  by (simp add: nth_append)

lift_definition outcome_aborted :: "xid \<Rightarrow> recovered_outcome" is "\<lambda>xid. be64 xid @ [2]"
  by (simp add: nth_append)

definition outcome_new :: "xid \<Rightarrow> tx_status \<Rightarrow> recovered_outcome option" where
  "outcome_new xid status =
     (case status of
        Committed \<Rightarrow> Some (outcome_committed xid)
      | Aborted \<Rightarrow> Some (outcome_aborted xid)
      | InProgress \<Rightarrow> None)"

definition from_spill_bytes :: "bytes \<Rightarrow> recovered_outcome option" where
  "from_spill_bytes b =
     (if length b = 9 \<and> (b ! 8 = 1 \<or> b ! 8 = 2) then Some (Abs_outcome b) else None)"

definition outcome_xid :: "recovered_outcome \<Rightarrow> xid" where
  "outcome_xid r = of_nat (be_val (take 8 (to_spill_bytes r)))"

definition outcome_status :: "recovered_outcome \<Rightarrow> tx_status" where
  "outcome_status r = (if to_spill_bytes r ! 8 = 1 then Committed else Aborted)"

lemma outcome_xid_new [simp]:
  "outcome_xid (outcome_committed x) = x" "outcome_xid (outcome_aborted x) = x"
  by (simp_all add: outcome_xid_def outcome_committed.rep_eq outcome_aborted.rep_eq)

lemma outcome_status_new [simp]:
  "outcome_status (outcome_committed x) = Committed" "outcome_status (outcome_aborted x) = Aborted"
  by (simp_all add: outcome_status_def outcome_committed.rep_eq outcome_aborted.rep_eq nth_append)

lemma outcome_status_terminal [simp]: "outcome_status r \<noteq> InProgress"
  by (simp add: outcome_status_def)

lemma outcome_bytes:
  "to_spill_bytes r = be64 (outcome_xid r) @ [if outcome_status r = Committed then 1 else 2]"
proof -
  define b where "b = to_spill_bytes r"
  have b: "length b = 9" "b ! 8 = 1 \<or> b ! 8 = 2"
    using to_spill_bytes [of r] by (simp_all add: b_def)
  then have "b = take 8 b @ [b ! 8]"
    using append_take_drop_id [of 8 b] by (simp add: Cons_nth_drop_Suc [symmetric])
  moreover have "be64 (of_nat (be_val (take 8 b))) = take 8 b"
    using b le64_of_le_val [of "rev (take 8 b)"]
    by (simp add: be64_def be_val_def be_bytes_def le64_def)
  ultimately show ?thesis
    using b by (simp add: outcome_xid_def outcome_status_def b_def [symmetric]) metis
qed

lemma outcome_eqI:
  "outcome_xid a = outcome_xid b \<Longrightarrow> outcome_status a = outcome_status b \<Longrightarrow> a = b"
  by (simp add: to_spill_bytes_inject [symmetric] outcome_bytes)

lemma outcome_status_cases: "outcome_status r = Committed \<or> outcome_status r = Aborted"
  using outcome_status_terminal [of r] by (cases "outcome_status r") auto

lemma outcome_new_Some:
  "outcome_new x st = Some r \<longleftrightarrow> st \<noteq> InProgress \<and> outcome_xid r = x \<and> outcome_status r = st"
  by (auto simp: outcome_new_def intro: outcome_eqI split: tx_status.splits)

lemma spill_bytes_round_trip: "from_spill_bytes (to_spill_bytes r) = Some r"
  using to_spill_bytes [of r] by (simp add: from_spill_bytes_def to_spill_bytes_inverse)

subsection \<open>The derived order\<close>

text \<open>The derived \<open>Ord\<close> compares the bytes; big-endian ids make that the order of the ids.\<close>

instantiation recovered_outcome :: linorder
begin

definition less_eq_recovered_outcome :: "recovered_outcome \<Rightarrow> recovered_outcome \<Rightarrow> bool" where
  "a \<le> b \<longleftrightarrow> to_spill_bytes a \<le> to_spill_bytes b"

definition less_recovered_outcome :: "recovered_outcome \<Rightarrow> recovered_outcome \<Rightarrow> bool" where
  "a < b \<longleftrightarrow> to_spill_bytes a < to_spill_bytes b"

instance
proof
  fix a b c :: recovered_outcome
  show "a < b \<longleftrightarrow> a \<le> b \<and> \<not> b \<le> a"
    by (auto simp: less_eq_recovered_outcome_def less_recovered_outcome_def)
  show "a \<le> a" "a \<le> b \<or> b \<le> a" "a \<le> b \<Longrightarrow> b \<le> c \<Longrightarrow> a \<le> c"
    by (auto simp: less_eq_recovered_outcome_def)
  show "a \<le> b \<Longrightarrow> b \<le> a \<Longrightarrow> a = b"
    by (simp add: less_eq_recovered_outcome_def to_spill_bytes_inject [symmetric])
qed

end

lemma be_val_Cons: "be_val (x # xs) = unat x * 256 ^ length xs + be_val xs"
proof -
  have "le_val (xs @ ys) = le_val xs + 256 ^ length xs * le_val ys" for xs ys
    by (induction xs) (simp_all add: algebra_simps)
  then show ?thesis by (simp add: be_val_def)
qed

lemma be_val_bound: "be_val xs < 256 ^ length xs"
  using le_val_bound [of "rev xs"] by (simp add: be_val_def)

lemma lex_be_val:
  fixes xs ys :: bytes
  assumes "length xs = length ys"
  shows "xs < ys \<longleftrightarrow> be_val xs < be_val ys"
  using assms
proof (induction xs ys rule: list_induct2)
  case (Cons x xs y ys)
  have bound: "be_val xs < 256 ^ length ys" "be_val ys < 256 ^ length ys"
    using be_val_bound [of xs] be_val_bound [of ys] Cons by simp_all
  have "be_val (x # xs) < be_val (y # ys)" if "x < y"
  proof -
    have "Suc (unat x) * 256 ^ length ys \<le> unat y * 256 ^ length ys"
      using that by (intro mult_right_mono) (simp_all add: word_less_nat_alt)
    with bound Cons(1) show ?thesis by (simp add: be_val_Cons)
  qed
  moreover have "be_val (y # ys) < be_val (x # xs)" if "y < x"
  proof -
    have "Suc (unat y) * 256 ^ length ys \<le> unat x * 256 ^ length ys"
      using that by (intro mult_right_mono) (simp_all add: word_less_nat_alt)
    with bound Cons(1) show ?thesis by (simp add: be_val_Cons)
  qed
  ultimately show ?case
    using Cons by (cases x y rule: linorder_cases) (auto simp: be_val_Cons)
qed (simp add: be_val_def)

lemma be64_less: "be64 a < be64 b \<longleftrightarrow> a < b"
proof -
  have "be_val (be64 w) = unat w" for w
    using unsigned_less [of w, where 'a = nat] by (simp add: be64_def be_val_def be_bytes_def le_val_le_bytes)
  then show ?thesis by (simp add: lex_be_val word_less_nat_alt)
qed

lemma append_less:
  fixes xs ys :: bytes
  shows "length xs = length ys \<Longrightarrow> xs @ us < ys @ vs \<longleftrightarrow> xs < ys \<or> xs = ys \<and> us < vs"
  by (induction xs ys rule: list_induct2) auto

lemma outcome_less_iff:
  "a < b \<longleftrightarrow> outcome_xid a < outcome_xid b \<or>
     outcome_xid a = outcome_xid b \<and> outcome_status a = Committed \<and> outcome_status b = Aborted"
  using outcome_status_cases [of a] outcome_status_cases [of b]
  by (auto simp: less_recovered_outcome_def outcome_bytes append_less be64_less)

lemma outcome_le_xid: "a \<le> b \<Longrightarrow> outcome_xid a \<le> outcome_xid b"
  by (metis le_less outcome_less_iff)

section \<open>The vector of outcomes\<close>

record recovered_outcomes =
  ro_entries :: "recovered_outcome list"
  ro_start :: nat

definition outcomes_default :: recovered_outcomes where
  "outcomes_default = \<lparr> ro_entries = [], ro_start = 0 \<rparr>"

definition outcomes_push :: "recovered_outcomes \<Rightarrow> xid \<Rightarrow> tx_status \<Rightarrow> recovered_outcomes \<times> bool" where
  "outcomes_push r xid status =
     (case outcome_new xid status of
        None \<Rightarrow> (r, False)
      | Some o1 \<Rightarrow> (r\<lparr>ro_entries := ro_entries r @ [o1]\<rparr>, True))"

text \<open>
  The loop of \<open>normalize\<close> over the read indices: entries are compacted in place below
  \<open>write\<close>, and a second decision for the same transaction ends it.
\<close>

fun normalize_loop ::
  "recovered_outcome list \<Rightarrow> nat \<Rightarrow> nat list \<Rightarrow> recovered_outcome list \<times> nat \<times> xid option" where
  "normalize_loop es w [] = (es, w, None)"
| "normalize_loop es w (r # rs) =
     (let current = es ! r in
      if 0 < w \<and> outcome_xid (es ! (w - 1)) = outcome_xid current then
        if outcome_status (es ! (w - 1)) \<noteq> outcome_status current
        then (es, w, Some (outcome_xid current))
        else normalize_loop es w rs
      else normalize_loop (es[w := current]) (w + 1) rs)"

definition normalize :: "recovered_outcomes \<Rightarrow> recovered_outcomes \<times> xid option" where
  "normalize r =
     (let es = sort (ro_entries r) in
      case normalize_loop es 0 [0..<length es] of
        (es', w, Some xid) \<Rightarrow> (r\<lparr>ro_entries := es'\<rparr>, Some xid)
      | (es', w, None) \<Rightarrow> (r\<lparr>ro_entries := take w es'\<rparr>, None))"

definition outcomes_len :: "recovered_outcomes \<Rightarrow> nat" where
  "outcomes_len r = length (ro_entries r) - ro_start r"

definition live_entries :: "recovered_outcomes \<Rightarrow> recovered_outcome list" where
  "live_entries r = drop (ro_start r) (ro_entries r)"

definition committed_count :: "recovered_outcomes \<Rightarrow> nat" where
  "committed_count r = length (filter (\<lambda>o1. outcome_status o1 = Committed) (live_entries r))"

definition outcomes_status :: "recovered_outcomes \<Rightarrow> xid \<Rightarrow> tx_status option" where
  "outcomes_status r xid =
     (case binary_search_by (\<lambda>o1. compare (outcome_xid o1) xid) (live_entries r) of
        Inr index \<Rightarrow> Some (outcome_status (ro_entries r ! (ro_start r + index)))
      | Inl _ \<Rightarrow> None)"

definition max_xid :: "recovered_outcomes \<Rightarrow> xid option" where
  "max_xid r = (if live_entries r = [] then None else Some (outcome_xid (last (live_entries r))))"

definition discard_below :: "recovered_outcomes \<Rightarrow> xid \<Rightarrow> recovered_outcomes" where
  "discard_below r frozen_xid =
     r\<lparr>ro_start := partition_point (\<lambda>o1. outcome_xid o1 < frozen_xid) (ro_entries r)\<rparr>"

definition outcomes_clear :: "recovered_outcomes \<Rightarrow> recovered_outcomes" where
  "outcomes_clear r = \<lparr> ro_entries = [], ro_start = 0 \<rparr>"

definition outcomes_front :: "recovered_outcomes \<Rightarrow> recovered_outcome option" where
  "outcomes_front r =
     (if ro_start r < length (ro_entries r) then Some (ro_entries r ! ro_start r) else None)"

definition pop_front :: "recovered_outcomes \<Rightarrow> recovered_outcomes" where
  "pop_front r =
     (let start = (if ro_start r < length (ro_entries r) then ro_start r + 1 else ro_start r) in
      if start = length (ro_entries r) then \<lparr> ro_entries = [], ro_start = 0 \<rparr>
      else r\<lparr>ro_start := start\<rparr>)"

subsection \<open>The vector as a map\<close>

text \<open>
  A normalised vector is strictly ascending by transaction id; the entries from \<open>start\<close> on
  are the map from ids to outcomes it stands for.
\<close>

definition outcomes_wf :: "recovered_outcomes \<Rightarrow> bool" where
  "outcomes_wf r \<longleftrightarrow> sorted_wrt (<) (map outcome_xid (ro_entries r)) \<and> ro_start r \<le> length (ro_entries r)"

definition outcomes_map :: "recovered_outcomes \<Rightarrow> xid \<rightharpoonup> tx_status" where
  "outcomes_map r = map_of (map (\<lambda>o1. (outcome_xid o1, outcome_status o1)) (live_entries r))"

lemma live_entries_sorted: "outcomes_wf r \<Longrightarrow> sorted_wrt (<) (map outcome_xid (live_entries r))"
  by (simp add: outcomes_wf_def live_entries_def drop_map [symmetric] sorted_wrt_drop)

lemma outcomes_map_Some:
  assumes "outcomes_wf r"
  shows "outcomes_map r x = Some st \<longleftrightarrow> (\<exists>o1 \<in> set (live_entries r). outcome_xid o1 = x \<and> outcome_status o1 = st)"
proof -
  have "distinct (map fst (map (\<lambda>o1. (outcome_xid o1, outcome_status o1)) (live_entries r)))"
    using live_entries_sorted [OF assms] by (simp add: comp_def strict_sorted_iff)
  then show ?thesis by (auto simp: outcomes_map_def)
qed

lemma outcomes_map_None: "outcomes_map r x = None \<longleftrightarrow> x \<notin> outcome_xid ` set (live_entries r)"
  by (auto simp: outcomes_map_def map_of_eq_None_iff image_image)

lemma outcomes_status_map:
  assumes "outcomes_wf r"
  shows "outcomes_status r x = outcomes_map r x"
proof -
  note s = binary_search_key [OF live_entries_sorted [OF assms], of x]
  show ?thesis
  proof (cases "binary_search_by (\<lambda>o1. compare (outcome_xid o1) x) (live_entries r)")
    case (Inl i)
    with s have "\<forall>j < i. outcome_xid (live_entries r ! j) < x"
      "\<forall>j. i \<le> j \<longrightarrow> j < length (live_entries r) \<longrightarrow> x < outcome_xid (live_entries r ! j)" by simp_all
    then have "outcome_xid (live_entries r ! j) \<noteq> x" if "j < length (live_entries r)" for j
      using that by (metis less_irrefl not_less)
    then have "outcomes_map r x = None" by (metis outcomes_map_None imageE in_set_conv_nth)
    with Inl show ?thesis by (simp add: outcomes_status_def)
  next
    case (Inr i)
    with s have i: "i < length (live_entries r)" "outcome_xid (live_entries r ! i) = x" by simp_all
    then have "outcomes_map r x = Some (outcome_status (live_entries r ! i))"
      by (auto simp: outcomes_map_Some assms)
    moreover have "live_entries r ! i = ro_entries r ! (ro_start r + i)"
      using assms by (simp add: live_entries_def outcomes_wf_def)
    ultimately show ?thesis using Inr by (simp add: outcomes_status_def)
  qed
qed

lemma outcomes_front_live: "outcomes_front r = (case live_entries r of [] \<Rightarrow> None | o1 # _ \<Rightarrow> Some o1)"
  by (auto simp: outcomes_front_def live_entries_def Cons_nth_drop_Suc [symmetric] split: list.splits)

lemma pop_front_live:
  assumes "outcomes_wf r"
  shows "outcomes_wf (pop_front r)" "live_entries (pop_front r) = tl (live_entries r)"
  using assms by (auto simp: pop_front_def outcomes_wf_def live_entries_def Let_def drop_Suc tl_drop)

lemma pop_front_map:
  assumes "outcomes_wf r" "outcomes_front r = Some o1"
  shows "outcomes_map (pop_front r) = (outcomes_map r)(outcome_xid o1 := None)"
proof -
  obtain os where l: "live_entries r = o1 # os"
    using assms(2) by (auto simp: outcomes_front_live split: list.splits)
  then have "outcome_xid o1 \<notin> outcome_xid ` set os" using live_entries_sorted [OF assms(1)] by auto
  then have "map_of (map (\<lambda>o1. (outcome_xid o1, outcome_status o1)) os) (outcome_xid o1) = None"
    by (auto simp: map_of_eq_None_iff)
  then show ?thesis
    using l by (auto simp: outcomes_map_def pop_front_live(2) assms(1))
qed

lemma outcomes_clear_wf [simp]: "outcomes_wf (outcomes_clear r)" "outcomes_map (outcomes_clear r) = Map.empty"
  by (simp_all add: outcomes_clear_def outcomes_wf_def outcomes_map_def live_entries_def)

lemma outcomes_default_wf [simp]: "outcomes_wf outcomes_default" "outcomes_map outcomes_default = Map.empty"
  by (simp_all add: outcomes_default_def outcomes_wf_def outcomes_map_def live_entries_def)

lemma in_set_drop_iff: "x \<in> set (drop n xs) \<longleftrightarrow> (\<exists>i. n \<le> i \<and> i < length xs \<and> xs ! i = x)"
proof
  assume "x \<in> set (drop n xs)"
  then obtain i where "i < length xs - n" "xs ! (n + i) = x" by (auto simp: in_set_conv_nth)
  then show "\<exists>i. n \<le> i \<and> i < length xs \<and> xs ! i = x" by (intro exI [of _ "n + i"]) simp
next
  assume "\<exists>i. n \<le> i \<and> i < length xs \<and> xs ! i = x"
  then obtain i where "n \<le> i" "i < length xs" "xs ! i = x" by blast
  then show "x \<in> set (drop n xs)" unfolding in_set_conv_nth by (intro exI [of _ "i - n"]) simp
qed

lemma discard_below_map:
  assumes "outcomes_wf r" "ro_start r = 0"
  shows "outcomes_wf (discard_below r f)"
    and "outcomes_map (discard_below r f) x = (if f \<le> x then outcomes_map r x else None)"
proof -
  have srt: "sorted_wrt (<) (map outcome_xid (ro_entries r))" using assms by (simp add: outcomes_wf_def)
  note p = partition_point_key [OF srt, where k = f]
  define n where "n = partition_point (\<lambda>o1. outcome_xid o1 < f) (ro_entries r)"
  have live: "live_entries (discard_below r f) = drop n (ro_entries r)" "live_entries r = ro_entries r"
    using assms by (simp_all add: live_entries_def discard_below_def n_def)
  show wf: "outcomes_wf (discard_below r f)"
    using assms p(1) by (simp add: outcomes_wf_def discard_below_def)
  have "o1 \<in> set (drop n (ro_entries r)) \<longleftrightarrow> o1 \<in> set (ro_entries r) \<and> f \<le> outcome_xid o1" for o1
    using p(2,3) unfolding n_def [symmetric] in_set_drop_iff
    by (metis in_set_conv_nth linorder_not_le)
  then have "outcomes_map (discard_below r f) x = Some st \<longleftrightarrow> f \<le> x \<and> outcomes_map r x = Some st" for st
    using wf assms(1) by (auto simp: outcomes_map_Some live)
  then show "outcomes_map (discard_below r f) x = (if f \<le> x then outcomes_map r x else None)"
    by (metis not_None_eq)
qed

subsection \<open>Normalisation\<close>

text \<open>The in-place loop computes this fold over the sorted entries.\<close>

fun dedup :: "recovered_outcome list \<Rightarrow> recovered_outcome list \<Rightarrow> recovered_outcome list \<times> xid option" where
  "dedup ks [] = (ks, None)"
| "dedup ks (c # cs) =
     (if ks \<noteq> [] \<and> outcome_xid (last ks) = outcome_xid c then
        if outcome_status (last ks) \<noteq> outcome_status c then (ks, Some (outcome_xid c)) else dedup ks cs
      else dedup (ks @ [c]) cs)"

lemma normalize_loop_dedup:
  "w \<le> r \<Longrightarrow> r \<le> length es \<Longrightarrow> normalize_loop es w [r..<length es] = (es', w', res) \<Longrightarrow>
   dedup (take w es) (drop r es) = (take w' es', res)"
proof (induction "length es - r" arbitrary: es w r)
  case 0
  then show ?case by simp
next
  case (Suc n)
  then have r: "r < length es" by simp
  then have upt: "[r..<length es] = r # [Suc r..<length es]" by (simp add: upt_conv_Cons)
  have dr: "drop r es = es ! r # drop (Suc r) es" using r by (simp add: Cons_nth_drop_Suc)
  have ne: "take w es \<noteq> [] \<longleftrightarrow> 0 < w" using r by auto
  have last: "0 < w \<Longrightarrow> last (take w es) = es ! (w - 1)"
    using Suc.prems(1) r ne by (simp add: last_conv_nth)
  show ?case
  proof (cases "0 < w \<and> outcome_xid (es ! (w - 1)) = outcome_xid (es ! r)")
    case True
    with Suc.prems Suc.hyps(1) [of es "Suc r" w] Suc.hyps(2) show ?thesis
      by (auto simp: dr ne last upt Let_def split: if_splits)
  next
    case False
    then have "normalize_loop (es[w := es ! r]) (w + 1) [Suc r..<length (es[w := es ! r])] = (es', w', res)"
      using Suc.prems(3) by (auto simp: upt Let_def split: if_splits)
    then have "dedup (take (w + 1) (es[w := es ! r])) (drop (Suc r) (es[w := es ! r])) = (take w' es', res)"
      using Suc.prems(1) r Suc.hyps(2) by (intro Suc.hyps(1)) simp_all
    moreover have "take (w + 1) (es[w := es ! r]) = take w es @ [es ! r]"
      using Suc.prems(1) r by (simp add: take_Suc_conv_app_nth)
    moreover have "drop (Suc r) (es[w := es ! r]) = drop (Suc r) es"
      using Suc.prems(1) by simp
    ultimately show ?thesis using False by (auto simp: dr ne last)
  qed
qed

lemma strict_sorted_last:
  fixes xs :: "'a :: linorder list"
  shows "sorted_wrt (<) xs \<Longrightarrow> x \<in> set xs \<Longrightarrow> x \<le> last xs"
  by (induction xs) (auto simp: less_imp_le)

lemma dedup_correct:
  assumes "sorted cs" "sorted_wrt (<) (map outcome_xid ks)"
    "\<forall>k \<in> set ks. \<forall>c \<in> set cs. outcome_xid k \<le> outcome_xid c"
  shows "dedup ks cs = (ks', None) \<Longrightarrow> sorted_wrt (<) (map outcome_xid ks') \<and> set ks' = set ks \<union> set cs"
    and "dedup ks cs = (ks', Some x) \<Longrightarrow>
      \<exists>a \<in> set ks \<union> set cs. \<exists>b \<in> set ks \<union> set cs.
        outcome_xid a = x \<and> outcome_xid b = x \<and> outcome_status a \<noteq> outcome_status b"
proof -
  have "(dedup ks cs = (ks', None) \<longrightarrow> sorted_wrt (<) (map outcome_xid ks') \<and> set ks' = set ks \<union> set cs) \<and>
    (dedup ks cs = (ks', Some x) \<longrightarrow> (\<exists>a \<in> set ks \<union> set cs. \<exists>b \<in> set ks \<union> set cs.
        outcome_xid a = x \<and> outcome_xid b = x \<and> outcome_status a \<noteq> outcome_status b))"
    using assms
  proof (induction ks cs rule: dedup.induct)
    case (2 ks c cs)
    show ?case
    proof (cases "ks \<noteq> [] \<and> outcome_xid (last ks) = outcome_xid c")
      case True
      show ?thesis
      proof (cases "outcome_status (last ks) = outcome_status c")
        case same: True
        with True have "c \<in> set ks" by (metis last_in_set outcome_eqI)
        with 2 True same show ?thesis by (auto simp: insert_absorb)
      next
        case False
        with True have "dedup ks (c # cs) = (ks, Some (outcome_xid c))" by simp
        with True False show ?thesis
          by (metis (no_types, lifting) Un_iff last_in_set list.set_intros(1) option.distinct(1)
              option.inject prod.inject)
      qed
    next
      case False
      have "outcome_xid k < outcome_xid c" if k: "k \<in> set ks" for k
      proof -
        have "outcome_xid k \<le> outcome_xid (last ks)"
          using strict_sorted_last [OF 2(4), of "outcome_xid k"] k by (cases "ks = []") (auto simp: last_map)
        moreover have "outcome_xid (last ks) \<le> outcome_xid c" "ks \<noteq> []"
          using 2(5) k by (cases "ks = []"; simp)+
        ultimately show ?thesis using False by auto
      qed
      with 2(4) have "sorted_wrt (<) (map outcome_xid (ks @ [c]))" by (simp add: sorted_wrt_append)
      moreover have "\<forall>k \<in> set (ks @ [c]). \<forall>c' \<in> set cs. outcome_xid k \<le> outcome_xid c'"
        using 2(3,5) outcome_le_xid by auto
      ultimately show ?thesis using 2(2) [OF False] False 2(3) by auto
    qed
  qed auto
  then show "dedup ks cs = (ks', None) \<Longrightarrow> sorted_wrt (<) (map outcome_xid ks') \<and> set ks' = set ks \<union> set cs"
    and "dedup ks cs = (ks', Some x) \<Longrightarrow>
      \<exists>a \<in> set ks \<union> set cs. \<exists>b \<in> set ks \<union> set cs.
        outcome_xid a = x \<and> outcome_xid b = x \<and> outcome_status a \<noteq> outcome_status b" by auto
qed

lemma normalize_dedup:
  "normalize r = (r', res) \<Longrightarrow>
   snd (dedup [] (sort (ro_entries r))) = res \<and>
   (res = None \<longrightarrow> r' = r\<lparr>ro_entries := fst (dedup [] (sort (ro_entries r)))\<rparr>)"
  using normalize_loop_dedup [of 0 0 "sort (ro_entries r)"]
  by (auto simp: normalize_def Let_def split: prod.splits option.splits)

text \<open>
  C30. \<open>normalize\<close> reports a contradiction exactly when some transaction has both a commit and
  an abort among the recovered decisions, and then names such a transaction. Otherwise it
  leaves the same decisions, strictly ascending by transaction id.
\<close>

theorem normalize_correct:
  assumes "normalize r = (r', res)"
  shows "case res of
      None \<Rightarrow> sorted_wrt (<) (map outcome_xid (ro_entries r')) \<and> set (ro_entries r') = set (ro_entries r) \<and>
        (\<nexists>x. outcome_committed x \<in> set (ro_entries r) \<and> outcome_aborted x \<in> set (ro_entries r))
    | Some x \<Rightarrow> outcome_committed x \<in> set (ro_entries r) \<and> outcome_aborted x \<in> set (ro_entries r)"
proof -
  let ?d = "dedup [] (sort (ro_entries r))"
  have n: "snd ?d = res" "res = None \<Longrightarrow> r' = r\<lparr>ro_entries := fst ?d\<rparr>"
    using normalize_dedup [OF assms] by auto
  note ok = dedup_correct [of "sort (ro_entries r)" "[]", simplified]
  show ?thesis
  proof (cases res)
    case None
    with n have d: "?d = (ro_entries r', None)" by (metis prod.collapse recovered_outcomes.select_convs(1)
          recovered_outcomes.surjective recovered_outcomes.update_convs(1))
    with ok(1) have "sorted_wrt (<) (map outcome_xid (ro_entries r'))" "set (ro_entries r') = set (ro_entries r)"
      by auto
    moreover have "inj_on outcome_xid (set (ro_entries r'))"
      using \<open>sorted_wrt (<) (map outcome_xid (ro_entries r'))\<close> by (simp add: strict_sorted_iff distinct_map)
    then have "\<not> (outcome_committed x \<in> set (ro_entries r') \<and> outcome_aborted x \<in> set (ro_entries r'))" for x
      by (auto dest!: inj_onD [of _ _ "outcome_committed x" "outcome_aborted x"] arg_cong [where f = outcome_status])
    ultimately show ?thesis using None by simp
  next
    case (Some x)
    with n have "?d = (fst ?d, Some x)" by (metis prod.collapse)
    from ok(2) [OF this] obtain a b where ab: "a \<in> set (ro_entries r)" "b \<in> set (ro_entries r)"
      "outcome_xid a = x" "outcome_xid b = x" "outcome_status a \<noteq> outcome_status b" by auto
    then have "{a, b} = {outcome_committed x, outcome_aborted x}"
      using outcome_status_cases [of a] outcome_status_cases [of b]
      by (metis doubleton_eq_iff outcome_eqI outcome_status_new outcome_xid_new)
    with ab Some show ?thesis by (auto simp: doubleton_eq_iff)
  qed
qed

theorem normalize_correct_witness:
  "\<exists>x. snd (normalize \<lparr> ro_entries = [outcome_aborted 5, outcome_committed 5], ro_start = 0 \<rparr>) = Some x"
proof -
  let ?r = "\<lparr> ro_entries = [outcome_aborted 5, outcome_committed 5], ro_start = 0 \<rparr>"
  have "normalize ?r = (fst (normalize ?r), snd (normalize ?r))" by simp
  from normalize_correct [OF this] show ?thesis by (auto split: option.splits)
qed

section \<open>Version headers\<close>

record version_header =
  vh_xmin :: xid
  vh_xmax :: xid
  vh_prev :: "tuple_locator option"

abbreviation (input) VERSION_HEADER_BYTES :: nat where "VERSION_HEADER_BYTES \<equiv> 30"

definition version_header_new :: "xid \<Rightarrow> version_header" where
  "version_header_new xmin = \<lparr> vh_xmin = xmin, vh_xmax = 0, vh_prev = None \<rparr>"

definition encode_into :: "version_header \<Rightarrow> bytes \<Rightarrow> bytes" where
  "encode_into h out =
     out @ le64 (vh_xmin h) @ le64 (vh_xmax h) @
     (case vh_prev h of Some locator \<Rightarrow> locator_encode locator | None \<Rightarrow> replicate 14 0)"

definition version_decode :: "bytes \<Rightarrow> (version_header \<times> bytes) option" where
  "version_decode b =
     (if length b < VERSION_HEADER_BYTES then None
      else let prev_bytes = slice_of b 16 14;
               prev = (if \<forall>x \<in> set prev_bytes. x = 0 then None else locator_decode prev_bytes)
           in Some (\<lparr> vh_xmin = rd64 b 0, vh_xmax = rd64 b 8, vh_prev = prev \<rparr>, drop VERSION_HEADER_BYTES b))"

definition patch_xmax :: "bytes \<Rightarrow> xid \<Rightarrow> bytes" where
  "patch_xmax b xmax = (if 16 \<le> length b then put b 8 (le64 xmax) else b)"

lemma le_bytes_0: "le_bytes n 0 = replicate n 0"
  by (induction n) simp_all

lemma le64_zero: "(\<forall>x \<in> set (le64 w). x = 0) \<longleftrightarrow> w = 0"
proof
  assume "\<forall>x \<in> set (le64 w). x = 0"
  then have "le64 w = replicate (length (le64 w)) 0" using replicate_length_same [of "le64 w" 0] by metis
  then have "le64 w = le64 0" by (simp add: le64_def le_bytes_0)
  then show "w = 0" by simp
qed (simp add: le64_def le_bytes_0)

text \<open>
  A version header followed by a value decodes to that header and value, provided a
  previous-version locator does not name page 0 (the superblock), and patching \<open>xmax\<close> in
  the encoded version changes exactly that field.
\<close>

theorem version_header_round_trip:
  assumes "case vh_prev h of None \<Rightarrow> True | Some l \<Rightarrow> tl_page_id l \<noteq> SUPERBLOCK_PAGE_ID"
  shows "version_decode (encode_into h [] @ value) = Some (h, value) \<and>
         version_decode (patch_xmax (encode_into h [] @ value) x) = Some (h\<lparr>vh_xmax := x\<rparr>, value)"
proof -
  define pb where "pb = (case vh_prev h of Some locator \<Rightarrow> locator_encode locator | None \<Rightarrow> replicate 14 0)"
  have pb: "length pb = 14" by (simp add: pb_def split: option.splits)
  have prev: "(if \<forall>x \<in> set pb. x = 0 then None else locator_decode pb) = vh_prev h"
  proof (cases "vh_prev h")
    case (Some l)
    then have "\<not> (\<forall>x \<in> set pb. x = 0)"
      using assms le64_zero [of "tl_page_id l"] by (auto simp: pb_def locator_encode_bytes)
    with Some show ?thesis by (simp add: pb_def locator_decode_encode)
  qed (simp add: pb_def)
  have enc: "encode_into h [] @ value = le64 (vh_xmin h) @ le64 (vh_xmax h) @ pb @ value"
    by (simp add: encode_into_def pb_def)
  have dec: "version_decode (le64 (vh_xmin h) @ le64 y @ pb @ value) = Some (h\<lparr>vh_xmax := y\<rparr>, value)" for y
    using pb prev by (simp add: version_decode_def slice_of_def rd64_def)
  have "patch_xmax (encode_into h [] @ value) x = le64 (vh_xmin h) @ le64 x @ pb @ value"
    by (simp add: patch_xmax_def enc put_def)
  then show ?thesis using dec [of "vh_xmax h"] dec [of x] by (simp add: enc)
qed

theorem version_header_round_trip_witness:
  "version_decode (encode_into \<lparr> vh_xmin = 4, vh_xmax = 0, vh_prev = Some (locator_new 7 3 1) \<rparr> [] @ [8, 9]) =
     Some (\<lparr> vh_xmin = 4, vh_xmax = 0, vh_prev = Some (locator_new 7 3 1) \<rparr>, [8, 9])"
  using version_header_round_trip [of "\<lparr> vh_xmin = 4, vh_xmax = 0, vh_prev = Some (locator_new 7 3 1) \<rparr>" "[8, 9]" 0]
  by (simp add: locator_new_def)

end
