(* ===== verification/Mvcc.thy ===== *)
theory Mvcc
  imports Recovered Effects
begin

text \<open>
  The transaction table of \<open>crates/bicdb-page/src/mvcc.rs\<close>: status of transactions, snapshots,
  visibility and the frozen watermark. Every method of \<open>TransactionTable\<close> is a function on the
  record behind its mutex. The disk-backed outcome spill is a trait object; here it is the
  function it answers lookups with, \<open>Inl\<close> when the lookup fails.
\<close>

section \<open>State\<close>

record snapshot =
  sn_xid :: xid
  sn_xmax :: xid
  sn_in_flight :: "xid btree_set"

definition began_before :: "snapshot \<Rightarrow> xid \<Rightarrow> bool" where
  "began_before s x \<longleftrightarrow> x < sn_xmax s \<and> x \<notin> set (sn_in_flight s)"

record freeze_report =
  fr_frozen :: nat
  fr_exceptions_recorded :: nat
  fr_limit_reached :: bool
  fr_blocked :: bool
  fr_exception_capacity_full :: bool

type_synonym outcome_spill = "xid \<Rightarrow> page_error + tx_status option"

record table_inner =
  tt_next_xid :: xid
  tt_status :: "(xid, tx_status) btree_map"
  tt_recovered :: recovered_outcomes
  tt_in_progress :: "xid btree_set"
  tt_frozen_xid :: xid
  tt_abort_exceptions :: "xid btree_set"
  tt_abort_exception_capacity :: nat
  tt_spill :: "outcome_spill option"
  tt_open_horizon :: xid

section \<open>Operations\<close>

definition with_exception_capacity :: "nat \<Rightarrow> table_inner" where
  "with_exception_capacity capacity =
     \<lparr> tt_next_xid = 1, tt_status = [], tt_recovered = outcomes_default, tt_in_progress = [],
       tt_frozen_xid = 1, tt_abort_exceptions = [], tt_abort_exception_capacity = capacity,
       tt_spill = None, tt_open_horizon = 0 \<rparr>"

definition set_spill :: "table_inner \<Rightarrow> outcome_spill \<Rightarrow> table_inner" where
  "set_spill t spill = t\<lparr>tt_spill := Some spill\<rparr>"

definition tx_begin :: "table_inner \<Rightarrow> table_inner \<times> xid \<times> snapshot" where
  "tx_begin t =
     (let x = tt_next_xid t in
      (t\<lparr>tt_next_xid := x + 1, tt_status := bt_insert x InProgress (tt_status t),
         tt_in_progress := bs_insert x (tt_in_progress t)\<rparr>,
       x, \<lparr> sn_xid = x, sn_xmax = x, sn_in_flight = tt_in_progress t \<rparr>))"

definition latest_snapshot :: "table_inner \<Rightarrow> snapshot" where
  "latest_snapshot t =
     \<lparr> sn_xid = 0, sn_xmax = tt_next_xid t, sn_in_flight = tt_in_progress t \<rparr>"

definition tx_commit :: "table_inner \<Rightarrow> xid \<Rightarrow> table_inner" where
  "tx_commit t x =
     t\<lparr>tt_status := bt_insert x Committed (tt_status t),
       tt_in_progress := bs_remove x (tt_in_progress t)\<rparr>"

definition tx_abort :: "table_inner \<Rightarrow> xid \<Rightarrow> table_inner" where
  "tx_abort t x =
     (if bt_get (tt_status t) x = Some Committed then t
      else t\<lparr>tt_status := bt_insert x Aborted (tt_status t),
             tt_in_progress := bs_remove x (tt_in_progress t)\<rparr>)"

definition resident_terminal_status :: "table_inner \<Rightarrow> xid \<Rightarrow> tx_status option" where
  "resident_terminal_status t x =
     (case bt_get (tt_status t) x of Some st \<Rightarrow> Some st | None \<Rightarrow> outcomes_status (tt_recovered t) x)"

definition spill_lookup :: "table_inner \<Rightarrow> outcome_spill" where
  "spill_lookup t x = (case tt_spill t of Some spill \<Rightarrow> spill x | None \<Rightarrow> Inr None)"

definition terminal_status :: "table_inner \<Rightarrow> xid \<Rightarrow> tx_status option res" where
  "terminal_status t x =
     (case resident_terminal_status t x of
        Some st \<Rightarrow> Ok (Some st)
      | None \<Rightarrow> (case spill_lookup t x of Inr st \<Rightarrow> Ok st | Inl e \<Rightarrow> Err e))"

definition below_watermark :: "table_inner \<Rightarrow> xid \<Rightarrow> tx_status" where
  "below_watermark t x = (if x \<in> set (tt_abort_exceptions t) then Aborted else Committed)"

text \<open>
  \<open>status\<close> takes the lock twice and asks the spill in between: \<open>t1\<close> is the table in the first
  critical section, \<open>lookup\<close> what the spill answers, \<open>t2\<close> the table in the second.
\<close>

definition status_sections :: "table_inner \<Rightarrow> outcome_spill \<Rightarrow> table_inner \<Rightarrow> xid \<Rightarrow> tx_status" where
  "status_sections t1 lookup t2 x =
     (if x = 0 then Committed
      else if x < tt_frozen_xid t1 then below_watermark t1 x
      else case resident_terminal_status t1 x of
        Some st \<Rightarrow> st
      | None \<Rightarrow>
          (case lookup x of
             Inr (Some st) \<Rightarrow> st
           | Inl _ \<Rightarrow> InProgress
           | Inr None \<Rightarrow>
               if x < tt_frozen_xid t2 then below_watermark t2 x
               else case resident_terminal_status t2 x of
                 Some st \<Rightarrow> st
               | None \<Rightarrow> if x < tt_open_horizon t2 then Aborted else InProgress))"

definition tx_status_of :: "table_inner \<Rightarrow> xid \<Rightarrow> tx_status" where
  "tx_status_of t x = status_sections t (spill_lookup t) t x"

definition seal_previous_incarnations :: "table_inner \<Rightarrow> table_inner" where
  "seal_previous_incarnations t = t\<lparr>tt_open_horizon := tt_next_xid t\<rparr>"

definition tx_restore :: "table_inner \<Rightarrow> xid \<Rightarrow> xid \<Rightarrow> xid list \<Rightarrow> table_inner" where
  "tx_restore t frozen_xid next_xid abort_exceptions =
     t\<lparr>tt_frozen_xid := max (tt_frozen_xid t) frozen_xid,
       tt_next_xid := max (max (tt_next_xid t) next_xid) 1,
       tt_abort_exceptions := fold bs_insert abort_exceptions (tt_abort_exceptions t)\<rparr>"

definition record_recovered :: "table_inner \<Rightarrow> xid \<Rightarrow> tx_status \<Rightarrow> table_inner" where
  "record_recovered t x st =
     (let t = t\<lparr>tt_status := bt_insert x st (tt_status t)\<rparr>;
          t = (if st = InProgress then t\<lparr>tt_in_progress := bs_insert x (tt_in_progress t)\<rparr>
               else t\<lparr>tt_in_progress := bs_remove x (tt_in_progress t)\<rparr>)
      in if x \<ge> tt_next_xid t then t\<lparr>tt_next_xid := x + 1\<rparr> else t)"

definition ensure_next_xid_at_least :: "table_inner \<Rightarrow> xid \<Rightarrow> table_inner" where
  "ensure_next_xid_at_least t candidate = t\<lparr>tt_next_xid := max (max (tt_next_xid t) candidate) 1\<rparr>"

definition record_recovered_batch :: "table_inner \<Rightarrow> recovered_outcomes \<Rightarrow> table_inner" where
  "record_recovered_batch t outcomes =
     (let t = (case max_xid outcomes of
                 Some m \<Rightarrow> t\<lparr>tt_next_xid := max (tt_next_xid t) (sat_succ m)\<rparr>
               | None \<Rightarrow> t)
      in t\<lparr>tt_recovered := discard_below outcomes (tt_frozen_xid t)\<rparr>)"

definition terminal_outcomes :: "table_inner \<Rightarrow> recovered_outcome list" where
  "terminal_outcomes t =
     remdups_adj (sort (List.map_filter (\<lambda>(x, st). outcome_new x st)
         (filter (\<lambda>(_, st). st \<noteq> InProgress) (tt_status t))
       @ live_entries (tt_recovered t)))"

definition evict_terminal_outcomes :: "table_inner \<Rightarrow> table_inner" where
  "evict_terminal_outcomes t =
     t\<lparr>tt_status := bt_retain (\<lambda>_ st. st = InProgress) (tt_status t),
       tt_recovered := outcomes_clear (tt_recovered t)\<rparr>"

subsection \<open>Freezing\<close>

text \<open>The body of the freeze loop once the transaction at the watermark is decided.\<close>

definition drop_resident :: "table_inner \<Rightarrow> xid \<Rightarrow> table_inner" where
  "drop_resident t x =
     (if (case outcomes_front (tt_recovered t) of Some o1 \<Rightarrow> outcome_xid o1 = x | None \<Rightarrow> False)
      then t\<lparr>tt_recovered := pop_front (tt_recovered t)\<rparr>
      else t\<lparr>tt_status := bt_remove x (tt_status t)\<rparr>)"

definition freeze_one :: "table_inner \<Rightarrow> bool \<Rightarrow> table_inner" where
  "freeze_one t as_exception =
     (let x = tt_frozen_xid t;
          t = (if as_exception then t\<lparr>tt_abort_exceptions := bs_insert x (tt_abort_exceptions t)\<rparr> else t)
      in (drop_resident t x)\<lparr>tt_frozen_xid := sat_succ x\<rparr>)"

lemma frozen_drop_resident [simp]: "tt_frozen_xid (drop_resident t x) = tt_frozen_xid t"
  by (simp add: drop_resident_def)

lemma frozen_freeze_one [simp]: "tt_frozen_xid (freeze_one t b) = sat_succ (tt_frozen_xid t)"
  by (simp add: freeze_one_def Let_def)

lemma freeze_one_measure:
  "tt_frozen_xid t < oldest \<Longrightarrow>
   unat oldest - unat (sat_succ (tt_frozen_xid t)) < unat oldest - unat (tt_frozen_xid t)"
  by (simp add: sat_succ_less word_less_nat_alt)

text \<open>
  A failed lookup returns early; the transactions frozen until then stay frozen, so the table
  is part of the result in every case.
\<close>

function freeze_loop ::
  "table_inner \<Rightarrow> xid \<Rightarrow> nat \<Rightarrow> nat \<Rightarrow> nat \<Rightarrow> table_inner \<times> (nat \<times> nat \<times> bool) res" where
  "freeze_loop t oldest_active max_xids frozen recorded =
     (if frozen < max_xids \<and> tt_frozen_xid t < oldest_active then
        case terminal_status t (tt_frozen_xid t) of
          Err e \<Rightarrow> (t, Err e)
        | Panic \<Rightarrow> (t, Panic)
        | Ok (Some InProgress) \<Rightarrow> (t, Ok (frozen, recorded, False))
        | Ok (Some Committed) \<Rightarrow>
            freeze_loop (freeze_one t False) oldest_active max_xids (frozen + 1) recorded
        | Ok _ \<Rightarrow>
            if length (tt_abort_exceptions t) \<ge> tt_abort_exception_capacity t
            then (t, Ok (frozen, recorded, True))
            else freeze_loop (freeze_one t True) oldest_active max_xids (frozen + 1) (recorded + 1)
      else (t, Ok (frozen, recorded, False)))"
  by pat_completeness auto
termination
  by (relation "measure (\<lambda>(t, oldest, _). unat oldest - unat (tt_frozen_xid t))")
     (auto simp: freeze_one_measure)

declare freeze_loop.simps [simp del]

definition freeze_below_bounded :: "table_inner \<Rightarrow> xid \<Rightarrow> nat \<Rightarrow> table_inner \<times> freeze_report res" where
  "freeze_below_bounded t0 oldest_active max_xids =
     (case freeze_loop t0 oldest_active max_xids 0 0 of (t, result) \<Rightarrow>
       (t, rbind result (\<lambda>(frozen, recorded, capacity_full).
           rbind (if tt_frozen_xid t < oldest_active
                  then rmap (\<lambda>st. case st of
                           Some Committed \<Rightarrow> True
                         | Some InProgress \<Rightarrow> False
                         | _ \<Rightarrow> length (tt_abort_exceptions t) < tt_abort_exception_capacity t)
                         (terminal_status t (tt_frozen_xid t))
                  else Ok False) (\<lambda>still_freezable.
           Ok \<lparr> fr_frozen = frozen, fr_exceptions_recorded = recorded,
                fr_limit_reached = (frozen = max_xids \<and> still_freezable),
                fr_blocked = (tt_frozen_xid t < oldest_active \<and> \<not> still_freezable \<and> \<not> capacity_full),
                fr_exception_capacity_full = capacity_full \<rparr>))))"

abbreviation (input) USIZE_MAX :: nat where "USIZE_MAX \<equiv> 18446744073709551615"

definition freeze_below :: "table_inner \<Rightarrow> xid \<Rightarrow> table_inner \<times> freeze_report res" where
  "freeze_below t oldest_active = freeze_below_bounded t oldest_active USIZE_MAX"

subsection \<open>Jumping the watermark\<close>

text \<open>The first unfrozen entry below the target that is not committed, in key order.\<close>

definition unfrozen_not_committed :: "table_inner \<Rightarrow> xid \<Rightarrow> (xid \<times> tx_status) option" where
  "unfrozen_not_committed t target =
     find (\<lambda>(_, st). st \<noteq> Committed) (filter (\<lambda>(x, _). x < target) (tt_status t))"

definition watermark_jump_obstacle :: "table_inner \<Rightarrow> xid \<Rightarrow> xid option" where
  "watermark_jump_obstacle t target =
     (if target \<le> tt_frozen_xid t then None
      else case bs_first_below (tt_in_progress t) target of
        Some active \<Rightarrow> Some active
      | None \<Rightarrow> map_option fst (unfrozen_not_committed t target))"

function pop_below :: "recovered_outcomes \<Rightarrow> xid \<Rightarrow> recovered_outcomes" where
  "pop_below r target =
     (if (case outcomes_front r of Some o1 \<Rightarrow> outcome_xid o1 < target | None \<Rightarrow> False)
      then pop_below (pop_front r) target else r)"
  by auto
termination
  by (relation "measure (\<lambda>(r, _). length (live_entries r))")
     (auto simp: outcomes_front_def pop_front_def live_entries_def Let_def split: if_splits)

declare pop_below.simps [simp del]

definition jump_frozen_to :: "table_inner \<Rightarrow> xid \<Rightarrow> (table_inner \<times> xid) res" where
  "jump_frozen_to t target =
     (if target \<le> tt_frozen_xid t then Ok (t, tt_frozen_xid t)
      else if target > tt_next_xid t then Err (TransactionFloorRefused target)
      else if bs_first_below (tt_in_progress t) target \<noteq> None then Err (TransactionFloorRefused target)
      else if unfrozen_not_committed t target \<noteq> None then Err (TransactionFloorRefused target)
      else if (case outcomes_front (tt_recovered t) of
                 Some o1 \<Rightarrow> outcome_xid o1 < target \<and> outcome_status o1 \<noteq> Committed | None \<Rightarrow> False)
      then Err (TransactionFloorRefused target)
      else Ok (t\<lparr>tt_status := bt_retain (\<lambda>x _. x \<ge> target) (tt_status t),
                 tt_recovered := pop_below (tt_recovered t) target,
                 tt_frozen_xid := target\<rparr>, target))"

text \<open>
  The repair \<open>advance_transaction_floor\<close> of \<open>paged.rs\<close>, up to the checkpoint it ends with:
  freeze what was allocated, ask for obstacles, raise the allocator, jump.
\<close>

definition advance_transaction_floor :: "table_inner \<Rightarrow> xid \<Rightarrow> table_inner \<times> unit res" where
  "advance_transaction_floor t beyond =
     (let oldest_active = (case bs_first (tt_in_progress t) of Some x \<Rightarrow> x | None \<Rightarrow> tt_next_xid t) in
      case freeze_below t (min (tt_next_xid t) oldest_active) of
        (t1, Err e) \<Rightarrow> (t1, Err e)
      | (t1, Panic) \<Rightarrow> (t1, Panic)
      | (t1, Ok _) \<Rightarrow>
          if watermark_jump_obstacle t1 beyond \<noteq> None then (t1, Err (TransactionFloorRefused beyond))
          else let t2 = ensure_next_xid_at_least t1 beyond in
            case jump_frozen_to t2 beyond of
              Ok (t3, _) \<Rightarrow> (t3, Ok ())
            | Err e \<Rightarrow> (t2, Err e)
            | Panic \<Rightarrow> (t2, Panic))"

text \<open>The table built when a store is opened (\<open>paged.rs\<close>), before the open-time freeze.\<close>

definition open_table ::
  "nat \<Rightarrow> outcome_spill \<Rightarrow> xid \<Rightarrow> xid \<Rightarrow> xid list \<Rightarrow> recovered_outcomes \<Rightarrow> xid \<Rightarrow> table_inner" where
  "open_table capacity spill frozen_xid next_xid abort_exceptions recovered_status max_record_transaction =
     (let t = with_exception_capacity capacity;
          t = set_spill t spill;
          t = tx_restore t frozen_xid next_xid abort_exceptions;
          t = record_recovered_batch t recovered_status;
          t = ensure_next_xid_at_least t (sat_succ max_record_transaction)
      in seal_previous_incarnations t)"

definition has_unfrozen_commits :: "table_inner \<Rightarrow> bool" where
  "has_unfrozen_commits t \<longleftrightarrow>
     (\<exists>(x, st) \<in> set (tt_status t). tt_frozen_xid t \<le> x \<and> st = Committed) \<or>
     (\<exists>o1 \<in> set (live_entries (tt_recovered t)).
        outcome_xid o1 \<ge> tt_frozen_xid t \<and> outcome_status o1 = Committed)"

definition oldest_in_progress_or_next :: "table_inner \<Rightarrow> xid" where
  "oldest_in_progress_or_next t =
     (case bs_first (tt_in_progress t) of Some x \<Rightarrow> x | None \<Rightarrow> tt_next_xid t)"

definition resident_entries :: "table_inner \<Rightarrow> nat" where
  "resident_entries t = length (tt_status t) + outcomes_len (tt_recovered t)"

section \<open>Visibility\<close>

definition xid_visible :: "table_inner \<Rightarrow> xid \<Rightarrow> snapshot \<Rightarrow> bool" where
  "xid_visible t x s \<longleftrightarrow>
     (if x = 0 then True
      else if x \<noteq> 0 \<and> x = sn_xid s then True
      else if \<not> began_before s x then False
      else tx_status_of t x = Committed)"

definition is_visible :: "table_inner \<Rightarrow> version_header \<Rightarrow> snapshot \<Rightarrow> bool" where
  "is_visible t h s \<longleftrightarrow>
     (if \<not> xid_visible t (vh_xmin h) s then False
      else if vh_xmax h = 0 then True
      else \<not> xid_visible t (vh_xmax h) s)"

definition is_concurrent :: "table_inner \<Rightarrow> xid \<Rightarrow> snapshot \<Rightarrow> bool" where
  "is_concurrent t x s \<longleftrightarrow>
     (if x = 0 \<or> x = sn_xid s then False
      else if tx_status_of t x = Aborted then False
      else \<not> began_before s x \<or> tx_status_of t x = InProgress)"

end
