(* ===== verification/Mvcc_Steps.thy ===== *)
theory Mvcc_Steps
  imports Mvcc
begin

text \<open>
  Correctness of the transaction table: its invariant, the step relation of the operations a
  running store performs, and the stability of outcomes and snapshots along its runs.
\<close>

declare option.case_cong [cong] sum.case_cong [cong]

section \<open>The table invariant\<close>

text \<open>
  \<open>recorded\<close> is the terminal lookup with the spill. The invariant keeps the ordered
  collections sorted, \<open>in_progress\<close> equal to the entries marked so, exceptions below the
  watermark and running transactions above it, every spilled record true, and every id issued
  by this incarnation accounted for.
\<close>

definition recorded :: "table_inner \<Rightarrow> xid \<Rightarrow> tx_status option" where
  "recorded t x =
     (case resident_terminal_status t x of
        Some st \<Rightarrow> Some st
      | None \<Rightarrow> (case spill_lookup t x of Inr st \<Rightarrow> st | Inl _ \<Rightarrow> None))"

definition spill_ok :: "table_inner \<Rightarrow> bool" where
  "spill_ok t \<longleftrightarrow> (\<forall>x. \<exists>st. spill_lookup t x = Inr st \<and> st \<noteq> Some InProgress)"

definition table_sorted :: "table_inner \<Rightarrow> bool" where
  "table_sorted t \<longleftrightarrow>
     bt_inv (tt_status t) \<and> bs_inv (tt_in_progress t) \<and> bs_inv (tt_abort_exceptions t) \<and>
     outcomes_wf (tt_recovered t)"

definition table_wf :: "table_inner \<Rightarrow> bool" where
  "table_wf t \<longleftrightarrow>
     table_sorted t \<and> spill_ok t \<and>
     (\<forall>x. x \<in> set (tt_in_progress t) \<longleftrightarrow> bt_get (tt_status t) x = Some InProgress) \<and>
     (\<forall>x \<in> set (tt_in_progress t). tt_frozen_xid t \<le> x \<and> x < tt_next_xid t) \<and>
     (\<forall>x \<in> set (tt_abort_exceptions t). x < tt_frozen_xid t) \<and>
     0 < tt_frozen_xid t \<and> tt_frozen_xid t \<le> tt_next_xid t \<and>
     (\<forall>x. tt_frozen_xid t \<le> x \<longrightarrow> tt_open_horizon t \<le> x \<longrightarrow> x < tt_next_xid t \<longrightarrow> recorded t x \<noteq> None) \<and>
     (\<forall>x. recorded t x \<noteq> None \<longrightarrow> x < tt_next_xid t) \<and>
     (\<forall>x st. spill_lookup t x = Inr (Some st) \<longrightarrow> x \<noteq> 0 \<longrightarrow> tx_status_of t x = st)"

lemma table_wfD:
  assumes "table_wf t"
  shows "table_sorted t" "spill_ok t"
    "\<And>x. x \<in> set (tt_in_progress t) \<longleftrightarrow> bt_get (tt_status t) x = Some InProgress"
    "x \<in> set (tt_in_progress t) \<Longrightarrow> tt_frozen_xid t \<le> x"
    "x \<in> set (tt_in_progress t) \<Longrightarrow> x < tt_next_xid t"
    "x \<in> set (tt_abort_exceptions t) \<Longrightarrow> x < tt_frozen_xid t"
    "0 < tt_frozen_xid t" "tt_frozen_xid t \<le> tt_next_xid t"
    "tt_frozen_xid t \<le> x \<Longrightarrow> tt_open_horizon t \<le> x \<Longrightarrow> x < tt_next_xid t \<Longrightarrow> recorded t x \<noteq> None"
    "recorded t x \<noteq> None \<Longrightarrow> x < tt_next_xid t"
    "spill_lookup t x = Inr (Some st) \<Longrightarrow> x \<noteq> 0 \<Longrightarrow> tx_status_of t x = st"
  using assms by (auto simp: table_wf_def)

lemma spill_okE:
  assumes "spill_ok t"
  obtains st where "spill_lookup t x = Inr st" "st \<noteq> Some InProgress"
  using assms by (auto simp: spill_ok_def)

lemma terminal_status_recorded: "spill_ok t \<Longrightarrow> terminal_status t x = Ok (recorded t x)"
  by (erule spill_okE [where x = x]) (simp add: terminal_status_def recorded_def split: option.splits)

lemma resident_cong:
  "tt_status t = tt_status u \<Longrightarrow> tt_recovered t = tt_recovered u \<Longrightarrow>
   resident_terminal_status t = resident_terminal_status u"
  by (simp add: resident_terminal_status_def fun_eq_iff)

lemma spill_lookup_cong: "tt_spill t = tt_spill u \<Longrightarrow> spill_lookup t = spill_lookup u"
  by (simp add: spill_lookup_def fun_eq_iff)

lemma recorded_cong:
  "tt_status t = tt_status u \<Longrightarrow> tt_recovered t = tt_recovered u \<Longrightarrow> tt_spill t = tt_spill u \<Longrightarrow>
   recorded t = recorded u"
  by (simp add: recorded_def fun_eq_iff resident_cong [of t u] spill_lookup_cong [of t u])

lemma tx_status_of_recorded:
  assumes "spill_ok t"
  shows "tx_status_of t x =
    (if x = 0 then Committed
     else if x < tt_frozen_xid t then below_watermark t x
     else case recorded t x of
       Some st \<Rightarrow> st
     | None \<Rightarrow> if x < tt_open_horizon t then Aborted else InProgress)"
proof -
  obtain st where "spill_lookup t x = Inr st" using assms by (auto simp: spill_ok_def)
  then show ?thesis
    by (auto simp: tx_status_of_def status_sections_def recorded_def split: option.splits)
qed

lemma recorded_resident:
  "table_sorted t \<Longrightarrow> resident_terminal_status t x =
     (case bt_get (tt_status t) x of Some st \<Rightarrow> Some st | None \<Rightarrow> outcomes_map (tt_recovered t) x)"
  by (simp add: resident_terminal_status_def table_sorted_def outcomes_status_map split: option.splits)

lemma in_progress_recorded:
  assumes "table_wf t"
  shows "x \<in> set (tt_in_progress t) \<longleftrightarrow> recorded t x = Some InProgress"
proof -
  have "outcomes_map (tt_recovered t) x \<noteq> Some InProgress"
    using table_wfD(1) [OF assms] by (auto simp: table_sorted_def outcomes_map_Some)
  moreover have "spill_lookup t x \<noteq> Inr (Some InProgress)"
    using table_wfD(2) [OF assms] unfolding spill_ok_def by (metis sum.inject(2))
  ultimately show ?thesis
    using table_wfD(1) [OF assms] table_wfD(3) [OF assms]
    by (auto simp: recorded_def recorded_resident split: option.splits sum.splits)
qed

lemma decided_status:
  assumes wf: "table_wf t" and x: "x < tt_next_xid t" "x \<notin> set (tt_in_progress t)"
  shows "tx_status_of t x \<noteq> InProgress"
proof (cases "x = 0 \<or> x < tt_frozen_xid t")
  case True
  then show ?thesis
    using table_wfD(2) [OF wf] by (auto simp: tx_status_of_recorded below_watermark_def)
next
  case False
  then have "recorded t x \<noteq> None \<or> x < tt_open_horizon t"
    using table_wfD(9) [OF wf, of x] x(1) by (auto simp: not_less)
  with False x(2) in_progress_recorded [OF wf, of x] show ?thesis
    using table_wfD(2) [OF wf] by (auto simp: tx_status_of_recorded split: option.splits)
qed

section \<open>Freezing keeps every status\<close>

lemma resident_drop:
  assumes "table_sorted t"
  shows "y \<noteq> x \<Longrightarrow> resident_terminal_status (drop_resident t x) y = resident_terminal_status t y"
    and "table_sorted (drop_resident t x)"
  using assms pop_front_map [of "tt_recovered t"] pop_front_live(1) [of "tt_recovered t"]
  by (auto simp: drop_resident_def table_sorted_def resident_terminal_status_def outcomes_status_map
      split: option.splits)

lemma resident_drop_None:
  assumes "table_sorted t" "resident_terminal_status t y = None"
  shows "resident_terminal_status (drop_resident t x) y = None"
proof (cases "y = x")
  case True
  with assms pop_front_map [of "tt_recovered t"] pop_front_live(1) [of "tt_recovered t"] show ?thesis
    by (auto simp: drop_resident_def table_sorted_def resident_terminal_status_def outcomes_status_map
        split: option.splits)
qed (use assms resident_drop(1) in simp)

lemma drop_resident_simps [simp]:
  "tt_in_progress (drop_resident t x) = tt_in_progress t"
  "tt_next_xid (drop_resident t x) = tt_next_xid t"
  "tt_open_horizon (drop_resident t x) = tt_open_horizon t"
  "tt_abort_exceptions (drop_resident t x) = tt_abort_exceptions t"
  "tt_abort_exception_capacity (drop_resident t x) = tt_abort_exception_capacity t"
  "tt_spill (drop_resident t x) = tt_spill t"
  by (simp_all add: drop_resident_def)

lemma freeze_one_simps [simp]:
  "tt_in_progress (freeze_one t b) = tt_in_progress t"
  "tt_next_xid (freeze_one t b) = tt_next_xid t"
  "tt_open_horizon (freeze_one t b) = tt_open_horizon t"
  "tt_abort_exceptions (freeze_one t b) =
     (if b then bs_insert (tt_frozen_xid t) (tt_abort_exceptions t) else tt_abort_exceptions t)"
  "tt_abort_exception_capacity (freeze_one t b) = tt_abort_exception_capacity t"
  "tt_spill (freeze_one t b) = tt_spill t"
  by (simp_all add: freeze_one_def Let_def)

lemma freeze_one_recorded:
  assumes "table_sorted t"
  shows "y \<noteq> tt_frozen_xid t \<Longrightarrow> recorded (freeze_one t b) y = recorded t y"
    and "table_sorted (freeze_one t b)"
    and "resident_terminal_status t y = None \<Longrightarrow> resident_terminal_status (freeze_one t b) y = None"
proof -
  let ?u = "if b then t\<lparr>tt_abort_exceptions := bs_insert (tt_frozen_xid t) (tt_abort_exceptions t)\<rparr> else t"
  have u: "table_sorted ?u" using assms by (auto simp: table_sorted_def)
  have fr: "resident_terminal_status (freeze_one t b) y = resident_terminal_status (drop_resident ?u (tt_frozen_xid t)) y"
    by (rule fun_cong [OF resident_cong]) (simp_all add: freeze_one_def Let_def)
  have ru: "resident_terminal_status ?u y = resident_terminal_status t y"
    by (rule fun_cong [OF resident_cong]) simp_all
  show "recorded (freeze_one t b) y = recorded t y" if "y \<noteq> tt_frozen_xid t"
    using resident_drop(1) [OF u that] fr ru
    by (simp add: recorded_def spill_lookup_cong [of "freeze_one t b" t])
  show "resident_terminal_status (freeze_one t b) y = None" if "resident_terminal_status t y = None"
    using resident_drop_None [OF u] that fr ru by simp
  show "table_sorted (freeze_one t b)"
    using resident_drop(2) [OF u] by (simp add: freeze_one_def Let_def table_sorted_def)
qed

text \<open>Everything about a table that operations other than begin, commit and abort keep.\<close>

definition same_outcomes :: "table_inner \<Rightarrow> table_inner \<Rightarrow> bool" where
  "same_outcomes t u \<longleftrightarrow>
     tt_next_xid u = tt_next_xid t \<and> tt_in_progress u = tt_in_progress t \<and>
     tt_open_horizon u = tt_open_horizon t \<and> tt_frozen_xid t \<le> tt_frozen_xid u \<and>
     (\<forall>x. tx_status_of u x = tx_status_of t x) \<and>
     (\<forall>x. tt_frozen_xid u \<le> x \<longrightarrow> recorded u x = recorded t x) \<and>
     (\<forall>x. resident_terminal_status t x = None \<longrightarrow> resident_terminal_status u x = None)"

lemma same_outcomes_refl [simp]: "same_outcomes t t"
  by (simp add: same_outcomes_def)

lemma same_outcomes_trans: "same_outcomes t u \<Longrightarrow> same_outcomes u v \<Longrightarrow> same_outcomes t v"
  by (auto simp: same_outcomes_def)

lemma freeze_one_ok:
  assumes wf: "table_wf t" and nx: "tt_frozen_xid t < tt_next_xid t"
    and rec: "recorded t (tt_frozen_xid t) \<noteq> Some InProgress"
    and b: "b \<longleftrightarrow> recorded t (tt_frozen_xid t) \<noteq> Some Committed"
  shows "table_wf (freeze_one t b)" "same_outcomes t (freeze_one t b)"
proof -
  let ?x = "tt_frozen_xid t" and ?u = "freeze_one t b"
  note D = table_wfD [OF wf]
  have so: "spill_ok ?u" using D(2) by (simp add: spill_ok_def spill_lookup_cong [of ?u t])
  have x0: "?x \<noteq> 0" using D(7) by auto
  have lt: "y < sat_succ ?x \<longleftrightarrow> y \<le> ?x" "sat_succ ?x \<le> y \<longleftrightarrow> ?x < y" for y
    using sat_succ_iff [OF nx] sat_succ_le [OF nx] by auto
  have notex: "?x \<notin> set (tt_abort_exceptions t)" using D(6) by auto
  have stx: "tx_status_of t ?x = (if b then Aborted else Committed)"
    using D(9) [of ?x] rec b x0 nx D(2)
    by (cases "recorded t ?x") (auto simp: tx_status_of_recorded not_less intro: tx_status.exhaust)
  have st: "tx_status_of ?u y = tx_status_of t y" for y
  proof (cases y ?x rule: linorder_cases)
    case less
    then have "y \<le> ?x" "y \<noteq> ?x" by auto
    with less so D(2) show ?thesis
      by (simp add: tx_status_of_recorded lt below_watermark_def)
  next
    case equal
    with stx x0 so notex show ?thesis
      by (simp add: tx_status_of_recorded lt below_watermark_def)
  next
    case greater
    then have "recorded ?u y = recorded t y" using freeze_one_recorded(1) [OF D(1)] by auto
    with greater so D(2) show ?thesis by (auto simp: tx_status_of_recorded lt)
  qed
  have rec': "recorded ?u y = recorded t y" if "?x < y" for y
    using freeze_one_recorded(1) [OF D(1), of y b] that by auto
  show "same_outcomes t ?u"
    using st rec' freeze_one_recorded(3) [OF D(1)] by (simp add: same_outcomes_def lt less_imp_le)
  have notin: "?x \<notin> set (tt_in_progress t)" using rec in_progress_recorded [OF wf] by simp
  then have ge: "?x < y" if "y \<in> set (tt_in_progress t)" for y
    using D(4) [OF that] that by (cases "y = ?x") auto
  have bts: "bt_get (tt_status ?u) y = (if y = ?x \<and> bt_get (tt_status ?u) ?x = None then None else bt_get (tt_status t) y)" for y
    by (simp add: freeze_one_def Let_def drop_resident_def)
  have "bt_get (tt_status t) ?x \<noteq> Some InProgress" using notin D(3) by simp
  then have ip: "y \<in> set (tt_in_progress t) \<longleftrightarrow> bt_get (tt_status ?u) y = Some InProgress" for y
    using D(3) [of y] bts [of y] by (auto split: if_splits)
  have sl: "spill_lookup ?u = spill_lookup t" by (rule spill_lookup_cong) simp
  have y: "table_sorted ?u" by (rule freeze_one_recorded(2) [OF D(1)])
  have ex: "y \<le> ?x" if "y \<in> set (tt_abort_exceptions ?u)" for y
    using that D(6) [of y] by (auto split: if_splits simp: less_imp_le)
  show "table_wf ?u"
    unfolding table_wf_def
  proof (intro conjI allI ballI impI)
    show "table_sorted ?u" "spill_ok ?u" by (fact y, fact so)
    show "z < tt_next_xid ?u" if "recorded ?u z \<noteq> None" for z
      using that freeze_one_recorded(1) [OF D(1), of z b] D(10) [of z] nx by (cases "z = ?x") auto
  qed (use ip ge ex D(5,7,8) nx rec' D(9,11) in
      \<open>auto simp: lt sl st order_le_less_trans less_imp_le\<close>)
qed

lemma freeze_loop_ok:
  "table_wf t \<Longrightarrow> oldest \<le> tt_next_xid t \<Longrightarrow> freeze_loop t oldest n k r = (t', res) \<Longrightarrow>
   table_wf t' \<and> same_outcomes t t' \<and> tt_abort_exception_capacity t' = tt_abort_exception_capacity t \<and>
   (length (tt_abort_exceptions t) \<le> tt_abort_exception_capacity t \<longrightarrow>
      length (tt_abort_exceptions t') \<le> tt_abort_exception_capacity t') \<and>
   (\<exists>k' r' full. res = Ok (k', r', full) \<and>
      (\<not> k' < n \<or> oldest \<le> tt_frozen_xid t' \<or>
       (if full then tt_abort_exception_capacity t' \<le> length (tt_abort_exceptions t')
        else tt_frozen_xid t' \<in> set (tt_in_progress t'))))"
proof (induction t oldest n k r rule: freeze_loop.induct)
  case (1 t oldest n k r)
  let ?x = "tt_frozen_xid t"
  show ?case
  proof (cases "k < n \<and> ?x < oldest")
    case False
    with 1 show ?thesis by (auto simp: freeze_loop.simps [of t oldest n k r] not_less)
  next
    case True
    have ts: "terminal_status t ?x = Ok (recorded t ?x)"
      using table_wfD(2) [OF "1.prems"(1)] by (rule terminal_status_recorded)
    have nx: "?x < tt_next_xid t" using True "1.prems"(2) by auto
    note eq = freeze_loop.simps [of t oldest n k r, unfolded ts]
    consider (prog) "recorded t ?x = Some InProgress" | (com) "recorded t ?x = Some Committed"
      | (ab) "recorded t ?x \<noteq> Some InProgress" "recorded t ?x \<noteq> Some Committed" by blast
    then show ?thesis
    proof cases
      case prog
      with True "1.prems"(1,3) in_progress_recorded [OF "1.prems"(1)] show ?thesis by (auto simp: eq)
    next
      case com
      then have "recorded t ?x \<noteq> Some InProgress" by simp
      note one = freeze_one_ok [OF "1.prems"(1) nx this, of False]
      from com True "1.prems"(3) have "freeze_loop (freeze_one t False) oldest n (k + 1) r = (t', res)"
        by (simp add: eq)
      from "1.IH"(2) [OF True ts com refl one(1)] this com "1.prems"(2) one(2)
      show ?thesis by (auto intro: same_outcomes_trans)
    next
      case ab
      note one = freeze_one_ok [OF "1.prems"(1) nx ab(1), of True]
      show ?thesis
      proof (cases "length (tt_abort_exceptions t) \<ge> tt_abort_exception_capacity t")
        case full: True
        with ab True "1.prems"(1,3) show ?thesis
          by (auto simp: eq split: option.splits tx_status.splits)
      next
        case room: False
        with ab True "1.prems"(3) have loop: "freeze_loop (freeze_one t True) oldest n (k + 1) (r + 1) = (t', res)"
          by (auto simp: eq split: option.splits tx_status.splits)
        have IH: "table_wf t' \<and> same_outcomes (freeze_one t True) t' \<and>
            tt_abort_exception_capacity t' = tt_abort_exception_capacity t \<and>
            (length (tt_abort_exceptions (freeze_one t True)) \<le> tt_abort_exception_capacity t \<longrightarrow>
              length (tt_abort_exceptions t') \<le> tt_abort_exception_capacity t') \<and>
            (\<exists>k' r' full. res = Ok (k', r', full) \<and>
              (\<not> k' < n \<or> oldest \<le> tt_frozen_xid t' \<or>
               (if full then tt_abort_exception_capacity t' \<le> length (tt_abort_exceptions t')
                else tt_frozen_xid t' \<in> set (tt_in_progress t'))))"
        proof (cases "recorded t ?x")
          case None
          from "1.IH"(1) [OF True ts None] room one ab loop "1.prems"(2) show ?thesis by auto
        next
          case (Some st)
          with ab have st: "st = Aborted" by (cases st) auto
          from "1.IH"(3) [OF True ts Some st] room one ab loop "1.prems"(2) show ?thesis by auto
        qed
        have "length (tt_abort_exceptions (freeze_one t True)) \<le> tt_abort_exception_capacity t"
          using room by (simp add: bs_insert_length)
        with IH one(2) ab show ?thesis by (auto intro: same_outcomes_trans)
      qed
    qed
  qed
qed

section \<open>Steps\<close>

text \<open>
  What a running store does to the table. Commit and abort end a transaction that is in
  progress. The checkpoint persists the terminal outcomes in the spill and evicts them, both
  under the writer gate: the new spill answers with the old records and those of the table,
  and may forget ids the watermark has passed.
\<close>

definition spill_covers :: "table_inner \<Rightarrow> outcome_spill \<Rightarrow> bool" where
  "spill_covers t f \<longleftrightarrow>
     (\<forall>x. if tt_frozen_xid t \<le> x \<and> recorded t x \<noteq> Some InProgress then f x = Inr (recorded t x)
          else f x = Inr None \<or> f x = spill_lookup t x)"

lemma spill_coversD:
  assumes "spill_covers t f"
  shows "tt_frozen_xid t \<le> x \<Longrightarrow> recorded t x \<noteq> Some InProgress \<Longrightarrow> f x = Inr (recorded t x)"
    and "\<not> (tt_frozen_xid t \<le> x \<and> recorded t x \<noteq> Some InProgress) \<Longrightarrow> f x = Inr None \<or> f x = spill_lookup t x"
  using assms unfolding spill_covers_def by presburger+

inductive table_step :: "table_inner \<Rightarrow> table_inner \<Rightarrow> bool" where
  step_begin: "tt_next_xid t \<noteq> - 1 \<Longrightarrow> table_step t (fst (tx_begin t))"
| step_commit: "x \<in> set (tt_in_progress t) \<Longrightarrow> table_step t (tx_commit t x)"
| step_abort: "x \<in> set (tt_in_progress t) \<Longrightarrow> table_step t (tx_abort t x)"
| step_freeze: "oldest \<le> tt_next_xid t \<Longrightarrow> table_step t (fst (freeze_below_bounded t oldest n))"
| step_evict: "spill_covers t f \<Longrightarrow> table_step t (evict_terminal_outcomes (set_spill t f))"

inductive_cases table_stepE: "table_step t t'"

text \<open>A status change of one transaction at or above the watermark.\<close>

lemma set_status_ok:
  assumes wf: "table_wf t" and x: "tt_frozen_xid t \<le> x" "x < nx" and nx: "tt_next_xid t \<le> nx"
    "\<And>y. y < nx \<Longrightarrow> tt_next_xid t \<le> y \<Longrightarrow> y = x"
    and ip: "bs_inv ip" "set ip = (if st = InProgress then insert x (set (tt_in_progress t))
        else set (tt_in_progress t) - {x})"
    and sp: "\<And>st'. spill_lookup t x \<noteq> Inr (Some st')"
    and t1: "t1 = t\<lparr>tt_next_xid := nx, tt_status := bt_insert x st (tt_status t), tt_in_progress := ip\<rparr>"
  shows "table_wf t1" "y \<noteq> x \<Longrightarrow> tx_status_of t1 y = tx_status_of t y" "tx_status_of t1 x = st"
proof -
  note D = table_wfD [OF wf]
  have sl: "spill_lookup t1 = spill_lookup t" by (rule spill_lookup_cong) (simp add: t1)
  have so: "spill_ok t1" using D(2) by (simp add: spill_ok_def sl)
  have rec: "recorded t1 y = (if y = x then Some st else recorded t y)" for y
    by (simp add: recorded_def sl) (simp add: t1 resident_terminal_status_def)
  have x0: "x \<noteq> 0" using x(1) D(7) by auto
  show st: "tx_status_of t1 y = tx_status_of t y" if "y \<noteq> x" for y
    using that so D(2) by (simp add: tx_status_of_recorded rec) (simp add: t1 below_watermark_def)
  have fz: "tt_frozen_xid t1 = tt_frozen_xid t" "tt_open_horizon t1 = tt_open_horizon t"
    "tt_abort_exceptions t1 = tt_abort_exceptions t" "tt_next_xid t1 = nx" "tt_in_progress t1 = ip"
    "tt_status t1 = bt_insert x st (tt_status t)" by (simp_all add: t1)
  show "tx_status_of t1 x = st"
    using so x0 x(1) by (simp add: tx_status_of_recorded rec fz not_less [symmetric])
  show "table_wf t1"
    unfolding table_wf_def fz
  proof (intro conjI allI ballI impI)
    show "table_sorted t1" using D(1) ip(1) by (simp add: t1 table_sorted_def bt_insert_inv)
    show "spill_ok t1" by (fact so)
    show "y \<in> set ip \<longleftrightarrow> bt_get (bt_insert x st (tt_status t)) y = Some InProgress" for y
      using D(3) [of y] ip(2) by (auto split: if_splits)
    show "tt_frozen_xid t \<le> y" "y < nx" if "y \<in> set ip" for y
      using that ip(2) x D(4,5) [of y] nx(1) by (auto split: if_splits)
    show "recorded t1 y \<noteq> None" if "tt_frozen_xid t \<le> y" "tt_open_horizon t \<le> y" "y < nx" for y
      using that D(9) [of y] nx(2) [of y] by (cases "y < tt_next_xid t") (auto simp: rec not_less)
    show "y < nx" if "recorded t1 y \<noteq> None" for y
      using that D(10) [of y] nx(1) x(2) by (auto simp: rec split: if_splits)
    show "tx_status_of t1 y = st'" if "spill_lookup t1 y = Inr (Some st')" "y \<noteq> 0" for y st'
      using that sp D(11) [of y st'] st [of y] by (cases "y = x") (auto simp: sl)
  qed (use D(6-8) nx(1) in auto)
qed

text \<open>What every step keeps of the transactions decided before it.\<close>

definition keeps_decided :: "table_inner \<Rightarrow> table_inner \<Rightarrow> bool" where
  "keeps_decided t u \<longleftrightarrow>
     table_wf u \<and> tt_next_xid t \<le> tt_next_xid u \<and> tt_frozen_xid t \<le> tt_frozen_xid u \<and>
     tt_open_horizon u = tt_open_horizon t \<and>
     (\<forall>x. x < tt_next_xid t \<longrightarrow> x \<notin> set (tt_in_progress t) \<longrightarrow>
        x \<notin> set (tt_in_progress u) \<and> tx_status_of u x = tx_status_of t x \<and>
        (tt_frozen_xid u \<le> x \<longrightarrow> recorded u x = recorded t x) \<and>
        (resident_terminal_status t x = None \<longrightarrow> resident_terminal_status u x = None))"

lemma keeps_decided_refl: "table_wf t \<Longrightarrow> keeps_decided t t"
  by (simp add: keeps_decided_def)

lemma keeps_decided_trans: "keeps_decided t u \<Longrightarrow> keeps_decided u v \<Longrightarrow> keeps_decided t v"
  by (fastforce simp: keeps_decided_def)

lemma same_outcomes_keeps: "table_wf u \<Longrightarrow> same_outcomes t u \<Longrightarrow> keeps_decided t u"
  by (simp add: same_outcomes_def keeps_decided_def)

lemma set_status_keeps:
  assumes "table_wf t1" "\<And>y. y \<noteq> x \<Longrightarrow> tx_status_of t1 y = tx_status_of t y"
    and t1: "t1 = t\<lparr>tt_next_xid := nx, tt_status := bt_insert x st (tt_status t), tt_in_progress := ip\<rparr>"
    and "tt_next_xid t \<le> nx" "set ip \<subseteq> insert x (set (tt_in_progress t))"
    "x \<in> set (tt_in_progress t) \<or> tt_next_xid t \<le> x"
  shows "keeps_decided t t1"
proof -
  have "recorded t1 y = recorded t y \<and> resident_terminal_status t1 y = resident_terminal_status t y" if "y \<noteq> x" for y
    using that by (simp add: t1 recorded_def resident_terminal_status_def spill_lookup_def)
  moreover have "tt_next_xid t1 = nx" "tt_frozen_xid t1 = tt_frozen_xid t" "tt_in_progress t1 = ip"
    "tt_open_horizon t1 = tt_open_horizon t" by (simp_all add: t1)
  moreover have "y \<noteq> x" if "y < tt_next_xid t" "y \<notin> set (tt_in_progress t)" for y
    using that assms(6) by auto
  ultimately show ?thesis using assms by (auto simp: keeps_decided_def)
qed

lemma begin_keeps:
  assumes wf: "table_wf t" and nx: "tt_next_xid t \<noteq> - 1"
  shows "table_wf (fst (tx_begin t))" "keeps_decided t (fst (tx_begin t))"
    "tx_status_of (fst (tx_begin t)) (tt_next_xid t) = InProgress"
proof -
  let ?x = "tt_next_xid t"
  note D = table_wfD [OF wf]
  have "?x < - 1" using nx by (metis word_le_less_eq word_order.extremum)
  from sat_succ_iff [OF this] have lt: "y < ?x + 1 \<longleftrightarrow> y \<le> ?x" for y using nx by (simp add: sat_succ_def)
  have t1: "fst (tx_begin t) = t\<lparr>tt_next_xid := ?x + 1, tt_status := bt_insert ?x InProgress (tt_status t),
      tt_in_progress := bs_insert ?x (tt_in_progress t)\<rparr>"
    by (simp add: tx_begin_def Let_def)
  have "recorded t ?x = None" using D(10) [of ?x] by (metis less_irrefl)
  then have sp: "spill_lookup t ?x \<noteq> Inr (Some st')" for st'
    by (auto simp: recorded_def split: option.splits)
  have ip: "bs_inv (bs_insert ?x (tt_in_progress t))" using D(1) by (simp add: table_sorted_def)
  note ok = set_status_ok [where st = InProgress, OF wf D(8) _ _ _ ip _ sp t1]
  show wf1: "table_wf (fst (tx_begin t))" by (rule ok(1)) (auto simp: lt less_imp_le)
  show "tx_status_of (fst (tx_begin t)) ?x = InProgress" by (rule ok(3)) (auto simp: lt less_imp_le)
  show "keeps_decided t (fst (tx_begin t))"
    by (rule set_status_keeps [OF wf1 ok(2) t1]) (auto simp: lt less_imp_le)
qed

lemma finish_keeps:
  assumes wf: "table_wf t" and x: "x \<in> set (tt_in_progress t)" and st: "st \<noteq> InProgress"
    and t1: "t1 = t\<lparr>tt_status := bt_insert x st (tt_status t), tt_in_progress := bs_remove x (tt_in_progress t)\<rparr>"
  shows "table_wf t1" "keeps_decided t t1" "tx_status_of t1 x = st"
proof -
  note D = table_wfD [OF wf]
  have x0: "x \<noteq> 0" using D(4) [OF x] D(7) by auto
  have "tx_status_of t x = InProgress"
    using x x0 D(2) D(4) [OF x] in_progress_recorded [OF wf, of x]
    by (simp add: tx_status_of_recorded not_less [symmetric])
  then have sp: "spill_lookup t x \<noteq> Inr (Some st')" for st'
    using D(11) [of x st'] x0 spill_okE [OF D(2), of x] by (metis sum.inject(2))
  have ip: "bs_inv (bs_remove x (tt_in_progress t))" using D(1) by (simp add: table_sorted_def)
  have t1': "t1 = t\<lparr>tt_next_xid := tt_next_xid t, tt_status := bt_insert x st (tt_status t),
      tt_in_progress := bs_remove x (tt_in_progress t)\<rparr>" by (simp add: t1)
  note ok = set_status_ok [where st = st, OF wf D(4) [OF x] D(5) [OF x] _ _ ip _ sp t1']
  show wf1: "table_wf t1" by (rule ok(1)) (auto simp: st)
  show "tx_status_of t1 x = st" by (rule ok(3)) (auto simp: st)
  show "keeps_decided t t1"
    by (rule set_status_keeps [OF wf1 ok(2) t1']) (auto simp: st x)
qed

lemma evict_keeps:
  assumes wf: "table_wf t" and cov: "spill_covers t f"
  defines "u \<equiv> evict_terminal_outcomes (set_spill t f)"
  shows "table_wf u" "same_outcomes t u"
proof -
  note D = table_wfD [OF wf]
  have u: "tt_next_xid u = tt_next_xid t" "tt_in_progress u = tt_in_progress t"
    "tt_frozen_xid u = tt_frozen_xid t" "tt_open_horizon u = tt_open_horizon t"
    "tt_abort_exceptions u = tt_abort_exceptions t" "spill_lookup u = f"
    by (simp_all add: u_def evict_terminal_outcomes_def set_spill_def spill_lookup_def fun_eq_iff)
  have srt: "table_sorted u"
    using D(1) by (simp add: u_def evict_terminal_outcomes_def set_spill_def table_sorted_def bt_retain_inv)
  have bt: "bt_get (tt_status u) x = (if x \<in> set (tt_in_progress t) then Some InProgress else None)" for x
    using D(1) D(3) [of x]
    by (auto simp: u_def evict_terminal_outcomes_def set_spill_def bt_get_retain table_sorted_def split: option.splits)
  have res: "resident_terminal_status u x = (if x \<in> set (tt_in_progress t) then Some InProgress else None)" for x
  proof -
    have "outcomes_map (tt_recovered u) = Map.empty"
      by (simp add: u_def evict_terminal_outcomes_def set_spill_def)
    then show ?thesis using recorded_resident [OF srt, of x] by (simp add: bt)
  qed
  have fx: "\<exists>st. f x = Inr st \<and> st \<noteq> Some InProgress" for x
  proof -
    obtain st where st: "spill_lookup t x = Inr st" "st \<noteq> Some InProgress" by (rule spill_okE [OF D(2)])
    show ?thesis
    proof (cases "tt_frozen_xid t \<le> x \<and> recorded t x \<noteq> Some InProgress")
      case True
      with spill_coversD(1) [OF cov, of x] show ?thesis by blast
    next
      case False
      from spill_coversD(2) [OF cov this] st show ?thesis by auto
    qed
  qed
  have so: "spill_ok u" using fx by (simp add: spill_ok_def u)
  have rec: "recorded u x = recorded t x" if "tt_frozen_xid t \<le> x" for x
    using spill_coversD(1) [OF cov that] in_progress_recorded [OF wf, of x]
    by (auto simp: recorded_def [of u] res u)
  have st: "tx_status_of u x = tx_status_of t x" for x
    using so D(2) rec [of x] by (auto simp: tx_status_of_recorded u below_watermark_def)
  have rn: "resident_terminal_status u x = None" if "resident_terminal_status t x = None" for x
    using that D(3) [of x] unfolding res by (auto simp: resident_terminal_status_def)
  show "same_outcomes t u" using rec st rn by (simp add: same_outcomes_def u)
  show "table_wf u"
    unfolding table_wf_def u
  proof (intro conjI allI ballI impI)
    show "x < tt_next_xid t" if "recorded u x \<noteq> None" for x
      using that rec [of x] D(8) D(10) [of x] by (cases "tt_frozen_xid t \<le> x") auto
    show "tx_status_of u x = st'" if "f x = Inr (Some st')" "x \<noteq> 0" for x st'
    proof (cases "tt_frozen_xid t \<le> x \<and> recorded t x \<noteq> Some InProgress")
      case True
      with spill_coversD(1) [OF cov, of x] that have "recorded t x = Some st'" by simp
      with True that D(2) show ?thesis by (simp add: st tx_status_of_recorded not_less [symmetric])
    next
      case False
      from spill_coversD(2) [OF cov this] that have "spill_lookup t x = Inr (Some st')" by auto
      with that D(11) show ?thesis by (simp add: st)
    qed
  qed (use srt so bt D(4-9) rec in auto)
qed

lemma step_keeps:
  assumes "table_step t t'" "table_wf t"
  shows "keeps_decided t t'"
  using assms
proof (induction rule: table_step.induct)
  case (step_begin t)
  then show ?case by (simp add: begin_keeps)
next
  case (step_commit x t)
  then show ?case by (intro finish_keeps(2) [where st = Committed and x = x]) (simp_all add: tx_commit_def)
next
  case (step_abort x t)
  then have "bt_get (tt_status t) x \<noteq> Some Committed" using table_wfD(3) by simp
  with step_abort show ?case
    by (intro finish_keeps(2) [where st = Aborted and x = x]) (simp_all add: tx_abort_def)
next
  case (step_freeze oldest t n)
  obtain u res where loop: "freeze_loop t oldest n 0 0 = (u, res)" by (cases "freeze_loop t oldest n 0 0")
  then have "fst (freeze_below_bounded t oldest n) = u" by (simp add: freeze_below_bounded_def)
  with freeze_loop_ok [OF step_freeze(2,1) loop] show ?case by (simp add: same_outcomes_keeps)
next
  case (step_evict t f)
  then show ?case by (simp add: evict_keeps same_outcomes_keeps)
qed

lemma run_keeps:
  assumes "table_step\<^sup>*\<^sup>* t t'" "table_wf t"
  shows "keeps_decided t t'"
  using assms
proof (induction rule: rtranclp_induct)
  case (step u v)
  then have "table_wf u" by (simp add: keeps_decided_def)
  with step show ?case using step_keeps keeps_decided_trans by blast
qed (simp add: keeps_decided_refl)

end
