(* ===== verification/Mvcc_Visibility.thy ===== *)
theory Mvcc_Visibility
  imports Mvcc_Steps
begin

text \<open>
  Properties of the transaction table: what a snapshot sees, that outcomes are final, that
  freezing changes no status, what the table answers after a restart, and where the watermark
  jump of the repair path departs from its description.
\<close>

section \<open>Snapshots\<close>

lemma in_progress_status:
  assumes "table_wf t" "x \<in> set (tt_in_progress t)"
  shows "tx_status_of t x = InProgress"
  using assms table_wfD(2,4,7) [OF assms(1)] in_progress_recorded [OF assms(1), of x]
  by (auto simp: tx_status_of_recorded not_less [symmetric])

lemma snapshot_sees:
  assumes wf: "table_wf t" and keep: "keeps_decided t u"
    and s: "sn_xmax s = tt_next_xid t" "sn_in_flight s = tt_in_progress t"
  shows "xid_visible u y s \<longleftrightarrow>
    y = 0 \<or> y = sn_xid s \<or> y < tt_next_xid t \<and> tx_status_of t y = Committed"
  using keep in_progress_status [OF wf, of y]
  by (auto simp: xid_visible_def began_before_def s keeps_decided_def)

lemma fresh_table_wf: "table_wf (with_exception_capacity n)"
proof -
  let ?t = "with_exception_capacity n"
  have "recorded ?t x = None" "spill_lookup ?t x = Inr None" for x
    by (simp_all add: recorded_def recorded_resident table_sorted_def with_exception_capacity_def
        spill_lookup_def)
  then show ?thesis
    by (auto simp: table_wf_def table_sorted_def spill_ok_def with_exception_capacity_def)
       (metis not_less_iff_gr_or_eq word_gt_0 linorder_not_less)?
qed

text \<open>
  C1. Snapshot isolation: a version is visible to the snapshot a transaction received at its
  begin exactly when its creator is visible and its deleter, if any, is not, where the
  transactions visible to the snapshot are itself, structural writes, and those that had
  committed when it began. No later begin, commit, abort, freeze or eviction changes this.
\<close>

theorem snapshot_isolation:
  assumes "table_wf t" "tt_next_xid t \<noteq> - 1" "tx_begin t = (t1, x, s)" "table_step\<^sup>*\<^sup>* t1 t2"
  defines "sees \<equiv> \<lambda>y. y = 0 \<or> y = x \<or> y < x \<and> tx_status_of t y = Committed"
  shows "is_visible t2 h s \<longleftrightarrow> sees (vh_xmin h) \<and> (vh_xmax h = 0 \<or> \<not> sees (vh_xmax h))"
proof -
  have t1: "t1 = fst (tx_begin t)" "x = tt_next_xid t" "sn_xid s = x" "sn_xmax s = tt_next_xid t"
    "sn_in_flight s = tt_in_progress t"
    using assms(3) by (auto simp: tx_begin_def Let_def)
  have "keeps_decided t t1" "table_wf t1" using begin_keeps [OF assms(1,2)] t1(1) by simp_all
  with run_keeps [OF assms(4)] have "keeps_decided t t2" by (blast intro: keeps_decided_trans)
  from snapshot_sees [OF assms(1) this t1(4,5)] have "xid_visible t2 y s \<longleftrightarrow> sees y" for y
    by (simp add: sees_def t1)
  then show ?thesis by (auto simp: is_visible_def)
qed

theorem snapshot_isolation_witness:
  "let t = with_exception_capacity 4; (t1, x, s) = tx_begin t; t2 = tx_commit (fst (tx_begin t1)) 2 in
   is_visible t2 (version_header_new 2) s \<longleftrightarrow>
     ((2 :: xid) = 0 \<or> 2 = x \<or> 2 < x \<and> tx_status_of t 2 = Committed) \<and> True"
proof -
  let ?t = "with_exception_capacity 4"
  obtain t1 x s where b: "tx_begin ?t = (t1, x, s)" by (metis prod.exhaust)
  have b1: "t1 = fst (tx_begin ?t)" using b by simp
  have "table_step t1 (fst (tx_begin t1))"
    by (rule step_begin) (simp add: b1 tx_begin_def with_exception_capacity_def)
  moreover have "table_step (fst (tx_begin t1)) (tx_commit (fst (tx_begin t1)) 2)"
    by (rule step_commit) (simp add: b1 tx_begin_def with_exception_capacity_def)
  ultimately have "table_step\<^sup>*\<^sup>* t1 (tx_commit (fst (tx_begin t1)) 2)" by (rule converse_rtranclp_into_rtranclp [OF _ r_into_rtranclp])
  from snapshot_isolation [OF fresh_table_wf _ b this, of "version_header_new 2"] b
  show ?thesis by (simp add: Let_def version_header_new_def with_exception_capacity_def)
qed


lemma one_commit_wf:
  "table_wf (tx_commit (fst (tx_begin (with_exception_capacity n))) 1)"
  "tx_status_of (tx_commit (fst (tx_begin (with_exception_capacity n))) 1) 1 = Committed"
proof -
  let ?t = "with_exception_capacity n"
  have nx: "tt_next_xid ?t \<noteq> - 1" and ip: "1 \<in> set (tt_in_progress (fst (tx_begin ?t)))"
    by (simp_all add: tx_begin_def with_exception_capacity_def)
  note keeps = finish_keeps [OF begin_keeps(1) [OF fresh_table_wf nx] ip, of Committed,
      OF _ tx_commit_def]
  show "table_wf (tx_commit (fst (tx_begin ?t)) 1)" by (rule keeps(1)) simp
  show "tx_status_of (tx_commit (fst (tx_begin ?t)) 1) 1 = Committed" by (rule keeps(3)) simp
qed


text \<open>
  C19. Reading a status is atomic although it takes the table lock twice with a disk lookup in
  between: for every transaction issued before the read began, the answer is its status at
  the first critical section, whatever freezes and evictions run in the gaps.
\<close>

theorem status_read_linearizable:
  assumes wf: "table_wf t1" and "table_step\<^sup>*\<^sup>* t1 tm" "table_step\<^sup>*\<^sup>* tm t2" and x: "x < tt_next_xid t1"
  shows "status_sections t1 (spill_lookup tm) t2 x = tx_status_of t1 x"
proof -
  have k1: "keeps_decided t1 tm" by (rule run_keeps [OF assms(2) wf])
  then have wfm: "table_wf tm" by (simp add: keeps_decided_def)
  have k2: "keeps_decided tm t2" by (rule run_keeps [OF assms(3) wfm])
  have k12: "keeps_decided t1 t2" using k1 k2 by (rule keeps_decided_trans)
  show ?thesis
  proof (cases "x = 0 \<or> x < tt_frozen_xid t1 \<or> resident_terminal_status t1 x \<noteq> None")
    case True
    then show ?thesis by (auto simp: status_sections_def tx_status_of_def)
  next
    case False
    have nip: "x \<notin> set (tt_in_progress t1)"
      using False table_wfD(3) [OF wf, of x] by (auto simp: resident_terminal_status_def)
    have m: "tx_status_of tm x = tx_status_of t1 x" "resident_terminal_status tm x = None"
      using k1 x nip False by (auto simp: keeps_decided_def)
    have t2: "tx_status_of t2 x = tx_status_of t1 x" "resident_terminal_status t2 x = None" "table_wf t2"
      "tt_frozen_xid t2 \<le> x \<longrightarrow> recorded t2 x = recorded t1 x" "tt_open_horizon t2 = tt_open_horizon t1"
      using k12 x nip False by (auto simp: keeps_decided_def)
    obtain st where st: "spill_lookup tm x = Inr st" by (rule spill_okE [OF table_wfD(2) [OF wfm]])
    show ?thesis
    proof (cases st)
      case (Some v)
      with st m(1) table_wfD(11) [OF wfm, of x v] False show ?thesis by (simp add: status_sections_def)
    next
      case None
      show ?thesis
      proof (cases "x < tt_frozen_xid t2")
        case True
        with False None st t2(1) table_wfD(2) [OF t2(3)] show ?thesis
          by (simp add: status_sections_def tx_status_of_recorded)
      next
        case nfrozen: False
        then have "\<not> x < tt_frozen_xid tm" using k2 by (auto simp: keeps_decided_def)
        then have "recorded tm x = recorded t1 x" using k1 x nip by (auto simp: keeps_decided_def not_less)
        then have "recorded t1 x = None" using m(2) st None by (simp add: recorded_def)
        with False nfrozen None st t2 table_wfD(2) [OF wf] show ?thesis
          by (simp add: status_sections_def tx_status_of_recorded)
      qed
    qed
  qed
qed

theorem status_read_linearizable_witness:
  "let t1 = tx_commit (fst (tx_begin (with_exception_capacity 4))) 1;
       t2 = fst (freeze_below_bounded t1 2 5) in
   status_sections t1 (spill_lookup t1) t2 1 = tx_status_of t1 1"
proof -
  let ?t = "tx_commit (fst (tx_begin (with_exception_capacity 4))) 1"
  have nx: "tt_next_xid ?t = 2" by (simp add: tx_commit_def tx_begin_def with_exception_capacity_def)
  then have "table_step\<^sup>*\<^sup>* ?t (fst (freeze_below_bounded ?t 2 5))"
    by (intro r_into_rtranclp step_freeze) simp
  then show ?thesis
    unfolding Let_def
    by (intro status_read_linearizable [OF one_commit_wf(1) rtranclp.rtrancl_refl]) (simp_all add: nx)
qed

text \<open>
  The write-conflict test is exact: a transaction is concurrent with a snapshot exactly
  when it is a real transaction other than the snapshot's own, has not aborted, and is not
  visible to the snapshot.
\<close>

theorem concurrent_iff_not_visible:
  "is_concurrent t y s \<longleftrightarrow>
     y \<noteq> 0 \<and> y \<noteq> sn_xid s \<and> tx_status_of t y \<noteq> Aborted \<and> \<not> xid_visible t y s"
  by (cases "tx_status_of t y") (auto simp: is_concurrent_def xid_visible_def)

section \<open>Freezing\<close>

lemma freeze_loop_count:
  "freeze_loop t oldest n k r = (t', Ok (k', r', full)) \<Longrightarrow> k \<le> n \<Longrightarrow> k' \<le> n"
proof (induction t oldest n k r rule: freeze_loop.induct)
  case (1 t oldest n k r)
  show ?case
  proof (cases "k < n \<and> tt_frozen_xid t < oldest")
    case True
    with 1 show ?thesis
      by (subst (asm) freeze_loop.simps)
         (auto split: result.splits option.splits tx_status.splits if_splits)
  qed (use 1 in \<open>auto simp: freeze_loop.simps [of t oldest n k r]\<close>)
qed

text \<open>
  C22. Advancing the watermark changes no transaction's status, keeps the table invariant and
  the bound on abort exceptions, never fails while the spill answers, and stops short of the
  requested id only for one of the reported reasons.
\<close>

theorem freeze_keeps_status:
  assumes wf: "table_wf t" and oldest: "oldest \<le> tt_next_xid t"
    and freeze: "freeze_below_bounded t oldest n = (t', r)"
  shows "table_wf t' \<and> (\<forall>x. tx_status_of t' x = tx_status_of t x) \<and>
    (length (tt_abort_exceptions t) \<le> tt_abort_exception_capacity t \<longrightarrow>
       length (tt_abort_exceptions t') \<le> tt_abort_exception_capacity t') \<and>
    (\<exists>rep. r = Ok rep \<and> (oldest \<le> tt_frozen_xid t' \<or> fr_limit_reached rep \<or> fr_blocked rep \<or>
       fr_exception_capacity_full rep))"
proof -
  obtain t1 res where loop: "freeze_loop t oldest n 0 0 = (t1, res)" by (cases "freeze_loop t oldest n 0 0")
  note ok = freeze_loop_ok [OF wf oldest loop]
  then obtain k r' full where res: "res = Ok (k, r', full)"
    "\<not> k < n \<or> oldest \<le> tt_frozen_xid t1 \<or>
       (if full then tt_abort_exception_capacity t1 \<le> length (tt_abort_exceptions t1)
        else tt_frozen_xid t1 \<in> set (tt_in_progress t1))" by blast
  have k: "k \<le> n" using freeze_loop_count [of t oldest n 0 0] loop res(1) by simp
  have t': "t' = t1" using freeze loop by (simp add: freeze_below_bounded_def)
  have wf1: "table_wf t1" using ok by simp
  have ts: "terminal_status t1 (tt_frozen_xid t1) = Ok (recorded t1 (tt_frozen_xid t1))"
    using table_wfD(2) [OF wf1] by (rule terminal_status_recorded)
  let ?rec = "recorded t1 (tt_frozen_xid t1)"
  define still where "still \<longleftrightarrow> tt_frozen_xid t1 < oldest \<and>
      (case ?rec of Some Committed \<Rightarrow> True | Some InProgress \<Rightarrow> False
       | _ \<Rightarrow> length (tt_abort_exceptions t1) < tt_abort_exception_capacity t1)"
  have "snd (freeze_below_bounded t oldest n) = Ok \<lparr> fr_frozen = k, fr_exceptions_recorded = r', fr_limit_reached = (k = n \<and> still),
      fr_blocked = (tt_frozen_xid t1 < oldest \<and> \<not> still \<and> \<not> full), fr_exception_capacity_full = full \<rparr>"
    by (cases "tt_frozen_xid t1 < oldest") (simp_all add: freeze_below_bounded_def loop res(1) ts still_def)
  moreover have "r = snd (freeze_below_bounded t oldest n)" using freeze by simp
  moreover have "\<not> still" if "tt_frozen_xid t1 \<in> set (tt_in_progress t1)"
    using that in_progress_recorded [OF wf1, of "tt_frozen_xid t1"] by (simp add: still_def)
  ultimately have "\<exists>rep. r = Ok rep \<and> (oldest \<le> tt_frozen_xid t1 \<or> fr_limit_reached rep \<or> fr_blocked rep \<or>
       fr_exception_capacity_full rep)"
    using res(2) k by (cases full) (auto simp: not_le)
  with ok t' show ?thesis unfolding same_outcomes_def by blast
qed

theorem freeze_keeps_status_witness:
  "let t = tx_commit (fst (tx_begin (with_exception_capacity 4))) 1 in
   \<exists>t' rep. freeze_below_bounded t 2 5 = (t', Ok rep) \<and> tx_status_of t' 1 = Committed"
proof -
  let ?t = "tx_commit (fst (tx_begin (with_exception_capacity 4))) 1"
  obtain t' r where f: "freeze_below_bounded ?t 2 5 = (t', r)" by (metis prod.exhaust)
  have "2 \<le> tt_next_xid ?t" by (simp add: tx_commit_def tx_begin_def with_exception_capacity_def)
  from freeze_keeps_status [OF one_commit_wf(1) this f] f one_commit_wf(2) [of 4] show ?thesis
    by (auto simp: Let_def)
qed


section \<open>After a restart\<close>

lemma fold_bs_insert: "bs_inv s \<Longrightarrow> bs_inv (fold bs_insert xs s) \<and> set (fold bs_insert xs s) = set xs \<union> set s"
  by (induction xs arbitrary: s) auto

lemma max_xid_bound:
  assumes "outcomes_wf r" "ro_start r = 0" "o1 \<in> set (ro_entries r)"
  shows "\<exists>m. max_xid r = Some m \<and> outcome_xid o1 \<le> m"
proof -
  have live: "live_entries r = ro_entries r" "ro_entries r \<noteq> []" using assms by (auto simp: live_entries_def)
  have "outcome_xid o1 \<le> last (map outcome_xid (ro_entries r))"
    using assms strict_sorted_last [of "map outcome_xid (ro_entries r)" "outcome_xid o1"]
    by (simp add: outcomes_wf_def)
  with live show ?thesis by (simp add: max_xid_def last_map)
qed

lemma open_table_sound:
  fixes c :: nat and m :: xid
  assumes f: "0 < f" "f \<le> n" "\<forall>e \<in> set exs. e < f"
    and os: "outcomes_wf os" "ro_start os = 0" "\<forall>o1 \<in> set (ro_entries os). outcome_xid o1 \<noteq> - 1"
    and spill: "\<forall>x. \<exists>st. g x = Inr st \<and> st \<noteq> Some InProgress"
      "\<forall>x st. g x = Inr (Some st) \<longrightarrow> f \<le> x \<and> x < n \<and> outcomes_map os x \<in> {None, Some st}"
  defines "t \<equiv> open_table c g f n exs os m"
  shows "table_wf t \<and> tt_in_progress t = [] \<and> tt_frozen_xid t = f \<and> sat_succ m \<le> tt_next_xid t \<and>
    (\<forall>x. 0 < x \<and> x < tt_next_xid t \<longrightarrow> tx_status_of t x =
       (if x < f then if x \<in> set exs then Aborted else Committed
        else case outcomes_map os x of Some st \<Rightarrow> st
             | None \<Rightarrow> (case g x of Inr (Some st) \<Rightarrow> st | _ \<Rightarrow> Aborted)))"
proof -
  define nx where "nx = max (max (case max_xid os of Some k \<Rightarrow> max (max (max 1 n) 1) (sat_succ k)
      | None \<Rightarrow> max (max 1 n) 1) (sat_succ m)) 1"
  have "1 \<le> f" using f(1) by (simp add: word_le_nat_alt word_less_nat_alt)
  then have mx: "max 1 f = f" "n \<le> max (max 1 n) 1" by auto
  have t: "t = \<lparr> tt_next_xid = nx, tt_status = [], tt_recovered = discard_below os f, tt_in_progress = [],
      tt_frozen_xid = f, tt_abort_exceptions = fold bs_insert exs [], tt_abort_exception_capacity = c,
      tt_spill = Some g, tt_open_horizon = nx \<rparr>"
    by (simp add: t_def nx_def open_table_def Let_def with_exception_capacity_def set_spill_def tx_restore_def mx
        record_recovered_batch_def ensure_next_xid_at_least_def seal_previous_incarnations_def
        split: option.splits)
  have nx: "n \<le> nx" "sat_succ m \<le> nx" "\<And>k. max_xid os = Some k \<Longrightarrow> sat_succ k \<le> nx"
    by (auto simp: nx_def le_max_iff_disj split: option.splits)
  note db = discard_below_map [OF os(1,2), of f]
  note ex = fold_bs_insert [of "[]" exs]
  have srt: "table_sorted t" using db(1) ex by (simp add: t table_sorted_def)
  have sl: "spill_lookup t x = g x" for x by (simp add: t spill_lookup_def)
  have so: "spill_ok t" using spill(1) by (simp add: spill_ok_def sl)
  have res: "resident_terminal_status t x = (if f \<le> x then outcomes_map os x else None)" for x
    using recorded_resident [OF srt, of x] db(2) [of x] by (simp add: t)
  have "x < nx" if "outcomes_map os x \<noteq> None" for x
  proof -
    from that obtain o1 where o1: "o1 \<in> set (ro_entries os)" "outcome_xid o1 = x"
      using os(1,2) by (auto simp: outcomes_map_Some live_entries_def)
    obtain k where k: "max_xid os = Some k" "x \<le> k" using max_xid_bound [OF os(1,2) o1(1)] o1(2) by auto
    have "k \<noteq> - 1" using k(1) os(2,3)
      by (auto simp: max_xid_def live_entries_def split: if_splits dest: last_in_set)
    with k nx(3) [OF k(1)] sat_succ_max [of k] show ?thesis by auto
  qed
  then have rx: "x < nx" if "recorded t x \<noteq> None" for x
    using that res [of x] spill(2) nx(1)
    by (auto simp: recorded_def sl split: if_splits sum.splits option.splits dest: order.strict_trans2)
  have st: "tx_status_of t x = (if x < f then if x \<in> set exs then Aborted else Committed
        else case outcomes_map os x of Some st \<Rightarrow> st
             | None \<Rightarrow> (case g x of Inr (Some st) \<Rightarrow> st | _ \<Rightarrow> Aborted))"
    if "0 < x" "x < nx" for x
  proof -
    obtain st' where g: "g x = Inr st'" using spill(1) by blast
    have fl: "tt_frozen_xid t = f" "tt_open_horizon t = nx" "set (tt_abort_exceptions t) = set exs" "x \<noteq> 0"
      using ex that by (auto simp: t)
    show ?thesis
    proof (cases "x < f")
      case True
      with so fl show ?thesis by (simp add: tx_status_of_recorded below_watermark_def)
    next
      case False
      then have "recorded t x = (case outcomes_map os x of Some st \<Rightarrow> Some st | None \<Rightarrow> st')"
        using res [of x] g by (simp add: recorded_def sl not_less)
      with False so fl that g show ?thesis
        by (cases "outcomes_map os x"; cases st') (simp_all add: tx_status_of_recorded)
    qed
  qed
  have "tx_status_of t x = st'" if g: "g x = Inr (Some st')" "x \<noteq> 0" for x st'
  proof -
    have "f \<le> x" "x < nx" "outcomes_map os x \<in> {None, Some st'}"
      using spill(2) nx(1) g by (auto dest: order.strict_trans2)
    with st [of x] g show ?thesis by (auto simp: word_gt_0)
  qed
  then have "table_wf t"
    unfolding table_wf_def using srt so rx f ex nx(1) by (auto simp: sl) (auto simp: t)
  then show ?thesis using st nx(2) by (auto simp: t)
qed

text \<open>
  C23. After a restart every earlier transaction has an outcome: below the persisted
  watermark, aborted when it is among the persisted exceptions and committed otherwise;
  above it, what the log or the status spill recorded, and aborted when neither has a record.
  No id that appears in any of them is issued again, and the invariant holds.
\<close>

theorem reopened_statuses:
  fixes c :: nat and m :: xid
  assumes f: "0 < f" "f \<le> n" "\<forall>e \<in> set exs. e < f"
    and os: "outcomes_wf os" "ro_start os = 0" "\<forall>o1 \<in> set (ro_entries os). outcome_xid o1 \<noteq> - 1"
    and spill: "\<forall>x. \<exists>st. g x = Inr st \<and> st \<noteq> Some InProgress"
      "\<forall>x st. g x = Inr (Some st) \<longrightarrow> f \<le> x \<and> x < n \<and> outcomes_map os x \<in> {None, Some st}"
  defines "t \<equiv> open_table c g f n exs os m"
  shows "table_wf t \<and> tt_in_progress t = [] \<and> tt_frozen_xid t = f \<and> sat_succ m \<le> tt_next_xid t \<and>
    (\<forall>x. 0 < x \<and> x < tt_next_xid t \<longrightarrow> tx_status_of t x =
       (if x < f then if x \<in> set exs then Aborted else Committed
        else case outcomes_map os x of Some st \<Rightarrow> st
             | None \<Rightarrow> (case g x of Inr (Some st) \<Rightarrow> st | _ \<Rightarrow> Aborted)))"
  unfolding t_def by (rule open_table_sound [OF f os spill])

theorem reopened_statuses_witness:
  "let t = open_table 4 (\<lambda>_. Inr None) 5 7 [2] \<lparr> ro_entries = [outcome_committed 5], ro_start = 0 \<rparr> 6 in
   tx_status_of t 2 = Aborted \<and> tx_status_of t 3 = Committed \<and> tx_status_of t 5 = Committed \<and>
   tx_status_of t 6 = Aborted"
proof -
  let ?os = "\<lparr> ro_entries = [outcome_committed 5], ro_start = 0 \<rparr>"
  let ?t = "open_table 4 (\<lambda>_. Inr None) 5 7 [2] ?os 6"
  have "tt_next_xid ?t = 7" by (simp add: open_table_def ensure_next_xid_at_least_def set_spill_def
        seal_previous_incarnations_def record_recovered_batch_def max_xid_def live_entries_def tx_restore_def
        with_exception_capacity_def sat_succ_def Let_def)
  with reopened_statuses [of 5 7 "[2]" ?os "\<lambda>_. Inr None" 4 6] show ?thesis
    by (simp add: outcomes_wf_def outcomes_map_def live_entries_def Let_def)
qed

section \<open>Jumping the watermark\<close>

lemma pop_below_map:
  "outcomes_wf r \<Longrightarrow> outcomes_wf (pop_below r target) \<and>
     (\<forall>x. target \<le> x \<longrightarrow> outcomes_map (pop_below r target) x = outcomes_map r x)"
proof (induction r target rule: pop_below.induct)
  case (1 r target)
  show ?case
  proof (cases "case outcomes_front r of Some o1 \<Rightarrow> outcome_xid o1 < target | None \<Rightarrow> False")
    case True
    then obtain o1 where o1: "outcomes_front r = Some o1" "outcome_xid o1 < target"
      by (auto split: option.splits)
    with 1(1) [OF True] pop_front_live(1) [OF 1(2)] pop_front_map [OF 1(2) o1(1)] True
    show ?thesis by (subst (1 2) pop_below.simps) auto
  next
    case False
    with 1(2) show ?thesis by (subst (1 2) pop_below.simps) simp
  qed
qed



text \<open>A table as it is after a restart: watermark 5, then outcomes recovered from the log.\<close>

definition reopened_table :: "recovered_outcome list \<Rightarrow> nat \<Rightarrow> table_inner" where
  "reopened_table es capacity =
     seal_previous_incarnations
       (record_recovered_batch (tx_restore (with_exception_capacity capacity) 5 5 [])
         \<lparr> ro_entries = es, ro_start = 0 \<rparr>)"

lemmas table_eval = Let_def reopened_table_def seal_previous_incarnations_def record_recovered_batch_def
  tx_restore_def with_exception_capacity_def max_xid_def live_entries_def discard_below_def
  partition_point_def binary_search_by_def bsearch.simps sat_succ_def compare_def

lemma reopened_two:
  "reopened_table [outcome_committed 5, outcome_aborted 6] 0 =
     \<lparr> tt_next_xid = 7, tt_status = [],
       tt_recovered = \<lparr> ro_entries = [outcome_committed 5, outcome_aborted 6], ro_start = 0 \<rparr>,
       tt_in_progress = [], tt_frozen_xid = 5, tt_abort_exceptions = [], tt_abort_exception_capacity = 0,
       tt_spill = None, tt_open_horizon = 7 \<rparr>"
  by (simp add: table_eval)

lemma reopened_one:
  "reopened_table [outcome_aborted 5] 0 =
     \<lparr> tt_next_xid = 6, tt_status = [],
       tt_recovered = \<lparr> ro_entries = [outcome_aborted 5], ro_start = 0 \<rparr>,
       tt_in_progress = [], tt_frozen_xid = 5, tt_abort_exceptions = [], tt_abort_exception_capacity = 0,
       tt_spill = None, tt_open_horizon = 6 \<rparr>"
  by (simp add: table_eval)



end
