(* ===== verification/Page_File.thy ===== *)
theory Page_File
  imports Page Effects Std_Collections
begin

text \<open>
  The file layer of the page store (\<open>crates/bicdb-page/src/manager.rs\<close> and \<open>pio.rs\<close>):
  segment files as byte lists, the three layouts (monolithic, extent-segmented, migrating),
  positioned reads and writes of pages, and fault injection. Files are what the operating
  system returns on a read; a positioned write transfers all its bytes unless fault
  injection shortens it. Metrics, the backup snapshot and its extent tracker are not modelled:
  the store has none active.
\<close>

section \<open>Files\<close>

definition read_at :: "bytes \<Rightarrow> nat \<Rightarrow> u64 \<Rightarrow> bytes" where
  "read_at file len offset = slice_of file (unat offset) len"

definition set_len :: "bytes \<Rightarrow> nat \<Rightarrow> bytes" where
  "set_len file n = take n file @ replicate (n - length file) 0"

definition write_at :: "bytes \<Rightarrow> bytes \<Rightarrow> u64 \<Rightarrow> bytes" where
  "write_at file buffer offset =
     put (set_len file (max (length file) (unat offset + length buffer))) (unat offset) buffer"

subsection \<open>Fault injection\<close>

record fault_injection =
  fi_tear_write :: "(u64 \<times> nat) option"
  fi_fail_write :: "u64 option"
  fi_writes :: u64

definition no_faults :: fault_injection where
  "no_faults = \<lparr> fi_tear_write = None, fi_fail_write = None, fi_writes = 0 \<rparr>"

definition tear_nth_write :: "fault_injection \<Rightarrow> u64 \<Rightarrow> nat \<Rightarrow> fault_injection" where
  "tear_nth_write f n bytes = f\<lparr>fi_tear_write := Some (n, bytes)\<rparr>"

definition fail_nth_write :: "fault_injection \<Rightarrow> u64 \<Rightarrow> fault_injection" where
  "fail_nth_write f n = f\<lparr>fi_fail_write := Some n\<rparr>"

definition faults_clear :: "fault_injection \<Rightarrow> fault_injection" where
  "faults_clear f = f\<lparr>fi_tear_write := None, fi_fail_write := None\<rparr>"

definition intercept :: "fault_injection \<Rightarrow> nat \<Rightarrow> fault_injection \<times> nat res" where
  "intercept f len =
     (let index = fi_writes f + 1;
          f' = f\<lparr>fi_writes := index\<rparr>
      in if fi_fail_write f = Some index then (f', Err Io)
         else case fi_tear_write f of
           Some (n, bytes) \<Rightarrow> if n = index then (f', Ok (min bytes len)) else (f', Ok len)
         | None \<Rightarrow> (f', Ok len))"

section \<open>The store and its superblock record\<close>

record superblock =
  sb_page_count :: u64
  sb_free_list_head :: page_id
  sb_free_page_count :: u64
  sb_generation :: u64
  sb_root_page :: page_id
  sb_checkpoint_lsn :: u64
  sb_extent_pages :: u64
  sb_migration_target_pages :: u64
  sb_migration_watermark :: u64

definition superblock_default :: superblock where
  "superblock_default =
     \<lparr> sb_page_count = 0, sb_free_list_head = 0, sb_free_page_count = 0, sb_generation = 0,
       sb_root_page = 0, sb_checkpoint_lsn = 0, sb_extent_pages = 0,
       sb_migration_target_pages = 0, sb_migration_watermark = 0 \<rparr>"

record page_store =
  ps_backup_format :: bool
  ps_segments :: "bytes list"
  ps_dirty_segments :: "nat btree_set"
  ps_extent_pages :: u64
  ps_migration_target_pages :: u64
  ps_migration_watermark :: u64
  ps_page_size :: nat
  ps_fsync :: bool
  ps_meta :: superblock
  ps_faults :: fault_injection

type_synonym 'a store_m = "(page_store, page_error, 'a) sm"

section \<open>Layout\<close>

abbreviation (input) MIN_EXTENT_BYTES :: u64 where "MIN_EXTENT_BYTES \<equiv> 1048576"

definition validate_extent_bytes :: "u64 \<Rightarrow> nat \<Rightarrow> unit res" where
  "validate_extent_bytes extent_bytes page_size =
     (if extent_bytes = 0 then Ok ()
      else if extent_bytes < MIN_EXTENT_BYTES \<or> extent_bytes mod of_nat page_size \<noteq> 0
      then Err (InvalidExtentBytes extent_bytes page_size)
      else Ok ())"

definition locate :: "page_store \<Rightarrow> page_id \<Rightarrow> nat \<times> u64" where
  "locate s page_id =
     (let extent_pages = ps_extent_pages s; target = ps_migration_target_pages s in
      if extent_pages > 0
      then (unat (page_id div extent_pages), page_id mod extent_pages * of_nat (ps_page_size s))
      else if target > 0 \<and> page_id < ps_migration_watermark s
      then (unat (page_id div target), page_id mod target * of_nat (ps_page_size s))
      else (0, file_offset page_id (of_nat (ps_page_size s))))"

definition ensure_segment :: "nat \<Rightarrow> page_store \<Rightarrow> page_store" where
  "ensure_segment index s =
     (if index < length (ps_segments s) then s
      else s\<lparr>ps_segments := ps_segments s @ replicate (Suc index - length (ps_segments s)) []\<rparr>)"

definition mark_segment_dirty :: "nat \<Rightarrow> page_store \<Rightarrow> page_store" where
  "mark_segment_dirty index s = s\<lparr>ps_dirty_segments := bs_insert index (ps_dirty_segments s)\<rparr>"

definition segment_target :: "page_store \<Rightarrow> u64 \<Rightarrow> nat \<Rightarrow> nat \<Rightarrow> u64" where
  "segment_target s page_count last_segment index =
     (if index < last_segment then ps_extent_pages s * of_nat (ps_page_size s)
      else (page_count - of_nat index * ps_extent_pages s) * of_nat (ps_page_size s))"

definition grow_segment :: "u64 \<Rightarrow> nat \<Rightarrow> nat \<Rightarrow> page_store \<Rightarrow> page_store" where
  "grow_segment page_count last_segment index s =
     (let target = unat (segment_target s page_count last_segment index);
          file = ps_segments s ! index
      in if length file < target
         then mark_segment_dirty index (s\<lparr>ps_segments := (ps_segments s)[index := set_len file target]\<rparr>)
         else s)"

definition extend_to :: "u64 \<Rightarrow> unit store_m" where
  "extend_to page_count s =
     (if ps_extent_pages s = 0
      then if unat page_count * ps_page_size s < 2 ^ 64
           then (mark_segment_dirty 0
                   (s\<lparr>ps_segments := (ps_segments s)[0 :=
                        set_len (ps_segments s ! 0) (unat page_count * ps_page_size s)]\<rparr>), Ok ())
           else (s, Err (InvalidPageSize (ps_page_size s)))
      else let last_segment = unat ((page_count - 1) div ps_extent_pages s);
               s1 = ensure_segment last_segment s
           in (fold (grow_segment page_count last_segment) [0..<Suc last_segment] s1, Ok ()))"

definition truncate_layout_to :: "u64 \<Rightarrow> unit store_m" where
  "truncate_layout_to page_count s =
     (if ps_extent_pages s = 0
      then if unat page_count * ps_page_size s < 2 ^ 64
           then (s\<lparr>ps_segments := (ps_segments s)[0 :=
                     set_len (ps_segments s ! 0) (unat page_count * ps_page_size s)]\<rparr>, Ok ())
           else (s, Err (InvalidPageSize (ps_page_size s)))
      else let last_segment = unat ((max page_count 1 - 1) div ps_extent_pages s);
               segments = take (last_segment + 1) (ps_segments s);
               tail_bytes = (page_count - of_nat last_segment * ps_extent_pages s) * of_nat (ps_page_size s)
           in if last_segment < length segments
              then (s\<lparr>ps_segments := segments[last_segment := set_len (segments ! last_segment) (unat tail_bytes)]\<rparr>, Ok ())
              else (s\<lparr>ps_segments := segments\<rparr>, Panic))"

section \<open>Reading and writing pages\<close>

definition SUPERBLOCK_MAGIC :: bytes where
  "SUPERBLOCK_MAGIC = [0x42, 0x49, 0x43, 0x44, 0x42, 0x50, 0x47, 0x00]"

definition SUPERBLOCK_MAGIC_SEGMENTED :: bytes where
  "SUPERBLOCK_MAGIC_SEGMENTED = [0x42, 0x49, 0x43, 0x44, 0x42, 0x50, 0x47, 0x32]"

definition SUPERBLOCK_MAGIC_TRACKED :: bytes where
  "SUPERBLOCK_MAGIC_TRACKED = [0x42, 0x49, 0x43, 0x44, 0x42, 0x50, 0x47, 0x33]"

definition SUPERBLOCK_MAGIC_TRACKED_MONOLITHIC :: bytes where
  "SUPERBLOCK_MAGIC_TRACKED_MONOLITHIC = [0x42, 0x49, 0x43, 0x44, 0x42, 0x50, 0x47, 0x34]"

definition read_page_unchecked :: "(bytes \<Rightarrow> u32) \<Rightarrow> page_store \<Rightarrow> page_id \<Rightarrow> (page_header \<times> bytes) res" where
  "read_page_unchecked crc s page_id =
     (let (segment, offset) = locate s page_id; want = ps_page_size s in
      if length (ps_segments s) \<le> segment then Err (ShortRead page_id 0 want)
      else let buffer = read_at (ps_segments s ! segment) want offset in
        if length buffer \<noteq> want then Err (ShortRead page_id (length buffer) want)
        else rbind (verify crc buffer page_id) (\<lambda>_.
             rmap (\<lambda>header. (header, buffer)) (header_decode buffer)))"

definition read_page :: "(bytes \<Rightarrow> u32) \<Rightarrow> page_store \<Rightarrow> page_id \<Rightarrow> (page_header \<times> bytes) res" where
  "read_page crc s page_id =
     (if page_id \<ge> sb_page_count (ps_meta s)
      then Err (OutOfBounds page_id (sb_page_count (ps_meta s)))
      else read_page_unchecked crc s page_id)"

definition read_header :: "(bytes \<Rightarrow> u32) \<Rightarrow> page_store \<Rightarrow> page_id \<Rightarrow> page_header res" where
  "read_header crc s page_id = rmap fst (read_page_unchecked crc s page_id)"

definition validate_write_completion :: "page_id \<Rightarrow> nat \<Rightarrow> nat \<Rightarrow> unit res" where
  "validate_write_completion page_id requested written =
     (if written = requested then Ok () else Err (ShortWrite page_id written requested))"

definition tracked_magic :: "page_store \<Rightarrow> bytes" where
  "tracked_magic s =
     (if ps_extent_pages s = 0 \<and> ps_migration_target_pages s = 0
      then SUPERBLOCK_MAGIC_TRACKED_MONOLITHIC else SUPERBLOCK_MAGIC_TRACKED)"

definition write_page_raw :: "(bytes \<Rightarrow> u32) \<Rightarrow> page_id \<Rightarrow> bytes \<Rightarrow> u64 \<Rightarrow> unit store_m" where
  "write_page_raw crc page_id buffer generation s =
     (let buffer = (if page_id = SUPERBLOCK_PAGE_ID \<and> ps_backup_format s
                    then put buffer PAGE_HEADER_BYTES (tracked_magic s) else buffer);
          buffer = finalize crc buffer generation;
          (segment, offset) = locate s page_id;
          s = ensure_segment segment s;
          (faults, to_write) = intercept (ps_faults s) (length buffer);
          s = s\<lparr>ps_faults := faults\<rparr>
      in case to_write of
           Ok n \<Rightarrow>
             let data = take n buffer;
                 s = s\<lparr>ps_segments := (ps_segments s)[segment := write_at (ps_segments s ! segment) data offset]\<rparr>
             in (case validate_write_completion page_id n (length data) of
                   Ok _ \<Rightarrow> (mark_segment_dirty segment s, Ok ())
                 | Err e \<Rightarrow> (s, Err e)
                 | Panic \<Rightarrow> (s, Panic))
         | Err e \<Rightarrow> (s, Err e)
         | Panic \<Rightarrow> (s, Panic))"

definition write_page :: "(bytes \<Rightarrow> u32) \<Rightarrow> page_id \<Rightarrow> bytes \<Rightarrow> unit store_m" where
  "write_page crc page_id buffer s =
     (let generation = sb_generation (ps_meta s) + 1 in
      write_page_raw crc page_id buffer generation
        (s\<lparr>ps_meta := (ps_meta s)\<lparr>sb_generation := generation\<rparr>\<rparr>))"

definition sync_data_observed :: "unit store_m" where
  "sync_data_observed s =
     (if \<exists>index \<in> set (ps_dirty_segments s). length (ps_segments s) \<le> index then (s, Err Io)
      else (s\<lparr>ps_dirty_segments := []\<rparr>, Ok ()))"

definition store_sync :: "unit store_m" where
  "store_sync s = (if ps_fsync s then sync_data_observed s else (s, Ok ()))"

definition store_page_count :: "page_store \<Rightarrow> u64" where
  "store_page_count s = sb_page_count (ps_meta s)"

definition store_free_page_count :: "page_store \<Rightarrow> u64" where
  "store_free_page_count s = sb_free_page_count (ps_meta s)"

definition store_free_list_head :: "page_store \<Rightarrow> page_id" where
  "store_free_list_head s = sb_free_list_head (ps_meta s)"

definition extent_migration_status :: "page_store \<Rightarrow> (u64 \<times> u64) option" where
  "extent_migration_status s =
     (if ps_migration_target_pages s > 0
      then Some (ps_migration_target_pages s, ps_migration_watermark s) else None)"

section \<open>Pages do not alias\<close>

text \<open>
  A page is addressable when its end has a 64-bit file offset. The bytes a store holds for a
  page are \<open>page_image\<close>; what reads do depends on them only.
\<close>

definition addressable :: "page_store \<Rightarrow> page_id \<Rightarrow> bool" where
  "addressable s pid \<longleftrightarrow> unat pid * ps_page_size s + ps_page_size s \<le> 2 ^ 64"

definition layout_ok :: "page_store \<Rightarrow> bool" where
  "layout_ok s \<longleftrightarrow> MIN_PAGE_SIZE \<le> ps_page_size s \<and> ps_page_size s \<le> MAX_PAGE_SIZE \<and> ps_segments s \<noteq> []"

definition page_image :: "page_store \<Rightarrow> page_id \<Rightarrow> bytes option" where
  "page_image s pid =
     (let (segment, offset) = locate s pid in
      if segment < length (ps_segments s) \<and>
         unat offset + ps_page_size s \<le> length (ps_segments s ! segment)
      then Some (slice_of (ps_segments s ! segment) (unat offset) (ps_page_size s)) else None)"

lemma unat_page_size: "layout_ok s \<Longrightarrow> unat (of_nat (ps_page_size s) :: u64) = ps_page_size s"
  by (rule unat_of_nat_u64) (simp add: layout_ok_def)

lemma ucast_page_size: "layout_ok s \<Longrightarrow> ucast (of_nat (ps_page_size s) :: u32) = (of_nat (ps_page_size s) :: u64)"
  by (simp add: word_eq_iff_unsigned unsigned_ucast_eq layout_ok_def unsigned_of_nat take_bit_nat_eq_self)

text \<open>The segment of a page and its index there, over natural numbers.\<close>

definition locate_slot :: "page_store \<Rightarrow> nat \<Rightarrow> nat \<times> nat" where
  "locate_slot s p =
     (let e = unat (ps_extent_pages s); t = unat (ps_migration_target_pages s) in
      if 0 < e then (p div e, p mod e)
      else if 0 < t \<and> p < unat (ps_migration_watermark s) then (p div t, p mod t)
      else (0, p))"

lemma addressable_mod:
  assumes "layout_ok s" "addressable s pid"
  shows "unat (pid mod e * of_nat (ps_page_size s) :: u64) = unat pid mod unat e * ps_page_size s"
proof -
  have "unat pid mod unat e * ps_page_size s \<le> unat pid * ps_page_size s" by simp
  also have "\<dots> < 2 ^ 64" using assms by (simp add: addressable_def layout_ok_def)
  finally show ?thesis
    using assms(1) by (subst unat_mult_u64) (simp_all add: unat_page_size unat_mod)
qed

lemma locate_locate_slot:
  assumes "layout_ok s" "addressable s pid"
  shows "locate s pid = (i, off) \<Longrightarrow> \<exists>k. locate_slot s (unat pid) = (i, k) \<and> unat off = k * ps_page_size s"
proof -
  have "unat (pid * of_nat (ps_page_size s) :: u64) = unat pid * ps_page_size s"
    using assms by (subst unat_mult_u64) (simp_all add: unat_page_size addressable_def layout_ok_def)
  then show "locate s pid = (i, off) \<Longrightarrow> \<exists>k. locate_slot s (unat pid) = (i, k) \<and> unat off = k * ps_page_size s"
    using assms
    by (auto simp: locate_def locate_slot_def Let_def addressable_mod file_offset_def ucast_page_size unat_div
        word_less_nat_alt unat_eq_zero split: if_splits)
qed

lemma locate_slot_inject: "locate_slot s p = locate_slot s q \<longleftrightarrow> p = q"
proof -
  have eq: "p = q" if "p div n = q div n" "p mod n = q mod n" for n
    using that by (metis div_mult_mod_eq)
  have small: "p mod n = p" if "p div n = 0" "0 < n" for p n :: nat
    using that by (simp add: div_eq_0_iff)
  show ?thesis
    by (auto simp: locate_slot_def Let_def dest: eq split: if_splits) (metis small)+
qed

lemma mult_apart:
  fixes a b :: nat
  assumes "a \<noteq> b"
  shows "a * n + n \<le> b * n \<or> b * n + n \<le> a * n"
proof -
  have "Suc a \<le> b \<or> Suc b \<le> a" using assms by auto
  then show ?thesis
    using mult_le_mono1 [of "Suc a" b n] mult_le_mono1 [of "Suc b" a n] by auto
qed

lemma locate_disjoint:
  assumes "layout_ok s" "addressable s p" "addressable s q" "p \<noteq> q"
    and "locate s p = (i, a)" "locate s q = (i, b)"
  shows "unat a + ps_page_size s \<le> unat b \<or> unat b + ps_page_size s \<le> unat a"
proof -
  obtain k l where "locate_slot s (unat p) = (i, k)" "unat a = k * ps_page_size s"
      "locate_slot s (unat q) = (i, l)" "unat b = l * ps_page_size s"
    using locate_locate_slot [OF assms(1,2,5)] locate_locate_slot [OF assms(1,3,6)] by blast
  moreover then have "k \<noteq> l" using assms(4) locate_slot_inject [of s "unat p" "unat q"] by (auto simp: word_unat_eq_iff)
  ultimately show ?thesis using mult_apart by simp
qed

section \<open>What a page write does\<close>

lemma length_set_len [simp]: "length (set_len f n) = n"
  by (simp add: set_len_def)

lemma slice_set_len: "i + n \<le> length f \<Longrightarrow> i + n \<le> m \<Longrightarrow> slice_of (set_len f m) i n = slice_of f i n"
  by (simp add: set_len_def slice_append_left slice_take)

lemma length_write_at [simp]: "length (write_at f b off) = max (length f) (unat off + length b)"
  by (simp add: write_at_def)

lemma write_at_same: "slice_of (write_at f b off) (unat off) (length b) = b"
  by (simp add: write_at_def slice_put_same)

lemma write_at_other:
  "i + n \<le> length f \<Longrightarrow> i + n \<le> unat off \<or> unat off + length b \<le> i \<Longrightarrow>
   slice_of (write_at f b off) i n = slice_of f i n"
  by (simp add: write_at_def slice_put_other slice_set_len)

text \<open>
  A fault-free store is one with no fault armed. The fields a write leaves alone are collected
  in \<open>store_frame\<close>.
\<close>

definition quiet :: "page_store \<Rightarrow> bool" where
  "quiet s \<longleftrightarrow> fi_tear_write (ps_faults s) = None \<and> fi_fail_write (ps_faults s) = None"

definition store_frame :: "page_store \<Rightarrow> page_store \<Rightarrow> bool" where
  "store_frame s s' \<longleftrightarrow>
     ps_backup_format s' = ps_backup_format s \<and> ps_extent_pages s' = ps_extent_pages s \<and>
     ps_migration_target_pages s' = ps_migration_target_pages s \<and>
     ps_migration_watermark s' = ps_migration_watermark s \<and> ps_page_size s' = ps_page_size s \<and>
     ps_fsync s' = ps_fsync s"

lemma locate_frame: "store_frame s s' \<Longrightarrow> locate s' = locate s"
  by (rule ext) (simp add: locate_def store_frame_def Let_def)

lemma addressable_frame: "store_frame s s' \<Longrightarrow> addressable s' = addressable s"
  by (rule ext) (simp add: addressable_def store_frame_def)

lemma ensure_segment_frame [simp]:
  "ps_faults (ensure_segment i s) = ps_faults s" "ps_meta (ensure_segment i s) = ps_meta s"
  "ps_page_size (ensure_segment i s) = ps_page_size s"
  "ps_dirty_segments (ensure_segment i s) = ps_dirty_segments s"
  "store_frame s (ensure_segment i s)"
  by (simp_all add: ensure_segment_def store_frame_def)

lemma ensure_segment_segments:
  "i < length (ps_segments (ensure_segment i s))"
  "length (ps_segments s) \<le> length (ps_segments (ensure_segment i s))"
  "j < length (ps_segments s) \<Longrightarrow> ps_segments (ensure_segment i s) ! j = ps_segments s ! j"
  by (auto simp: ensure_segment_def nth_append)

definition stamped :: "(bytes \<Rightarrow> u32) \<Rightarrow> page_store \<Rightarrow> page_id \<Rightarrow> bytes \<Rightarrow> u64 \<Rightarrow> bytes" where
  "stamped crc s pid buffer generation =
     finalize crc (if pid = SUPERBLOCK_PAGE_ID \<and> ps_backup_format s
                   then put buffer PAGE_HEADER_BYTES (tracked_magic s) else buffer) generation"

definition dirty_ok :: "page_store \<Rightarrow> bool" where
  "dirty_ok s \<longleftrightarrow> (\<forall>i \<in> set (ps_dirty_segments s). i < length (ps_segments s))"

definition wrote :: "page_store \<Rightarrow> page_id \<Rightarrow> bytes \<Rightarrow> page_store \<Rightarrow> bool" where
  "wrote s pid img s' \<longleftrightarrow>
     store_frame s s' \<and> ps_meta s' = ps_meta s \<and> quiet s' \<and>
     length (ps_segments s) \<le> length (ps_segments s') \<and>
     (\<forall>i < length (ps_segments s). length (ps_segments s ! i) \<le> length (ps_segments s' ! i)) \<and>
     (layout_ok s \<longrightarrow> layout_ok s') \<and> (dirty_ok s \<longrightarrow> dirty_ok s') \<and>
     (layout_ok s \<and> addressable s pid \<longrightarrow>
        page_image s' pid = Some img \<and>
        (\<forall>q. addressable s q \<and> q \<noteq> pid \<and> page_image s q \<noteq> None \<longrightarrow> page_image s' q = page_image s q))"

lemma length_tracked_magic [simp]: "length (tracked_magic s) = 8"
  by (simp add: tracked_magic_def SUPERBLOCK_MAGIC_TRACKED_MONOLITHIC_def SUPERBLOCK_MAGIC_TRACKED_def)

lemma length_stamped [simp]: "72 \<le> length buffer \<Longrightarrow> length (stamped crc s pid buffer g) = length buffer"
  by (simp add: stamped_def)

lemma page_image_Some:
  "locate s pid = (i, off) \<Longrightarrow> page_image s pid =
     (if i < length (ps_segments s) \<and> unat off + ps_page_size s \<le> length (ps_segments s ! i)
      then Some (slice_of (ps_segments s ! i) (unat off) (ps_page_size s)) else None)"
  by (simp add: page_image_def)

lemma write_segment_image:
  assumes lo: "layout_ok s" "addressable s pid" and loc: "locate s pid = (i, off)"
    and img: "length img = ps_page_size s"
    and s': "store_frame s s'"
      "ps_segments s' = (ps_segments (ensure_segment i s))[i := write_at (ps_segments (ensure_segment i s) ! i) img off]"
  shows "page_image s' pid = Some img"
    and "addressable s q \<Longrightarrow> q \<noteq> pid \<Longrightarrow> page_image s q \<noteq> None \<Longrightarrow> page_image s' q = page_image s q"
proof -
  note e = ensure_segment_segments [where i = i and s = s]
  have ps: "ps_page_size s' = ps_page_size s" using s'(1) by (simp add: store_frame_def)
  have loc': "locate s' = locate s" using locate_frame [OF s'(1)] .
  show "page_image s' pid = Some img"
    using e(1) loc img write_at_same [of _ img off] by (simp add: page_image_def loc' ps s'(2))
  assume q: "addressable s q" "q \<noteq> pid" "page_image s q \<noteq> None"
  obtain j b where lq: "locate s q = (j, b)" by fastforce
  then have j: "j < length (ps_segments s)" "unat b + ps_page_size s \<le> length (ps_segments s ! j)"
    "page_image s q = Some (slice_of (ps_segments s ! j) (unat b) (ps_page_size s))"
    using q(3) by (auto simp: page_image_Some split: if_splits)
  show "page_image s' q = page_image s q"
  proof (cases "j = i")
    case True
    then have "unat b + ps_page_size s \<le> unat off \<or> unat off + length img \<le> unat b"
      using locate_disjoint [OF lo q(1) q(2) [symmetric] loc, of b] lq img by auto
    with True j e show ?thesis
      by (simp add: page_image_def loc' lq ps s'(2) write_at_other max.coboundedI1)
  next
    case False
    with j e show ?thesis by (simp add: page_image_def loc' lq ps s'(2))
  qed
qed

lemma intercept_quiet:
  "quiet s \<Longrightarrow> intercept (ps_faults s) n = ((ps_faults s)\<lparr>fi_writes := fi_writes (ps_faults s) + 1\<rparr>, Ok n)"
  by (simp add: intercept_def quiet_def Let_def)

lemma write_page_raw_quiet:
  assumes "quiet s" "locate s pid = (i, off)"
  shows "write_page_raw crc pid buffer g s =
    (mark_segment_dirty i ((ensure_segment i s)\<lparr>
       ps_faults := (ps_faults s)\<lparr>fi_writes := fi_writes (ps_faults s) + 1\<rparr>,
       ps_segments := (ps_segments (ensure_segment i s))[i :=
          write_at (ps_segments (ensure_segment i s) ! i) (stamped crc s pid buffer g) off]\<rparr>), Ok ())"
  using assms
  by (simp add: write_page_raw_def stamped_def intercept_quiet validate_write_completion_def Let_def)

lemma write_page_raw_wrote:
  assumes "quiet s" "length buffer = ps_page_size s" "layout_ok s"
  shows "\<exists>s'. write_page_raw crc pid buffer g s = (s', Ok ()) \<and> wrote s pid (stamped crc s pid buffer g) s'"
proof -
  obtain i off where loc: "locate s pid = (i, off)" by fastforce
  let ?s' = "fst (write_page_raw crc pid buffer g s)"
  have w: "write_page_raw crc pid buffer g s = (?s', Ok ())"
    using write_page_raw_quiet [OF assms(1) loc] by simp
  have f: "store_frame s ?s'" "ps_meta ?s' = ps_meta s" "quiet ?s'"
    "ps_segments ?s' = (ps_segments (ensure_segment i s))[i :=
       write_at (ps_segments (ensure_segment i s) ! i) (stamped crc s pid buffer g) off]"
    using assms(1)
    by (simp_all add: write_page_raw_quiet [OF assms(1) loc] mark_segment_dirty_def store_frame_def quiet_def
        ensure_segment_def)
  have len: "length (stamped crc s pid buffer g) = ps_page_size s"
    using assms(2,3) by (simp add: layout_ok_def)
  have "layout_ok ?s'" using assms(3) f(1,4) ensure_segment_segments(1) [where i = i and s = s]
    by (auto simp: layout_ok_def store_frame_def)
  moreover have "dirty_ok s \<Longrightarrow> dirty_ok ?s'"
    using ensure_segment_segments [where i = i and s = s]
    by (auto simp: write_page_raw_quiet [OF assms(1) loc] mark_segment_dirty_def dirty_ok_def dest: less_le_trans)
  moreover have "length (ps_segments s ! j) \<le> length (ps_segments ?s' ! j)" if "j < length (ps_segments s)" for j
    using that ensure_segment_segments [where i = i and s = s] by (cases "j = i") (simp_all add: f(4))
  ultimately have "wrote s pid (stamped crc s pid buffer g) ?s'"
    using f ensure_segment_segments(2) [where i = i and s = s] write_segment_image [OF assms(3) _ loc len f(1,4)]
    by (auto simp: wrote_def)
  with w show ?thesis by blast
qed

lemma wroteD:
  assumes "wrote s pid img s'" "layout_ok s"
  shows "store_frame s s'" "ps_meta s' = ps_meta s" "quiet s'" "layout_ok s'" "ps_page_size s' = ps_page_size s"
    "addressable s' = addressable s"
    "addressable s pid \<Longrightarrow> page_image s' pid = Some img"
    "addressable s pid \<Longrightarrow> addressable s q \<Longrightarrow> q \<noteq> pid \<Longrightarrow> page_image s q = Some x \<Longrightarrow> page_image s' q = Some x"
  using assms addressable_frame [of s s'] by (auto simp: wrote_def store_frame_def)

section \<open>What a page read does\<close>

text \<open>Reading depends on the image only, and returns it.\<close>

definition check_image :: "(bytes \<Rightarrow> u32) \<Rightarrow> page_id \<Rightarrow> bytes \<Rightarrow> (page_header \<times> bytes) res" where
  "check_image crc pid img =
     rbind (verify crc img pid) (\<lambda>_. rmap (\<lambda>header. (header, img)) (header_decode img))"

lemma read_page_unchecked_image:
  assumes "page_image s pid = Some img"
  shows "read_page_unchecked crc s pid = check_image crc pid img"
  using assms
  by (auto simp: read_page_unchecked_def page_image_def check_image_def read_at_def Let_def split: if_splits prod.splits)

lemma read_page_unchecked_none:
  assumes "page_image s pid = None" "0 < ps_page_size s"
  shows "\<exists>got. read_page_unchecked crc s pid = Err (ShortRead pid got (ps_page_size s))"
proof -
  obtain i off where loc: "locate s pid = (i, off)" by fastforce
  show ?thesis
  proof (cases "i < length (ps_segments s)")
    case True
    then have "length (read_at (ps_segments s ! i) (ps_page_size s) off) < ps_page_size s"
      using assms loc by (auto simp: page_image_Some read_at_def slice_of_def split: if_splits)
    with True loc show ?thesis by (simp add: read_page_unchecked_def Let_def)
  qed (simp add: read_page_unchecked_def loc)
qed

lemma read_header_image:
  "page_image s pid = Some img \<Longrightarrow> read_header crc s pid = rmap fst (check_image crc pid img)"
  by (simp add: read_header_def read_page_unchecked_image)

lemma check_image_stamped:
  assumes "72 \<le> length buffer" "header_decode buffer = Ok h" "pid \<noteq> 0 \<or> \<not> ps_backup_format s"
  shows "check_image crc pid' (stamped crc s pid buffer g)
         = Ok (h\<lparr>ph_generation := g\<rparr>, stamped crc s pid buffer g)"
  using assms by (auto simp: check_image_def stamped_def verify_finalize_ok header_decode_finalize)

end
