(* ===== verification/Page_Alloc.thy ===== *)
theory Page_Alloc
  imports Page_File
begin

text \<open>
  The page allocator of \<open>crates/bicdb-page/src/manager.rs\<close>: allocation and release of pages
  over the intrusive free list, adoption of a prepared free segment, the inventory of the free
  list and its repair, and the superblock with its publication. The metadata mutex makes each
  operation atomic.
\<close>

section \<open>The superblock page\<close>

definition superblock_magic :: "page_store \<Rightarrow> bytes" where
  "superblock_magic s =
     (if ps_extent_pages s = 0 \<and> ps_migration_target_pages s = 0
      then if ps_backup_format s then SUPERBLOCK_MAGIC_TRACKED_MONOLITHIC else SUPERBLOCK_MAGIC
      else if ps_backup_format s then SUPERBLOCK_MAGIC_TRACKED else SUPERBLOCK_MAGIC_SEGMENTED)"

definition superblock_page :: "page_store \<Rightarrow> superblock \<Rightarrow> bytes" where
  "superblock_page s meta =
     (let page = header_encode (header_new SUPERBLOCK_PAGE_ID Superblock (ps_page_size s))
                   (replicate (ps_page_size s) 0);
          page = put page 64 (superblock_magic s);
          page = put page 72 (le32 (of_nat (ps_page_size s)));
          page = put page 76 (le64 (sb_page_count meta));
          page = put page 84 (le64 (sb_free_list_head meta));
          page = put page 92 (le64 (sb_free_page_count meta));
          page = put page 100 (le64 (sb_root_page meta));
          page = put page 108 (le64 (sb_checkpoint_lsn meta));
          page = put page 116 (le64 (ps_extent_pages s));
          page = put page 124 (le64 (ps_migration_target_pages s))
      in put page 132 (le64 (ps_migration_watermark s)))"

definition write_superblock_meta :: "(bytes \<Rightarrow> u32) \<Rightarrow> superblock \<Rightarrow> unit store_m" where
  "write_superblock_meta crc meta s =
     write_page_raw crc SUPERBLOCK_PAGE_ID (superblock_page s meta) (max (sb_generation meta) 1) s"

definition write_superblock :: "(bytes \<Rightarrow> u32) \<Rightarrow> unit store_m" where
  "write_superblock crc s = write_superblock_meta crc (ps_meta s) s"

definition store_flush :: "(bytes \<Rightarrow> u32) \<Rightarrow> unit store_m" where
  "store_flush crc = m_then (write_superblock crc) store_sync"

definition is_superblock_magic :: "bytes \<Rightarrow> bool" where
  "is_superblock_magic m \<longleftrightarrow>
     m = SUPERBLOCK_MAGIC \<or> m = SUPERBLOCK_MAGIC_SEGMENTED \<or> m = SUPERBLOCK_MAGIC_TRACKED \<or>
     m = SUPERBLOCK_MAGIC_TRACKED_MONOLITHIC"

definition probe_page_size :: "page_store \<Rightarrow> nat \<Rightarrow> unit res" where
  "probe_page_size s expected =
     (let probe = read_at (ps_segments s ! 0) MIN_PAGE_SIZE 0; got = length probe in
      if got < PAGE_HEADER_BYTES + 12 then Err (ShortRead SUPERBLOCK_PAGE_ID got (PAGE_HEADER_BYTES + 12))
      else if slice_of probe 0 4 \<noteq> PAGE_MAGIC then Err (NotAPageFile (slice_of probe 0 4))
      else if \<not> is_superblock_magic (slice_of probe 64 8) then Err (NotAPageFile (slice_of probe 64 4))
      else if unat (rd32 probe 72) \<noteq> expected then Err (PageSizeMismatch (unat (rd32 probe 72)) expected)
      else Ok ())"

definition read_superblock :: "(bytes \<Rightarrow> u32) \<Rightarrow> nat \<Rightarrow> superblock store_m" where
  "read_superblock crc expected_page_size s =
     m_bind (m_lift (probe_page_size s expected_page_size)) (\<lambda>_.
     m_bind (m_read (\<lambda>s. read_page_unchecked crc s SUPERBLOCK_PAGE_ID)) (\<lambda>(header, page).
       if ph_page_type header \<noteq> Superblock
       then m_err (UnexpectedPageType SUPERBLOCK_PAGE_ID (page_type_u8 (ph_page_type header)) (page_type_u8 Superblock))
       else let magic = slice_of page 64 8;
                tracked = magic = SUPERBLOCK_MAGIC_TRACKED \<or> magic = SUPERBLOCK_MAGIC_TRACKED_MONOLITHIC;
                segmented = magic = SUPERBLOCK_MAGIC_SEGMENTED \<or> magic = SUPERBLOCK_MAGIC_TRACKED
            in m_then (m_modify (\<lambda>s. s\<lparr>ps_backup_format := tracked\<rparr>))
              (if \<not> segmented \<and> magic \<noteq> SUPERBLOCK_MAGIC \<and> magic \<noteq> SUPERBLOCK_MAGIC_TRACKED_MONOLITHIC
               then m_err (NotAPageFile (slice_of page 64 4))
               else if unat (rd32 page 72) \<noteq> expected_page_size
               then m_err (PageSizeMismatch (unat (rd32 page 72)) expected_page_size)
               else m_return
                 \<lparr> sb_page_count = rd64 page 76, sb_free_list_head = rd64 page 84,
                   sb_free_page_count = rd64 page 92, sb_generation = ph_generation header,
                   sb_root_page = rd64 page 100, sb_checkpoint_lsn = rd64 page 108,
                   sb_extent_pages = (if segmented then rd64 page 116 else 0),
                   sb_migration_target_pages = (if segmented then rd64 page 124 else 0),
                   sb_migration_watermark = (if segmented then rd64 page 132 else 0) \<rparr>))) s"

definition publish_root :: "(bytes \<Rightarrow> u32) \<Rightarrow> page_id \<Rightarrow> u64 \<Rightarrow> unit store_m" where
  "publish_root crc root_page checkpoint_lsn =
     m_then (m_modify (\<lambda>s. s\<lparr>ps_meta := (ps_meta s)\<lparr>sb_root_page := root_page,
         sb_checkpoint_lsn := checkpoint_lsn, sb_generation := sat_succ (sb_generation (ps_meta s))\<rparr>\<rparr>))
     (m_then (write_superblock crc) store_sync)"

section \<open>The free list\<close>

definition free_list_corruption :: "superblock \<Rightarrow> page_error" where
  "free_list_corruption meta =
     FreeListCorruption (sb_free_list_head meta) (sb_free_page_count meta) (sb_page_count meta)"

definition validate_free_list_metadata :: "superblock \<Rightarrow> unit res" where
  "validate_free_list_metadata meta =
     (if sb_page_count meta = 0 then Err (free_list_corruption meta)
      else if (sb_free_list_head meta = 0) \<noteq> (sb_free_page_count meta = 0) then Err (free_list_corruption meta)
      else if sb_free_page_count meta > sat_sub (sb_page_count meta) 1 then Err (free_list_corruption meta)
      else if sb_free_list_head meta \<ge> sb_page_count meta \<and> sb_free_list_head meta \<noteq> 0
      then Err (free_list_corruption meta)
      else Ok ())"

definition expect_free :: "page_id \<Rightarrow> page_header \<Rightarrow> unit res" where
  "expect_free page_id header =
     (if ph_page_type header \<noteq> Free
      then Err (UnexpectedPageType page_id (page_type_u8 (ph_page_type header)) (page_type_u8 Free))
      else Ok ())"

definition detach_free_list_for_recovery :: "(bytes \<Rightarrow> u32) \<Rightarrow> u64 store_m" where
  "detach_free_list_for_recovery crc s =
     m_bind (m_lift (validate_free_list_metadata (ps_meta s))) (\<lambda>_.
       let meta = ps_meta s; detached = sb_free_page_count meta in
       if sb_free_list_head meta = 0 \<and> detached = 0 then m_return 0
       else let meta = meta\<lparr>sb_free_list_head := 0, sb_free_page_count := 0,
                            sb_generation := sat_succ (sb_generation meta)\<rparr>
            in m_then (m_modify (\<lambda>s. s\<lparr>ps_meta := meta\<rparr>))
              (m_then (write_superblock_meta crc meta) (m_then store_sync (m_return detached)))) s"

text \<open>Allocation: the head of the free list, or a page behind the end of the file.\<close>

definition take_free_head :: "(bytes \<Rightarrow> u32) \<Rightarrow> page_store \<Rightarrow> (superblock \<times> page_id \<times> u64) res" where
  "take_free_head crc s =
     (let meta = ps_meta s; head = sb_free_list_head meta in
      rbind (read_header crc s head) (\<lambda>header.
      rbind (expect_free head header) (\<lambda>_.
        let next_id = ph_next_page header in
        if next_id = head \<or> (next_id \<noteq> 0 \<and> next_id \<ge> sb_page_count meta) then Err (free_list_corruption meta)
        else if (sb_free_page_count meta = 1) \<noteq> (next_id = 0) then Err (free_list_corruption meta)
        else rbind
          (if next_id \<noteq> 0
           then rbind (read_header crc s next_id) (\<lambda>next_header.
                rbind (expect_free next_id next_header) (\<lambda>_.
                if ph_next_page next_header = head then Err (free_list_corruption meta) else Ok ()))
           else Ok ()) (\<lambda>_.
        Ok (meta\<lparr>sb_free_list_head := next_id, sb_free_page_count := sb_free_page_count meta - 1\<rparr>,
            head, ph_generation header)))))"

definition take_new_page :: "(superblock \<times> page_id \<times> u64) store_m" where
  "take_new_page s =
     (let meta = ps_meta s; id = sb_page_count meta in
      m_then (if ps_migration_target_pages s \<noteq> 0 then extend_to (sat_succ id) else m_return ())
        (m_return (meta\<lparr>sb_page_count := id + 1\<rparr>, id, 0)) s)"

definition page_allocate :: "(bytes \<Rightarrow> u32) \<Rightarrow> page_type \<Rightarrow> page_id store_m" where
  "page_allocate crc page_type s =
     (if page_type = Superblock \<or> page_type = Free
      then (s, Err (InvalidAllocationPageType (page_type_u8 page_type)))
      else m_bind (m_lift (validate_free_list_metadata (ps_meta s))) (\<lambda>_.
           m_bind (if sb_free_list_head (ps_meta s) \<noteq> 0 then m_read (take_free_head crc) else take_new_page)
             (\<lambda>(meta, page_id, page_generation_floor).
           let generation = sat_succ (max (sb_generation meta) page_generation_floor) in
           m_then (m_modify (\<lambda>s. s\<lparr>ps_meta := meta\<lparr>sb_generation := generation\<rparr>\<rparr>))
           (m_then (write_page_raw crc page_id
                      (header_encode (header_new page_id page_type (ps_page_size s)) (replicate (ps_page_size s) 0))
                      generation)
             (m_return page_id)))) s)"

definition store_reserve :: "u64 \<Rightarrow> unit store_m" where
  "store_reserve page_count s =
     (if page_count \<le> sb_page_count (ps_meta s) then (s, Ok ())
      else m_then (extend_to page_count)
        (m_modify (\<lambda>s. s\<lparr>ps_meta := (ps_meta s)\<lparr>sb_page_count := page_count,
           sb_generation := sb_generation (ps_meta s) + 1\<rparr>\<rparr>)) s)"

definition free_image :: "page_store \<Rightarrow> page_id \<Rightarrow> page_id \<Rightarrow> bytes" where
  "free_image s page_id next_id =
     header_encode ((header_new page_id Free (ps_page_size s))\<lparr>ph_next_page := next_id\<rparr>)
       (replicate (ps_page_size s) 0)"

definition page_free :: "(bytes \<Rightarrow> u32) \<Rightarrow> page_id \<Rightarrow> unit store_m" where
  "page_free crc page_id s =
     (let meta = ps_meta s in
      if page_id = SUPERBLOCK_PAGE_ID
      then (s, Err (UnexpectedPageType page_id (page_type_u8 Superblock) (page_type_u8 Free)))
      else m_bind (m_lift (validate_free_list_metadata meta)) (\<lambda>_.
        if page_id \<ge> sb_page_count meta then m_err (OutOfBounds page_id (sb_page_count meta))
        else if page_id = sb_root_page meta then m_err (CannotFreeRootPage page_id)
        else m_bind (m_read (\<lambda>s. read_header crc s page_id)) (\<lambda>existing.
          if ph_page_type existing = Free then m_err (PageAlreadyFree page_id)
          else if ph_page_type existing = Superblock
          then m_err (UnexpectedPageType page_id (page_type_u8 Superblock) (page_type_u8 Free))
          else let generation = sat_succ (max (sb_generation meta) (ph_generation existing)) in
            m_then (m_modify (\<lambda>s. s\<lparr>ps_meta := meta\<lparr>sb_free_list_head := page_id,
                       sb_free_page_count := sb_free_page_count meta + 1, sb_generation := generation\<rparr>\<rparr>))
              (write_page_raw crc page_id (free_image s page_id (sb_free_list_head meta)) generation))) s)"

section \<open>Adopting, listing and repairing the free list\<close>

abbreviation (input) MAX_FREE_LIST_ADOPTION_PAGES :: u64 where "MAX_FREE_LIST_ADOPTION_PAGES \<equiv> 65536"

text \<open>The walk over the adopted segment; the first argument is the number of positions left.\<close>

fun adopt_walk :: "nat \<Rightarrow> (bytes \<Rightarrow> u32) \<Rightarrow> page_store \<Rightarrow> page_id \<Rightarrow> unit res" where
  "adopt_walk 0 crc s cursor = Ok ()"
| "adopt_walk (Suc left) crc s cursor =
     (let meta = ps_meta s; old_head = sb_free_list_head meta in
      if cursor = 0 \<or> cursor \<ge> sb_page_count meta then Err (free_list_corruption meta)
      else rbind (read_header crc s cursor) (\<lambda>header.
           rbind (expect_free cursor header) (\<lambda>_.
           if left = 0
           then if ph_next_page header \<noteq> old_head then Err (free_list_corruption meta)
                else adopt_walk left crc s (ph_next_page header)
           else if ph_next_page header = 0 \<or> ph_next_page header = old_head
           then Err (free_list_corruption meta)
           else adopt_walk left crc s (ph_next_page header))))"

definition adopt_free_pages :: "(bytes \<Rightarrow> u32) \<Rightarrow> page_id \<Rightarrow> u64 \<Rightarrow> unit store_m" where
  "adopt_free_pages crc new_head count s =
     (let meta = ps_meta s in
      if count > MAX_FREE_LIST_ADOPTION_PAGES then (s, Err InvalidMaintenanceLimits)
      else m_bind (m_lift (validate_free_list_metadata meta)) (\<lambda>_.
        if count = 0 then if new_head = 0 then m_return () else m_err (free_list_corruption meta)
        else if new_head = 0 \<or> new_head \<ge> sb_page_count meta then m_err (free_list_corruption meta)
        else if \<not> (unat (sb_free_page_count meta) + unat count \<le> unat (sat_sub (sb_page_count meta) 1))
        then m_err (free_list_corruption meta)
        else m_bind (m_read (\<lambda>s. adopt_walk (unat count) crc s new_head)) (\<lambda>_.
          m_then (m_modify (\<lambda>s. s\<lparr>ps_meta := meta\<lparr>sb_free_list_head := new_head,
              sb_free_page_count := sb_free_page_count meta + count,
              sb_generation := sb_generation meta + 1\<rparr>\<rparr>))
          (m_then (write_superblock crc) store_sync))) s)"

fun collect_members :: "nat \<Rightarrow> (bytes \<Rightarrow> u32) \<Rightarrow> page_store \<Rightarrow> page_id \<Rightarrow> page_id list option res" where
  "collect_members left crc s cursor =
     (if cursor = 0 then Ok (Some [])
      else case left of
        0 \<Rightarrow> Ok None
      | Suc left' \<Rightarrow>
          rbind (read_header crc s cursor) (\<lambda>header.
          if ph_page_type header \<noteq> Free then Err (free_list_corruption (ps_meta s))
          else rmap (map_option ((#) cursor)) (collect_members left' crc s (ph_next_page header))))"

declare collect_members.simps [simp del]

definition free_list_members :: "(bytes \<Rightarrow> u32) \<Rightarrow> page_store \<Rightarrow> u64 \<Rightarrow> page_id list option res" where
  "free_list_members crc s max_visits =
     rmap (map_option sort) (collect_members (unat max_visits) crc s (sb_free_list_head (ps_meta s)))"

record free_page_extent =
  fe_start_page :: page_id
  fe_pages :: u64

record free_extents =
  fx_page_size :: nat
  fx_page_count :: u64
  fx_free_pages :: u64
  fx_extents :: "free_page_extent list"

text \<open>
  The callback \<open>continue_scan\<close> is a function of the number of calls made before. The walk
  returns \<open>None\<close> as soon as it declines; the extents are built from the sorted pages, the last
  extent first.
\<close>

fun extent_walk ::
  "nat \<Rightarrow> (nat \<Rightarrow> bool) \<Rightarrow> nat \<Rightarrow> (bytes \<Rightarrow> u32) \<Rightarrow> page_store \<Rightarrow> page_id \<Rightarrow> page_id list option res" where
  "extent_walk left continue_scan calls crc s cursor =
     (if cursor = 0 then Ok (Some [])
      else if \<not> continue_scan calls then Ok None
      else if cursor \<ge> sb_page_count (ps_meta s) then Err (free_list_corruption (ps_meta s))
      else case left of
        0 \<Rightarrow> Err (free_list_corruption (ps_meta s))
      | Suc left' \<Rightarrow>
          rbind (read_header crc s cursor) (\<lambda>header.
          if ph_page_type header \<noteq> Free then Err (free_list_corruption (ps_meta s))
          else rmap (map_option ((#) cursor))
                 (extent_walk left' continue_scan (Suc calls) crc s (ph_next_page header))))"

declare extent_walk.simps [simp del]

fun push_extents ::
  "superblock \<Rightarrow> (nat \<Rightarrow> bool) \<Rightarrow> nat \<Rightarrow> nat \<Rightarrow> page_id list \<Rightarrow> free_page_extent list \<Rightarrow> free_page_extent list option res" where
  "push_extents meta continue_scan calls index [] extents = Ok (Some (rev extents))"
| "push_extents meta continue_scan calls index (page # pages) extents =
     (if index mod 1024 = 0 \<and> \<not> continue_scan calls then Ok None
      else let calls = (if index mod 1024 = 0 then Suc calls else calls) in
        case extents of
          e # es \<Rightarrow>
            if page < fe_start_page e + fe_pages e then Err (free_list_corruption meta)
            else if page = fe_start_page e + fe_pages e
            then push_extents meta continue_scan calls (Suc index) pages (e\<lparr>fe_pages := fe_pages e + 1\<rparr> # es)
            else push_extents meta continue_scan calls (Suc index) pages
                   (\<lparr> fe_start_page = page, fe_pages = 1 \<rparr> # e # es)
        | [] \<Rightarrow> push_extents meta continue_scan calls (Suc index) pages [\<lparr> fe_start_page = page, fe_pages = 1 \<rparr>])"

definition free_page_extents_while ::
  "(bytes \<Rightarrow> u32) \<Rightarrow> page_store \<Rightarrow> u64 \<Rightarrow> u64 \<Rightarrow> (nat \<Rightarrow> bool) \<Rightarrow> free_extents option res" where
  "free_page_extents_while crc s max_pages max_read_bytes continue_scan =
     (let meta = ps_meta s; count = unat (sb_free_page_count meta) in
      if \<not> continue_scan 0 then Ok None
      else if \<not> continue_scan 1 then Ok None
      else rbind (validate_free_list_metadata meta) (\<lambda>_.
        if sb_free_page_count meta > max_pages \<or> count * ps_page_size s \<ge> 2 ^ 64 \<or>
           count * ps_page_size s > unat max_read_bytes then Ok None
        else rbind (extent_walk count continue_scan 2 crc s (sb_free_list_head meta)) (\<lambda>walked.
          case walked of
            None \<Rightarrow> Ok None
          | Some pages \<Rightarrow>
              if length pages \<noteq> count then Err (free_list_corruption meta)
              else if \<not> continue_scan (2 + count) then Ok None
              else rmap (map_option (\<lambda>extents.
                       \<lparr> fx_page_size = ps_page_size s, fx_page_count = sb_page_count meta,
                         fx_free_pages = sb_free_page_count meta, fx_extents = extents \<rparr>))
                     (push_extents meta continue_scan (3 + count) 0 (sort pages) []))))"

definition free_page_extents :: "(bytes \<Rightarrow> u32) \<Rightarrow> page_store \<Rightarrow> u64 \<Rightarrow> u64 \<Rightarrow> free_extents option res" where
  "free_page_extents crc s max_pages max_read_bytes =
     free_page_extents_while crc s max_pages max_read_bytes (\<lambda>_. True)"

record truncate_report =
  tr_advertised :: u64
  tr_valid_prefix :: u64
  tr_corrupt_page :: "page_id option"
  tr_applied :: bool

text \<open>
  The walk of the repair. The chain is kept with the last page first, as the code pushes it;
  the first argument is the number of pages the advertised count still allows.
\<close>

fun repair_walk ::
  "nat \<Rightarrow> (bytes \<Rightarrow> u32) \<Rightarrow> page_store \<Rightarrow> page_id \<Rightarrow> (page_id \<times> page_id) list \<Rightarrow> (page_id \<times> page_id) list \<times> page_id option" where
  "repair_walk left crc s cursor chain =
     (if cursor = 0 then (chain, None)
      else case left of
        0 \<Rightarrow> (chain, Some cursor)
      | Suc left' \<Rightarrow>
          if cursor \<ge> sb_page_count (ps_meta s) then (chain, Some cursor)
          else case read_header crc s cursor of
            Ok header \<Rightarrow>
              if ph_page_type header \<noteq> Free then (chain, Some cursor)
              else if ph_next_page header \<in> fst ` set chain then (chain, Some (ph_next_page header))
              else repair_walk left' crc s (ph_next_page header) ((cursor, ph_next_page header) # chain)
          | _ \<Rightarrow> (chain, Some cursor))"

declare repair_walk.simps [simp del]

text \<open>The last valid page becomes the end of the list, or the list becomes empty.\<close>

definition cut_list :: "(bytes \<Rightarrow> u32) \<Rightarrow> (page_id \<times> page_id) list \<Rightarrow> superblock store_m" where
  "cut_list crc chain s =
     (case chain of
        (last_valid, last_next) # _ \<Rightarrow>
          m_then (if last_next \<noteq> 0
                  then write_page_raw crc last_valid (free_image s last_valid 0) (sb_generation (ps_meta s))
                  else m_return ())
            (m_return ((ps_meta s)\<lparr>sb_free_page_count := of_nat (length chain)\<rparr>)) s
      | [] \<Rightarrow> (s, Ok ((ps_meta s)\<lparr>sb_free_list_head := 0, sb_free_page_count := 0\<rparr>)))"

definition truncate_free_list_at_corruption :: "(bytes \<Rightarrow> u32) \<Rightarrow> bool \<Rightarrow> truncate_report store_m" where
  "truncate_free_list_at_corruption crc apply_repair s =
     (let meta = ps_meta s; advertised = sb_free_page_count meta;
          (chain, corrupt_page) = repair_walk (unat advertised) crc s (sb_free_list_head meta) [];
          valid_prefix = (of_nat (length chain) :: u64);
          needs_repair = (corrupt_page \<noteq> None \<or> valid_prefix \<noteq> advertised);
          report = \<lparr> tr_advertised = advertised, tr_valid_prefix = valid_prefix,
                     tr_corrupt_page = corrupt_page, tr_applied = False \<rparr>
      in if \<not> apply_repair \<or> \<not> needs_repair then (s, Ok report)
         else m_bind
           (cut_list crc chain)
           (\<lambda>meta. let meta = meta\<lparr>sb_generation := sat_succ (sb_generation meta)\<rparr> in
              m_then (m_modify (\<lambda>s. s\<lparr>ps_meta := meta\<rparr>))
              (m_then (write_superblock_meta crc meta)
              (m_then store_sync (m_return (report\<lparr>tr_applied := True\<rparr>))))) s)"

definition abandon_detached_free_page_count :: "(bytes \<Rightarrow> u32) \<Rightarrow> u64 \<Rightarrow> u64 store_m" where
  "abandon_detached_free_page_count crc expected_count s =
     (let meta = ps_meta s in
      if sb_free_list_head meta \<noteq> 0 then (s, Err (free_list_corruption meta))
      else if sb_free_page_count meta = 0 \<or> sb_free_page_count meta \<noteq> expected_count
      then (s, Err InvalidMaintenanceLimits)
      else let abandoned = sb_free_page_count meta;
               meta = meta\<lparr>sb_free_page_count := 0, sb_generation := sat_succ (sb_generation meta)\<rparr>
           in m_then (m_modify (\<lambda>s. s\<lparr>ps_meta := meta\<rparr>))
             (m_then (write_superblock_meta crc meta) (m_then store_sync (m_return abandoned))) s)"

section \<open>Opening a store\<close>

record store_options =
  so_page_size :: nat
  so_fsync :: bool
  so_extent_bytes :: u64

definition fresh_store :: "store_options \<Rightarrow> bytes \<Rightarrow> page_store" where
  "fresh_store options file =
     \<lparr> ps_backup_format = False, ps_segments = [file], ps_dirty_segments = [], ps_extent_pages = 0,
       ps_migration_target_pages = 0, ps_migration_watermark = 0, ps_page_size = so_page_size options,
       ps_fsync = so_fsync options, ps_meta = superblock_default, ps_faults = no_faults \<rparr>"

definition div_ceil :: "u64 \<Rightarrow> u64 \<Rightarrow> u64" where
  "div_ceil a b = (if a mod b = 0 then a div b else a div b + 1)"

text \<open>
  The segment files present on disk, the base file first; the code opens \<open>.1\<close>, \<open>.2\<close> and so on
  until one is missing.
\<close>

definition open_existing_segments :: "bytes list \<Rightarrow> u64 \<Rightarrow> unit store_m" where
  "open_existing_segments files page_count s =
     (if ps_extent_pages s = 0 \<and> ps_migration_target_pages s = 0 then (s, Ok ())
      else let extent_pages = (if ps_extent_pages s = 0 then ps_migration_target_pages s else ps_extent_pages s);
               required = unat (max (div_ceil page_count extent_pages) 1);
               s = s\<lparr>ps_segments := ps_segments s @ drop (length (ps_segments s)) files\<rparr>
           in if length (ps_segments s) < required then (s, Err (SegmentMissing page_count)) else (s, Ok ()))"

definition open_new :: "(bytes \<Rightarrow> u32) \<Rightarrow> store_options \<Rightarrow> page_store \<times> unit res" where
  "open_new crc options =
     write_superblock crc ((fresh_store options [])\<lparr>
       ps_extent_pages := so_extent_bytes options div of_nat (so_page_size options),
       ps_meta := superblock_default\<lparr>sb_page_count := 1\<rparr>\<rparr>)"

definition open_existing :: "(bytes \<Rightarrow> u32) \<Rightarrow> store_options \<Rightarrow> bytes list \<Rightarrow> page_store \<times> unit res" where
  "open_existing crc options files =
     m_bind (read_superblock crc (so_page_size options)) (\<lambda>superblock.
       m_then (m_modify (\<lambda>s. s\<lparr>ps_extent_pages := sb_extent_pages superblock,
           ps_migration_target_pages := sb_migration_target_pages superblock,
           ps_migration_watermark := sb_migration_watermark superblock, ps_meta := superblock\<rparr>))
         (open_existing_segments files (sb_page_count superblock)))
       (fresh_store options (files ! 0))"

definition store_open :: "(bytes \<Rightarrow> u32) \<Rightarrow> store_options \<Rightarrow> bytes list \<Rightarrow> page_store res" where
  "store_open crc options files =
     rbind (validate_page_size (so_page_size options)) (\<lambda>_.
     rbind (validate_extent_bytes (so_extent_bytes options) (so_page_size options)) (\<lambda>_.
       let (s, r) = (if files ! 0 = [] then open_new crc options else open_existing crc options files)
       in rmap (\<lambda>_. s) r))"

section \<open>Reading a superblock page back\<close>

lemma length_magics [simp]:
  "length SUPERBLOCK_MAGIC = 8" "length SUPERBLOCK_MAGIC_SEGMENTED = 8" "length SUPERBLOCK_MAGIC_TRACKED = 8"
  "length SUPERBLOCK_MAGIC_TRACKED_MONOLITHIC = 8" "length (superblock_magic s) = 8"
  by (simp_all add: superblock_magic_def SUPERBLOCK_MAGIC_def SUPERBLOCK_MAGIC_SEGMENTED_def
        SUPERBLOCK_MAGIC_TRACKED_def SUPERBLOCK_MAGIC_TRACKED_MONOLITHIC_def)

lemma magics_distinct [simp]:
  "SUPERBLOCK_MAGIC \<noteq> SUPERBLOCK_MAGIC_SEGMENTED" "SUPERBLOCK_MAGIC \<noteq> SUPERBLOCK_MAGIC_TRACKED"
  "SUPERBLOCK_MAGIC \<noteq> SUPERBLOCK_MAGIC_TRACKED_MONOLITHIC" "SUPERBLOCK_MAGIC_SEGMENTED \<noteq> SUPERBLOCK_MAGIC_TRACKED"
  "SUPERBLOCK_MAGIC_SEGMENTED \<noteq> SUPERBLOCK_MAGIC_TRACKED_MONOLITHIC"
  "SUPERBLOCK_MAGIC_TRACKED_MONOLITHIC \<noteq> SUPERBLOCK_MAGIC_TRACKED"
  by (simp_all add: SUPERBLOCK_MAGIC_def SUPERBLOCK_MAGIC_SEGMENTED_def SUPERBLOCK_MAGIC_TRACKED_def
        SUPERBLOCK_MAGIC_TRACKED_MONOLITHIC_def)

lemma length_superblock_page [simp]: "layout_ok s \<Longrightarrow> length (superblock_page s meta) = ps_page_size s"
  by (simp add: superblock_page_def layout_ok_def Let_def)

text \<open>The writes are contiguous, so the page is the header followed by the fields.\<close>

definition superblock_fields :: "page_store \<Rightarrow> superblock \<Rightarrow> bytes" where
  "superblock_fields s meta =
     ((((((((superblock_magic s @ le32 (of_nat (ps_page_size s))) @ le64 (sb_page_count meta)) @
       le64 (sb_free_list_head meta)) @ le64 (sb_free_page_count meta)) @ le64 (sb_root_page meta)) @
       le64 (sb_checkpoint_lsn meta)) @ le64 (ps_extent_pages s)) @ le64 (ps_migration_target_pages s)) @
       le64 (ps_migration_watermark s)"

lemma put_behind: "length xs = n \<Longrightarrow> n \<le> k \<Longrightarrow> put (xs @ b) k ys = xs @ put b (k - n) ys"
  by (simp add: put_def)

lemma superblock_fields_put:
  "put (put (put (put (put (put (put (put (put (put b 0 (superblock_magic s)) 8 (le32 (of_nat (ps_page_size s))))
     12 (le64 (sb_page_count meta))) 20 (le64 (sb_free_list_head meta))) 28 (le64 (sb_free_page_count meta)))
     36 (le64 (sb_root_page meta))) 44 (le64 (sb_checkpoint_lsn meta))) 52 (le64 (ps_extent_pages s)))
     60 (le64 (ps_migration_target_pages s))) 68 (le64 (ps_migration_watermark s))
   = superblock_fields s meta @ drop 76 b"
  unfolding superblock_fields_def
  by (simp add: put_first [where m = 8] put_extend [where n = 8 and m = 12]
      put_extend [where n = 12 and m = 20] put_extend [where n = 20 and m = 28] put_extend [where n = 28 and m = 36]
      put_extend [where n = 36 and m = 44] put_extend [where n = 44 and m = 52] put_extend [where n = 52 and m = 60]
      put_extend [where n = 60 and m = 68] put_extend [where n = 68 and m = 76] del: append_assoc)

lemma superblock_page_layout:
  "superblock_page s meta = header_layout (header_new SUPERBLOCK_PAGE_ID Superblock (ps_page_size s)) @
     superblock_fields s meta @ drop 140 (replicate (ps_page_size s) 0)"
  unfolding superblock_page_def Let_def header_encode_layout
  by (simp add: put_behind [where n = 64] superblock_fields_put)

lemma superblock_page_reads:
  shows "slice_of (superblock_page s meta) 64 8 = superblock_magic s"
    and "rd32 (superblock_page s meta) 72 = of_nat (ps_page_size s)"
    and "rd64 (superblock_page s meta) 76 = sb_page_count meta"
    and "rd64 (superblock_page s meta) 84 = sb_free_list_head meta"
    and "rd64 (superblock_page s meta) 92 = sb_free_page_count meta"
    and "rd64 (superblock_page s meta) 100 = sb_root_page meta"
    and "rd64 (superblock_page s meta) 108 = sb_checkpoint_lsn meta"
    and "rd64 (superblock_page s meta) 116 = ps_extent_pages s"
    and "rd64 (superblock_page s meta) 124 = ps_migration_target_pages s"
    and "rd64 (superblock_page s meta) 132 = ps_migration_watermark s"
  by (simp_all add: superblock_page_layout superblock_fields_def rd32_def rd64_def slice_append_left
      slice_append_right slice_of_def)

lemma superblock_page_header:
  assumes "layout_ok s"
  shows "header_decode (superblock_page s meta) = Ok (header_new SUPERBLOCK_PAGE_ID Superblock (ps_page_size s))"
proof -
  let ?h = "header_new SUPERBLOCK_PAGE_ID Superblock (ps_page_size s)"
  have "superblock_page s meta = header_encode ?h (superblock_page s meta)"
    by (simp add: header_encode_layout superblock_page_layout)
  moreover have "header_decode (header_encode ?h (superblock_page s meta)) = Ok ?h"
    by (rule header_decode_encode) (use assms in \<open>simp_all add: layout_ok_def header_new_def\<close>)
  ultimately show ?thesis by simp
qed

end
