(* ===== verification/Free_List.thy ===== *)
theory Free_List
  imports Page_Alloc
begin

text \<open>
  The free list of the page store as a linked list in the file: its representation predicate,
  the invariant of the allocator, and the proofs that allocation, release, adoption and repair
  keep it. The allocator contract is the locale \<open>page_allocator\<close>, interpreted on the store.
\<close>

section \<open>The list in the file\<close>

fun free_chain :: "(bytes \<Rightarrow> u32) \<Rightarrow> page_store \<Rightarrow> page_id \<Rightarrow> page_id list \<Rightarrow> bool" where
  "free_chain crc s c [] \<longleftrightarrow> c = 0"
| "free_chain crc s c (p # ps) \<longleftrightarrow> c = p \<and> p \<noteq> 0 \<and> p < sb_page_count (ps_meta s) \<and>
     (case read_header crc s p of
        Ok h \<Rightarrow> ph_page_type h = Free \<and> free_chain crc s (ph_next_page h) ps
      | _ \<Rightarrow> False)"

definition free_pages :: "(bytes \<Rightarrow> u32) \<Rightarrow> page_store \<Rightarrow> page_id list" where
  "free_pages crc s =
     (case collect_members (unat (sb_free_page_count (ps_meta s))) crc s (sb_free_list_head (ps_meta s)) of
        Ok (Some ids) \<Rightarrow> ids | _ \<Rightarrow> [])"

definition store_ok :: "page_store \<Rightarrow> bool" where
  "store_ok s \<longleftrightarrow> layout_ok s \<and> quiet s \<and> 0 < sb_page_count (ps_meta s) \<and>
     unat (sb_page_count (ps_meta s)) * ps_page_size s \<le> 2 ^ 64 \<and>
     (ps_extent_pages s = 0 \<or> ps_migration_target_pages s = 0)"

definition alloc_wf :: "(bytes \<Rightarrow> u32) \<Rightarrow> page_store \<Rightarrow> bool" where
  "alloc_wf crc s \<longleftrightarrow> store_ok s \<and> distinct (free_pages crc s) \<and>
     unat (sb_free_page_count (ps_meta s)) = length (free_pages crc s) \<and>
     free_chain crc s (sb_free_list_head (ps_meta s)) (free_pages crc s)"

definition live_pages :: "(bytes \<Rightarrow> u32) \<Rightarrow> page_store \<Rightarrow> page_id set" where
  "live_pages crc s = {p. p < sb_page_count (ps_meta s)} - set (free_pages crc s)"

lemma addressable_below:
  assumes "store_ok s" "p < sb_page_count (ps_meta s)"
  shows "addressable s p"
proof -
  have "Suc (unat p) * ps_page_size s \<le> unat (sb_page_count (ps_meta s)) * ps_page_size s"
    using assms(2) by (intro mult_le_mono1) (simp add: word_less_nat_alt Suc_le_eq)
  then show ?thesis using assms(1) by (simp add: addressable_def store_ok_def algebra_simps)
qed

lemma read_header_some: "read_header crc s p = Ok h \<Longrightarrow> 0 < ps_page_size s \<Longrightarrow> page_image s p \<noteq> None"
  using read_page_unchecked_none [of s p crc] by (cases "page_image s p") (auto simp: read_header_def)

lemma read_header_cong: "page_image s p = Some i \<Longrightarrow> page_image s' p = Some i \<Longrightarrow> read_header crc s' p = read_header crc s p"
  by (simp add: read_header_image)

lemma free_chain_hd: "free_chain crc s c (p # ps) \<Longrightarrow> c = p"
  by simp

lemma free_chainD:
  "free_chain crc s c ps \<Longrightarrow> p \<in> set ps \<Longrightarrow> p \<noteq> 0 \<and> p < sb_page_count (ps_meta s) \<and>
     (\<exists>h. read_header crc s p = Ok h \<and> ph_page_type h = Free)"
  by (induction ps arbitrary: c) (auto split: result.splits)

lemma free_chain_images:
  "free_chain crc s c ps \<Longrightarrow> 0 < ps_page_size s \<Longrightarrow> p \<in> set ps \<Longrightarrow> page_image s p \<noteq> None"
  using free_chainD [of crc s c ps p] read_header_some by blast

lemma free_chain_frame:
  assumes "free_chain crc s c ps" "0 < ps_page_size s"
    "sb_page_count (ps_meta s) \<le> sb_page_count (ps_meta s')"
    "\<And>p. p \<in> set ps \<Longrightarrow> page_image s' p = page_image s p"
  shows "free_chain crc s' c ps"
  using assms(1,4)
proof (induction ps arbitrary: c)
  case (Cons p ps)
  have "page_image s p \<noteq> None" using free_chain_images [OF Cons.prems(1) assms(2)] by simp
  then obtain i where i: "page_image s p = Some i" by blast
  moreover have "page_image s' p = Some i" using Cons.prems(2) [of p] i by simp
  ultimately have "read_header crc s' p = read_header crc s p" by (rule read_header_cong)
  with Cons assms(3) show ?case by (auto split: result.splits)
qed simp

lemma free_chain_keep:
  assumes ch: "free_chain crc s c ps" and ps: "0 < ps_page_size s"
    and pc: "sb_page_count (ps_meta s) \<le> sb_page_count (ps_meta s')" and p: "p \<notin> set ps"
    and img: "\<And>q. q < sb_page_count (ps_meta s) \<Longrightarrow> q \<noteq> p \<Longrightarrow> page_image s q \<noteq> None \<Longrightarrow> page_image s' q = page_image s q"
  shows "free_chain crc s' c ps"
proof (rule free_chain_frame [OF ch ps pc])
  fix q assume q: "q \<in> set ps"
  show "page_image s' q = page_image s q"
    by (rule img) (use free_chainD [OF ch q] free_chain_images [OF ch ps q] q p in auto)
qed

lemma free_chain_unique: "free_chain crc s c ps \<Longrightarrow> free_chain crc s c qs \<Longrightarrow> ps = qs"
proof (induction ps arbitrary: c qs)
  case Nil
  then show ?case by (cases qs) auto
next
  case (Cons p ps)
  then show ?case by (cases qs) (auto split: result.splits)
qed

lemma collect_members_chain:
  "free_chain crc s c ps \<Longrightarrow> length ps \<le> n \<Longrightarrow> collect_members n crc s c = Ok (Some ps)"
proof (induction ps arbitrary: c n)
  case Nil
  then show ?case by (simp add: collect_members.simps)
next
  case (Cons p ps)
  then obtain m where "n = Suc m" by (cases n) auto
  with Cons show ?case by (subst collect_members.simps) (auto split: result.splits)
qed

lemma free_pages_chain:
  "free_chain crc s (sb_free_list_head (ps_meta s)) ps \<Longrightarrow>
   unat (sb_free_page_count (ps_meta s)) = length ps \<Longrightarrow> free_pages crc s = ps"
  by (simp add: free_pages_def collect_members_chain)

lemma alloc_wfI:
  assumes "store_ok s" "distinct ps" "unat (sb_free_page_count (ps_meta s)) = length ps"
    "free_chain crc s (sb_free_list_head (ps_meta s)) ps"
  shows "alloc_wf crc s" "free_pages crc s = ps"
  using assms by (simp_all add: alloc_wf_def free_pages_chain)

lemma chain_length:
  assumes "free_chain crc s c ps" "distinct ps" "0 < sb_page_count (ps_meta s)"
  shows "length ps < unat (sb_page_count (ps_meta s))"
proof -
  have "unat ` set ps \<subseteq> {1..<unat (sb_page_count (ps_meta s))}"
    using free_chainD [OF assms(1)] by (auto simp: word_less_nat_alt unat_gt_0 Suc_le_eq)
  then have "card (unat ` set ps) \<le> unat (sb_page_count (ps_meta s)) - 1"
    using card_mono [of "{1..<unat (sb_page_count (ps_meta s))}"] by fastforce
  moreover have "card (unat ` set ps) = length ps"
    using assms(2) by (simp add: card_image inj_on_def word_unat_eq_iff distinct_card)
  ultimately show ?thesis using assms(3) by (simp add: word_less_nat_alt)
qed

lemma validate_ok:
  assumes "alloc_wf crc s"
  shows "validate_free_list_metadata (ps_meta s) = Ok ()"
proof -
  let ?m = "ps_meta s" and ?ps = "free_pages crc s"
  have a: "0 < sb_page_count ?m" "unat (sb_free_page_count ?m) = length ?ps" "distinct ?ps"
    "free_chain crc s (sb_free_list_head ?m) ?ps"
    using assms by (auto simp: alloc_wf_def store_ok_def)
  have "sb_free_page_count ?m \<le> sat_sub (sb_page_count ?m) 1"
    using chain_length [OF a(4,3,1)] a(2) by (simp add: word_le_nat_alt unat_sat_sub)
  moreover have "(sb_free_list_head ?m = 0) = (sb_free_page_count ?m = 0)"
    using a(2,4) by (cases ?ps) (auto simp: unat_eq_zero)
  moreover have "sb_free_list_head ?m = 0 \<or> sb_free_list_head ?m < sb_page_count ?m"
    using a(4) by (cases ?ps) auto
  ultimately show ?thesis
    using a(1) by (auto simp: validate_free_list_metadata_def not_less [symmetric])
qed

section \<open>Allocation\<close>

lemma take_free_head_ok:
  assumes wf: "alloc_wf crc s" and fp: "free_pages crc s = p # ps"
  shows "\<exists>next_id g. take_free_head crc s =
      Ok ((ps_meta s)\<lparr>sb_free_list_head := next_id, sb_free_page_count := sb_free_page_count (ps_meta s) - 1\<rparr>, p, g)
    \<and> free_chain crc s next_id ps"
proof -
  let ?m = "ps_meta s"
  have ch: "free_chain crc s (sb_free_list_head ?m) (p # ps)" and d: "distinct (p # ps)"
    and n: "unat (sb_free_page_count ?m) = Suc (length ps)"
    using wf fp by (simp_all add: alloc_wf_def)
  from ch obtain h where h: "read_header crc s p = Ok h" "ph_page_type h = Free" "sb_free_list_head ?m = p"
      "free_chain crc s (ph_next_page h) ps" "p \<noteq> 0"
    by (auto split: result.splits)
  have one: "sb_free_page_count ?m = 1 \<longleftrightarrow> ps = []" using n by (auto simp: word_unat_eq_iff)
  show ?thesis
  proof (cases ps)
    case Nil
    with h one have "take_free_head crc s = Ok (?m\<lparr>sb_free_list_head := ph_next_page h,
        sb_free_page_count := sb_free_page_count ?m - 1\<rparr>, p, ph_generation h)"
      by (simp add: take_free_head_def expect_free_def Let_def)
    with h show ?thesis by blast
  next
    case (Cons q qs)
    with h(4) obtain h' where h': "read_header crc s q = Ok h'" "ph_page_type h' = Free"
        "ph_next_page h = q" "q \<noteq> 0" "q < sb_page_count ?m" "free_chain crc s (ph_next_page h') qs"
      by (auto split: result.splits)
    have "ph_next_page h' \<noteq> p" using h'(6) d h(5) Cons by (cases qs) auto
    moreover have "q \<noteq> p" "sb_free_page_count ?m \<noteq> 1" using d Cons one by auto
    ultimately have "take_free_head crc s = Ok (?m\<lparr>sb_free_list_head := q,
        sb_free_page_count := sb_free_page_count ?m - 1\<rparr>, p, ph_generation h)"
      using h(1-3) h'(1-5) by (simp add: take_free_head_def expect_free_def Let_def not_le)
    moreover have "free_chain crc s q ps" using h(4) h'(3) by simp
    ultimately show ?thesis by blast
  qed
qed

lemma page_image_cong:
  "store_frame s s' \<Longrightarrow> ps_segments s' = ps_segments s \<Longrightarrow> page_image s' = page_image s"
  by (frule locate_frame) (auto simp: fun_eq_iff page_image_def store_frame_def split: prod.splits)

lemma set_meta_simps [simp]:
  "page_image (s\<lparr>ps_meta := m\<rparr>) = page_image s" "addressable (s\<lparr>ps_meta := m\<rparr>) = addressable s"
  "layout_ok (s\<lparr>ps_meta := m\<rparr>) = layout_ok s" "quiet (s\<lparr>ps_meta := m\<rparr>) = quiet s"
  "stamped crc (s\<lparr>ps_meta := m\<rparr>) = stamped crc s" "free_image (s\<lparr>ps_meta := m\<rparr>) = free_image s"
  "store_frame s (s\<lparr>ps_meta := m\<rparr>)"
  by (rule page_image_cong, simp add: store_frame_def, simp)
     (rule ext, simp add: addressable_def,
      simp_all add: layout_ok_def quiet_def store_frame_def fun_eq_iff stamped_def tracked_magic_def free_image_def)

lemma store_frame_trans: "store_frame s t \<Longrightarrow> store_frame t u \<Longrightarrow> store_frame s u"
  by (simp add: store_frame_def)

text \<open>Publishing new metadata and writing one page: the common tail of the operations.\<close>

lemma meta_and_write:
  assumes s: "layout_ok s" "quiet s" "length buffer = ps_page_size s" "addressable s pid"
  obtains s' where
    "m_then (m_modify (\<lambda>s. s\<lparr>ps_meta := m\<rparr>)) (write_page_raw crc pid buffer g) s = (s', Ok ())"
    "ps_meta s' = m" "store_frame s s'" "layout_ok s'" "quiet s'"
    "page_image s' pid = Some (stamped crc s pid buffer g)"
    "\<And>q. addressable s q \<Longrightarrow> q \<noteq> pid \<Longrightarrow> page_image s q \<noteq> None \<Longrightarrow> page_image s' q = page_image s q"
proof -
  let ?s = "s\<lparr>ps_meta := m\<rparr>"
  obtain s' where s': "write_page_raw crc pid buffer g ?s = (s', Ok ())"
      "wrote ?s pid (stamped crc ?s pid buffer g) s'"
    using write_page_raw_wrote [of ?s buffer crc pid g] s by auto
  show thesis
  proof
    show "m_then (m_modify (\<lambda>s. s\<lparr>ps_meta := m\<rparr>)) (write_page_raw crc pid buffer g) s = (s', Ok ())"
      by (simp add: s'(1))
    show "store_frame s s'"
      using store_frame_trans [of s ?s s'] s'(2) s(1) by (simp add: wrote_def)
  qed (use s'(2) s in \<open>auto simp: wrote_def\<close>)
qed

lemma store_ok_frame:
  assumes "store_ok s" "store_frame s s'" "layout_ok s'" "quiet s'"
    "sb_page_count (ps_meta s') = sb_page_count (ps_meta s)"
  shows "store_ok s'"
  using assms by (auto simp: store_ok_def store_frame_def)

definition room :: "(bytes \<Rightarrow> u32) \<Rightarrow> page_store \<Rightarrow> bool" where
  "room crc s \<longleftrightarrow> free_pages crc s \<noteq> [] \<or> (unat (sb_page_count (ps_meta s)) + 1) * ps_page_size s < 2 ^ 64"

definition blank_page :: "page_store \<Rightarrow> page_id \<Rightarrow> page_type \<Rightarrow> bytes" where
  "blank_page s pid ty = header_encode (header_new pid ty (ps_page_size s)) (replicate (ps_page_size s) 0)"

lemma length_blank_page [simp]: "layout_ok s \<Longrightarrow> length (blank_page s pid ty) = ps_page_size s"
  by (simp add: blank_page_def layout_ok_def)

lemma locate_slot_le: "locate_slot s p = (i, k) \<Longrightarrow> k \<le> p"
  by (auto simp: locate_slot_def Let_def split: if_splits)

lemma extend_to_mono:
  assumes "layout_ok s" "ps_extent_pages s = 0" "unat n * ps_page_size s < 2 ^ 64"
  obtains s' where "extend_to n s = (s', Ok ())" "store_frame s s'" "ps_meta s' = ps_meta s"
    "ps_faults s' = ps_faults s" "layout_ok s'" "dirty_ok s \<Longrightarrow> dirty_ok s'"
    "length (ps_segments s' ! 0) = unat n * ps_page_size s"
    "\<And>q. addressable s q \<Longrightarrow> q < n \<Longrightarrow> page_image s q \<noteq> None \<Longrightarrow> page_image s' q = page_image s q"
proof -
  let ?s = "mark_segment_dirty 0 (s\<lparr>ps_segments := (ps_segments s)[0 :=
      set_len (ps_segments s ! 0) (unat n * ps_page_size s)]\<rparr>)"
  have fr: "store_frame s ?s" by (simp add: store_frame_def mark_segment_dirty_def)
  show thesis
  proof
    show "extend_to n s = (?s, Ok ())" using assms by (simp add: extend_to_def)
    show "layout_ok ?s" using assms(1) by (auto simp: layout_ok_def mark_segment_dirty_def)
    fix q assume q: "addressable s q" "q < n" "page_image s q \<noteq> None"
    obtain i off where loc: "locate s q = (i, off)" by fastforce
    obtain k where k: "locate_slot s (unat q) = (i, k)" "unat off = k * ps_page_size s"
      using locate_locate_slot [OF assms(1) q(1) loc] by blast
    have "Suc k \<le> unat n" using locate_slot_le [OF k(1)] q(2) by (simp add: word_less_nat_alt)
    then have "unat off + ps_page_size s \<le> unat n * ps_page_size s"
      using mult_le_mono1 [of "Suc k" "unat n" "ps_page_size s"] k(2) by simp
    then show "page_image ?s q = page_image s q"
      using q(3) assms(1) loc locate_frame [OF fr]
      by (cases "i = 0") (auto simp: page_image_Some mark_segment_dirty_def slice_set_len layout_ok_def
          split: if_splits)
  qed (use assms(1) in \<open>simp_all add: store_frame_def mark_segment_dirty_def dirty_ok_def layout_ok_def\<close>)
qed

lemma factor_bound: "n * k < B \<Longrightarrow> 0 < k \<Longrightarrow> n < (B :: nat)"
  using le_less_trans [of n "n * k" B] by (cases k) simp_all

lemma unat_succ_u64: "unat x + 1 < 2 ^ 64 \<Longrightarrow> unat (x + 1 :: u64) = unat x + 1"
  using unat_add_u64 [of x 1] by simp

lemma take_new_page_ok:
  assumes s: "store_ok s" and r: "(unat (sb_page_count (ps_meta s)) + 1) * ps_page_size s < 2 ^ 64"
  obtains s' where
    "take_new_page s = (s', Ok ((ps_meta s)\<lparr>sb_page_count := sb_page_count (ps_meta s) + 1\<rparr>,
       sb_page_count (ps_meta s), 0))"
    "store_frame s s'" "ps_meta s' = ps_meta s" "quiet s'" "layout_ok s'"
    "\<And>q. q < sb_page_count (ps_meta s) \<Longrightarrow> page_image s q \<noteq> None \<Longrightarrow> page_image s' q = page_image s q"
proof (cases "ps_migration_target_pages s = 0")
  case True
  with s that [of s] show thesis
    by (simp add: take_new_page_def m_then_def m_return_def m_bind_def store_frame_def store_ok_def Let_def)
next
  case False
  let ?n = "sb_page_count (ps_meta s)"
  have "0 < ps_page_size s" using s by (simp add: store_ok_def layout_ok_def)
  from factor_bound [OF r this] have b: "unat ?n + 1 < 2 ^ 64" .
  then have "?n < - 1" by (simp add: word_less_nat_alt unat_max_u64)
  then have su: "unat (sat_succ ?n) = unat ?n + 1" using sat_succ_less by simp
  have pre: "layout_ok s" "ps_extent_pages s = 0" "unat (sat_succ ?n) * ps_page_size s < 2 ^ 64"
    using s False r su by (auto simp: store_ok_def)
  obtain s' where "extend_to (sat_succ ?n) s = (s', Ok ())" "store_frame s s'" "ps_meta s' = ps_meta s"
      "ps_faults s' = ps_faults s" "layout_ok s'"
      "\<And>q. addressable s q \<Longrightarrow> q < sat_succ ?n \<Longrightarrow> page_image s q \<noteq> None \<Longrightarrow> page_image s' q = page_image s q"
    by (rule extend_to_mono [OF pre]) blast
  moreover have "addressable s q" "q < sat_succ ?n" if "q < ?n" for q
    using addressable_below [OF s that] that by (simp_all add: word_less_nat_alt su)
  ultimately show thesis
    using False s by (intro that [of s'])
      (auto simp: take_new_page_def m_then_def m_bind_def m_return_def Let_def quiet_def store_ok_def)
qed

lemma stamped_other: "pid \<noteq> 0 \<Longrightarrow> stamped crc s pid buffer g = finalize crc buffer g"
  by (simp add: stamped_def)

lemma blank_page_reads:
  assumes "layout_ok s"
  shows "header_decode (finalize crc (blank_page s pid ty) g) = Ok ((header_new pid ty (ps_page_size s))\<lparr>ph_generation := g\<rparr>)"
    and "check_image crc pid' (finalize crc (blank_page s pid ty) g) =
      Ok ((header_new pid ty (ps_page_size s))\<lparr>ph_generation := g\<rparr>, finalize crc (blank_page s pid ty) g)"
proof -
  have len: "72 \<le> length (replicate (ps_page_size s) (0 :: byte))" "72 \<le> length (blank_page s pid ty)"
    using assms by (simp_all add: layout_ok_def)
  have d: "header_decode (blank_page s pid ty) = Ok (header_new pid ty (ps_page_size s))"
    unfolding blank_page_def by (rule header_decode_encode [OF len(1)]) (simp add: header_new_def)
  show h: "header_decode (finalize crc (blank_page s pid ty) g) = Ok ((header_new pid ty (ps_page_size s))\<lparr>ph_generation := g\<rparr>)"
    by (rule header_decode_finalize [OF len(2) d])
  show "check_image crc pid' (finalize crc (blank_page s pid ty) g) =
      Ok ((header_new pid ty (ps_page_size s))\<lparr>ph_generation := g\<rparr>, finalize crc (blank_page s pid ty) g)"
    using h len(2) by (simp add: check_image_def verify_finalize_ok)
qed

lemma page_allocate_unfold:
  assumes "validate_free_list_metadata (ps_meta s) = Ok ()" "ty \<noteq> Superblock" "ty \<noteq> Free"
    and t: "(if sb_free_list_head (ps_meta s) \<noteq> 0 then m_read (take_free_head crc) else take_new_page) s
            = (s1, Ok (m, p, f))"
    and w: "m_then (m_modify (\<lambda>s. s\<lparr>ps_meta := m\<lparr>sb_generation := sat_succ (max (sb_generation m) f)\<rparr>\<rparr>))
              (write_page_raw crc p (blank_page s p ty) (sat_succ (max (sb_generation m) f))) s1 = (s', Ok ())"
  shows "page_allocate crc ty s = (s', Ok p)"
proof -
  have "m_bind (if sb_free_list_head (ps_meta s) \<noteq> 0 then m_read (take_free_head crc) else take_new_page) k s
      = k (m, p, f) s1" for k :: "_ \<Rightarrow> page_id store_m"
    using t by (rule m_bind_Ok)
  then show ?thesis
    using assms(1-3) w by (simp add: page_allocate_def m_then_def m_bind_Ok blank_page_def m_return_def Let_def)
qed

lemma take_page_ok:
  assumes wf: "alloc_wf crc s" and r: "room crc s"
  obtains s1 m p f where "(if sb_free_list_head (ps_meta s) \<noteq> 0 then m_read (take_free_head crc) else take_new_page) s
            = (s1, Ok (m, p, f))"
      "store_frame s s1" "quiet s1" "layout_ok s1"
      "\<And>q. q < sb_page_count (ps_meta s) \<Longrightarrow> page_image s q \<noteq> None \<Longrightarrow> page_image s1 q = page_image s q"
      "p = (if free_pages crc s = [] then sb_page_count (ps_meta s) else hd (free_pages crc s))"
      "free_chain crc s (sb_free_list_head m) (tl (free_pages crc s))"
      "unat (sb_free_page_count m) = length (tl (free_pages crc s))"
      "sb_page_count m = sb_page_count (ps_meta s) + (if free_pages crc s = [] then 1 else 0)"
      "sb_root_page m = sb_root_page (ps_meta s)"
      "p \<noteq> 0" "unat (sb_page_count m) * ps_page_size s \<le> 2 ^ 64" "p < sb_page_count m"
      "p \<notin> set (tl (free_pages crc s))" "sb_page_count (ps_meta s) \<le> sb_page_count m"
proof -
  let ?n = "sb_page_count (ps_meta s)" and ?ids = "free_pages crc s"
  have so: "store_ok s" "0 < ps_page_size s" and d: "distinct ?ids"
    and cnt: "unat (sb_free_page_count (ps_meta s)) = length ?ids"
    and ch: "free_chain crc s (sb_free_list_head (ps_meta s)) ?ids"
    using wf by (auto simp: alloc_wf_def store_ok_def layout_ok_def)
  show thesis
  proof (cases ?ids)
    case Nil
    with r have rm: "(unat ?n + 1) * ps_page_size s < 2 ^ 64" by (simp add: room_def)
    obtain s1 where "take_new_page s = (s1, Ok ((ps_meta s)\<lparr>sb_page_count := ?n + 1\<rparr>, ?n, 0))"
        "store_frame s s1" "quiet s1" "layout_ok s1"
        "\<And>q. q < ?n \<Longrightarrow> page_image s q \<noteq> None \<Longrightarrow> page_image s1 q = page_image s q"
      by (rule take_new_page_ok [OF so(1) rm]) blast
    moreover have "unat (?n + 1) = unat ?n + 1"
      by (rule unat_succ_u64) (rule factor_bound [OF rm so(2)])
    moreover have "?n \<noteq> 0" using so(1) by (auto simp: store_ok_def)
    ultimately show thesis
      using that [of s1 "(ps_meta s)\<lparr>sb_page_count := ?n + 1\<rparr>" ?n 0] ch cnt Nil so rm
      by (auto simp: store_ok_def word_less_nat_alt word_le_nat_alt algebra_simps)
  next
    case (Cons q qs)
    obtain nx g where nx: "take_free_head crc s = Ok ((ps_meta s)\<lparr>sb_free_list_head := nx,
        sb_free_page_count := sb_free_page_count (ps_meta s) - 1\<rparr>, q, g)" "free_chain crc s nx qs"
      using take_free_head_ok [OF wf Cons] by blast
    have u: "unat (sb_free_page_count (ps_meta s) - 1) = length qs"
      using cnt Cons by (subst unat_sub_u64) (auto simp: word_le_nat_alt)
    have q: "q \<noteq> 0" "q < ?n" "q \<notin> set qs" "sb_free_list_head (ps_meta s) = q"
      using ch d Cons by simp_all
    have s: "store_frame s s" "quiet s" "layout_ok s" "unat ?n * ps_page_size s \<le> 2 ^ 64"
      using so(1) by (simp_all add: store_ok_def store_frame_def)
    let ?m = "(ps_meta s)\<lparr>sb_free_list_head := nx, sb_free_page_count := sb_free_page_count (ps_meta s) - 1\<rparr>"
    show thesis
      by (rule that [of s ?m q g]) (use s(4) in \<open>simp_all add: Cons nx u q s m_read_def\<close>)
  qed
qed

lemma page_allocate_ok:
  assumes wf: "alloc_wf crc s" and ty: "ty \<noteq> Superblock" "ty \<noteq> Free" and r: "room crc s"
  obtains s' p g where "page_allocate crc ty s = (s', Ok p)" "alloc_wf crc s'" "store_frame s s'"
    "free_pages crc s' = tl (free_pages crc s)"
    "p = (if free_pages crc s = [] then sb_page_count (ps_meta s) else hd (free_pages crc s))"
    "sb_page_count (ps_meta s') = sb_page_count (ps_meta s) + (if free_pages crc s = [] then 1 else 0)"
    "sb_root_page (ps_meta s') = sb_root_page (ps_meta s)"
    "page_image s' p = Some (finalize crc (blank_page s p ty) g)"
    "\<And>q. q < sb_page_count (ps_meta s) \<Longrightarrow> q \<noteq> p \<Longrightarrow> page_image s q \<noteq> None \<Longrightarrow> page_image s' q = page_image s q"
proof -
  let ?n = "sb_page_count (ps_meta s)" and ?ids = "free_pages crc s"
  have so: "store_ok s" "0 < ps_page_size s" and d: "distinct ?ids"
    using wf by (auto simp: alloc_wf_def store_ok_def layout_ok_def)
  obtain s1 m p f where t: "(if sb_free_list_head (ps_meta s) \<noteq> 0 then m_read (take_free_head crc) else take_new_page) s
            = (s1, Ok (m, p, f))"
    and s1: "store_frame s s1" "quiet s1" "layout_ok s1"
      "\<And>q. q < ?n \<Longrightarrow> page_image s q \<noteq> None \<Longrightarrow> page_image s1 q = page_image s q"
    and p: "p = (if ?ids = [] then ?n else hd ?ids)"
    and m: "free_chain crc s (sb_free_list_head m) (tl ?ids)" "unat (sb_free_page_count m) = length (tl ?ids)"
      "sb_page_count m = ?n + (if ?ids = [] then 1 else 0)" "sb_root_page m = sb_root_page (ps_meta s)"
    and pa: "p \<noteq> 0" "unat (sb_page_count m) * ps_page_size s \<le> 2 ^ 64" "p < sb_page_count m" "p \<notin> set (tl ?ids)"
      "?n \<le> sb_page_count m"
    by (rule take_page_ok [OF wf r]) blast
  let ?g = "sat_succ (max (sb_generation m) f)"
  have fr: "addressable s1 = addressable s" "ps_page_size s1 = ps_page_size s"
    using addressable_frame [OF s1(1)] s1(1) by (auto simp: store_frame_def)
  have adr: "addressable s q" if "q < sb_page_count m" for q
    using addressable_below [of "s\<lparr>ps_meta := m\<rparr>" q] that so(1) pa by (auto simp: store_ok_def)
  have "length (blank_page s p ty) = ps_page_size s1" using so(1) fr by (simp add: store_ok_def)
  moreover have "addressable s1 p" using adr pa(3) fr by simp
  ultimately obtain s' where w: "m_then (m_modify (\<lambda>s. s\<lparr>ps_meta := m\<lparr>sb_generation := ?g\<rparr>\<rparr>))
              (write_page_raw crc p (blank_page s p ty) ?g) s1 = (s', Ok ())"
    and s': "ps_meta s' = m\<lparr>sb_generation := ?g\<rparr>" "store_frame s1 s'" "layout_ok s'" "quiet s'"
      "page_image s' p = Some (stamped crc s1 p (blank_page s p ty) ?g)"
      "\<And>q. addressable s1 q \<Longrightarrow> q \<noteq> p \<Longrightarrow> page_image s1 q \<noteq> None \<Longrightarrow> page_image s' q = page_image s1 q"
    using meta_and_write [OF s1(3,2), of "blank_page s p ty" p "m\<lparr>sb_generation := ?g\<rparr>" crc ?g] by blast
  have img: "page_image s' q = page_image s q" if "q < ?n" "q \<noteq> p" "page_image s q \<noteq> None" for q
    using s'(6) [of q] s1(4) [of q] that adr [of q] fr pa(5) by auto
  have "free_chain crc s' (sb_free_list_head m) (tl ?ids)"
    by (rule free_chain_keep [OF m(1) so(2) _ pa(4) img]) (use pa(5) s'(1) in simp_all)
  moreover have "store_ok s'"
    using so(1) s1(1) s' pa by (auto simp: store_ok_def store_frame_def word_gt_0)
  ultimately have "alloc_wf crc s'" "free_pages crc s' = tl ?ids"
    using alloc_wfI [of s' "tl ?ids" crc] m(2) d s'(1) by (simp_all add: distinct_tl)
  moreover have "page_allocate crc ty s = (s', Ok p)"
    by (rule page_allocate_unfold [OF validate_ok [OF wf] ty t w])
  ultimately show thesis
    using that [of s' p ?g] s' store_frame_trans [OF s1(1) s'(2)] img p m pa(1) by (simp add: stamped_other)
qed

section \<open>Release\<close>

lemma free_image_header:
  assumes "layout_ok s"
  shows "\<exists>h. check_image crc pid' (finalize crc (free_image s pid nx) g) = Ok (h, finalize crc (free_image s pid nx) g) \<and>
    ph_page_type h = Free \<and> ph_next_page h = nx \<and> ph_generation h = g"
proof -
  let ?h = "(header_new pid Free (ps_page_size s))\<lparr>ph_next_page := nx\<rparr>"
  have len: "72 \<le> length (replicate (ps_page_size s) (0 :: byte))" "72 \<le> length (free_image s pid nx)"
    using assms by (simp_all add: layout_ok_def free_image_def)
  have "header_decode (free_image s pid nx) = Ok ?h"
    unfolding free_image_def by (rule header_decode_encode [OF len(1)]) (simp add: header_new_def)
  from header_decode_finalize [OF len(2) this, of crc g] len(2)
  show ?thesis by (simp add: check_image_def verify_finalize_ok header_new_def)
qed

lemma page_free_cases:
  assumes wf: "alloc_wf crc s"
  shows "(\<exists>e. page_free crc p s = (s, Err e)) \<or> (\<exists>s' g. page_free crc p s = (s', Ok ()) \<and>
    p \<noteq> 0 \<and> p \<noteq> sb_root_page (ps_meta s) \<and> p \<in> live_pages crc s \<and> alloc_wf crc s' \<and> store_frame s s' \<and>
    free_pages crc s' = p # free_pages crc s \<and> sb_page_count (ps_meta s') = sb_page_count (ps_meta s) \<and>
    sb_root_page (ps_meta s') = sb_root_page (ps_meta s) \<and>
    page_image s' p = Some (finalize crc (free_image s p (sb_free_list_head (ps_meta s))) g) \<and>
    (\<forall>q. q < sb_page_count (ps_meta s) \<and> q \<noteq> p \<and> page_image s q \<noteq> None \<longrightarrow> page_image s' q = page_image s q))"
proof (cases "\<exists>h. read_header crc s p = Ok h \<and> p \<noteq> 0 \<and> p < sb_page_count (ps_meta s) \<and>
    p \<noteq> sb_root_page (ps_meta s) \<and> ph_page_type h \<noteq> Free \<and> ph_page_type h \<noteq> Superblock")
  case False
  have "read_header crc s p \<noteq> Panic"
    by (auto simp: read_header_def read_page_unchecked_def verify_def header_decode_def Let_def
        split: prod.splits if_splits option.splits result.splits)
  with False have "\<exists>e. page_free crc p s = (s, Err e)"
    by (cases "read_header crc s p")
       (auto simp: page_free_def validate_ok [OF wf] m_err_def not_le Let_def)
  then show ?thesis ..
next
  case True
  then obtain h where h: "read_header crc s p = Ok h" "p \<noteq> 0" "p < sb_page_count (ps_meta s)"
      "p \<noteq> sb_root_page (ps_meta s)" "ph_page_type h \<noteq> Free" "ph_page_type h \<noteq> Superblock" by blast
  let ?m = "ps_meta s" and ?ids = "free_pages crc s"
  let ?g = "sat_succ (max (sb_generation ?m) (ph_generation h))"
  let ?m' = "?m\<lparr>sb_free_list_head := p, sb_free_page_count := sb_free_page_count ?m + 1, sb_generation := ?g\<rparr>"
  have so: "store_ok s" "layout_ok s" "quiet s" "0 < ps_page_size s" and d: "distinct ?ids"
    and cnt: "unat (sb_free_page_count ?m) = length ?ids"
    and ch: "free_chain crc s (sb_free_list_head ?m) ?ids"
    using wf by (auto simp: alloc_wf_def store_ok_def layout_ok_def)
  have pn: "p \<notin> set ?ids" using free_chainD [OF ch, of p] h by auto
  obtain s' where w: "m_then (m_modify (\<lambda>s. s\<lparr>ps_meta := ?m'\<rparr>))
        (write_page_raw crc p (free_image s p (sb_free_list_head ?m)) ?g) s = (s', Ok ())"
    and s': "ps_meta s' = ?m'" "store_frame s s'" "layout_ok s'" "quiet s'"
      "page_image s' p = Some (stamped crc s p (free_image s p (sb_free_list_head ?m)) ?g)"
      "\<And>q. addressable s q \<Longrightarrow> q \<noteq> p \<Longrightarrow> page_image s q \<noteq> None \<Longrightarrow> page_image s' q = page_image s q"
    using meta_and_write [OF so(2,3), of "free_image s p (sb_free_list_head ?m)" p ?m' crc ?g]
      addressable_below [OF so(1) h(3)] so(2) by (auto simp: free_image_def layout_ok_def)
  have img: "page_image s' q = page_image s q" if "q < sb_page_count ?m" "q \<noteq> p" "page_image s q \<noteq> None" for q
    using s'(6) [of q] that addressable_below [OF so(1)] by simp
  have "free_chain crc s' (sb_free_list_head ?m) ?ids"
    by (rule free_chain_keep [OF ch so(4) _ pn img]) (simp_all add: s'(1))
  moreover obtain h' where "read_header crc s' p = Ok h'" "ph_page_type h' = Free" "ph_next_page h' = sb_free_list_head ?m"
    using free_image_header [OF so(2), of crc p p "sb_free_list_head ?m" ?g] read_header_image [OF s'(5), of crc] h(2)
    by (auto simp: stamped_other)
  ultimately have "free_chain crc s' (sb_free_list_head ?m') (p # ?ids)" using h(2,3) s'(1) by simp
  moreover have "unat (sb_free_page_count ?m') = length (p # ?ids)"
    using chain_length [OF ch d] so(1) cnt unat_less_u64 [of "sb_page_count ?m"]
    by (simp add: unat_succ_u64 store_ok_def)
  moreover have "store_ok s'" by (rule store_ok_frame [OF so(1) s'(2-4)]) (simp add: s'(1))
  ultimately have "alloc_wf crc s'" "free_pages crc s' = p # ?ids"
    using alloc_wfI [of s' "p # ?ids" crc] d pn s'(1) by simp_all
  moreover have "page_free crc p s = (s', Ok ())"
    using h w by (auto simp: page_free_def validate_ok [OF wf] not_le [symmetric] Let_def)
  ultimately show ?thesis
    using h s' img pn by (auto simp: live_pages_def stamped_other)
qed

section \<open>The contract of a page allocator\<close>

text \<open>
  A client allocates and releases pages in any order. \<open>alloc_run\<close> runs such a history and keeps
  the pages handed out and not yet released; failed calls change nothing for the client.
\<close>

datatype alloc_op = Alloc page_type | Release page_id

fun alloc_run ::
  "(page_type \<Rightarrow> 's \<Rightarrow> 's \<times> page_id res) \<Rightarrow> (page_id \<Rightarrow> 's \<Rightarrow> 's \<times> unit res) \<Rightarrow>
   alloc_op list \<Rightarrow> 's \<Rightarrow> page_id list \<Rightarrow> 's \<times> page_id list" where
  "alloc_run alloc release [] s held = (s, held)"
| "alloc_run alloc release (Alloc ty # ops) s held =
     (case alloc ty s of
        (s', Ok p) \<Rightarrow> alloc_run alloc release ops s' (p # held)
      | (s', _) \<Rightarrow> alloc_run alloc release ops s' held)"
| "alloc_run alloc release (Release p # ops) s held =
     (case release p s of
        (s', Ok _) \<Rightarrow> alloc_run alloc release ops s' (removeAll p held)
      | (s', _) \<Rightarrow> alloc_run alloc release ops s' held)"

locale page_allocator =
  fixes inv :: "'s \<Rightarrow> bool"
    and live :: "'s \<Rightarrow> page_id set"
    and content :: "'s \<Rightarrow> page_id \<Rightarrow> bytes option"
    and budget :: "'s \<Rightarrow> nat"
    and alloc :: "page_type \<Rightarrow> 's \<Rightarrow> 's \<times> page_id res"
    and release :: "page_id \<Rightarrow> 's \<Rightarrow> 's \<times> unit res"
  assumes alloc_law: "inv s \<Longrightarrow> 0 < budget s \<Longrightarrow> alloc ty s = (s', r) \<Longrightarrow>
      inv s' \<and> budget s \<le> Suc (budget s') \<and>
      (case r of Ok p \<Rightarrow> p \<notin> live s \<and> live s' = insert p (live s) | _ \<Rightarrow> live s' = live s) \<and>
      (\<forall>q \<in> live s. content s q \<noteq> None \<longrightarrow> content s' q = content s q)"
    and release_law: "inv s \<Longrightarrow> release p s = (s', r') \<Longrightarrow>
      inv s' \<and> budget s \<le> budget s' \<and>
      (case r' of Ok _ \<Rightarrow> p \<in> live s \<and> live s' = live s - {p} | _ \<Rightarrow> live s' = live s) \<and>
      (\<forall>q \<in> live s - {p}. content s q \<noteq> None \<longrightarrow> content s' q = content s q)"
begin

lemma run_step:
  assumes "inv s" "0 < budget s" "distinct held" "set held \<subseteq> live s"
    and "alloc_run alloc release (op # ops) s held = (s', held')"
  shows "\<exists>s1 held1. alloc_run alloc release ops s1 held1 = (s', held') \<and> inv s1 \<and> budget s \<le> Suc (budget s1) \<and>
    distinct held1 \<and> set held1 \<subseteq> live s1 \<and>
    (\<forall>q \<in> live s. op \<noteq> Release q \<longrightarrow> q \<in> live s1 \<and> (content s q \<noteq> None \<longrightarrow> content s1 q = content s q))"
proof (cases op)
  case (Alloc ty)
  obtain s1 r where r: "alloc ty s = (s1, r)" by fastforce
  note l = alloc_law [OF assms(1,2) r]
  show ?thesis
    using l assms(3-5) Alloc r
    by (intro exI [of _ s1] exI [of _ "case r of Ok p \<Rightarrow> p # held | _ \<Rightarrow> held"]) (auto split: result.splits)
next
  case (Release p)
  obtain s1 r where r: "release p s = (s1, r)" by fastforce
  note l = release_law [OF assms(1) r]
  show ?thesis
    using l assms(3-5) Release r
    by (intro exI [of _ s1] exI [of _ "case r of Ok _ \<Rightarrow> removeAll p held | _ \<Rightarrow> held"])
       (auto simp: distinct_removeAll split: result.splits)
qed

lemma run_sound:
  assumes "inv s" "length ops \<le> budget s" "distinct held" "set held \<subseteq> live s"
    and "alloc_run alloc release ops s held = (s', held')"
  shows "inv s' \<and> distinct held' \<and> set held' \<subseteq> live s' \<and>
    (\<forall>q \<in> live s. Release q \<notin> set ops \<longrightarrow> q \<in> live s' \<and> (content s q \<noteq> None \<longrightarrow> content s' q = content s q))"
  using assms
proof (induction ops arbitrary: s held)
  case Nil
  then show ?case by simp
next
  case (Cons op ops)
  have "0 < budget s" using Cons.prems(2) by simp
  from run_step [OF Cons.prems(1) this Cons.prems(3-5)] obtain s1 held1
    where s1: "alloc_run alloc release ops s1 held1 = (s', held')" "inv s1" "budget s \<le> Suc (budget s1)"
      "distinct held1" "set held1 \<subseteq> live s1"
      "\<forall>q \<in> live s. op \<noteq> Release q \<longrightarrow> q \<in> live s1 \<and> (content s q \<noteq> None \<longrightarrow> content s1 q = content s q)"
    by blast
  have "length ops \<le> budget s1" using Cons.prems(2) s1(3) by simp
  from Cons.IH [OF s1(2) this s1(4,5,1)] s1(6) show ?case by auto
qed

end

definition page_budget :: "(bytes \<Rightarrow> u32) \<Rightarrow> page_store \<Rightarrow> nat" where
  "page_budget crc s = (2 ^ 64 - 1) div ps_page_size s - unat (sb_page_count (ps_meta s)) + length (free_pages crc s)"

lemma page_budget_room: "alloc_wf crc s \<Longrightarrow> 0 < page_budget crc s \<Longrightarrow> room crc s"
proof (cases "free_pages crc s = []")
  case True
  let ?n = "unat (sb_page_count (ps_meta s))"
  assume "alloc_wf crc s" "0 < page_budget crc s"
  with True have "Suc ?n \<le> (2 ^ 64 - 1) div ps_page_size s" "0 < ps_page_size s"
    by (auto simp: page_budget_def alloc_wf_def store_ok_def layout_ok_def)
  then have "Suc ?n * ps_page_size s \<le> 2 ^ 64 - 1" by (simp only: less_eq_div_iff_mult_less_eq)
  then show ?thesis by (simp add: room_def)
qed (simp add: room_def)

lemma live_pages_disjoint: "live_pages crc s \<inter> set (free_pages crc s) = {}"
  by (auto simp: live_pages_def)

lemma allocate_live:
  assumes wf: "alloc_wf crc s" and r: "room crc s" and s': "alloc_wf crc s'"
    and fp: "free_pages crc s' = tl (free_pages crc s)"
    and p: "p = (if free_pages crc s = [] then sb_page_count (ps_meta s) else hd (free_pages crc s))"
    and pc: "sb_page_count (ps_meta s') = sb_page_count (ps_meta s) + (if free_pages crc s = [] then 1 else 0)"
    and ps: "ps_page_size s' = ps_page_size s"
  shows "p \<notin> live_pages crc s" "live_pages crc s' = insert p (live_pages crc s)"
    "page_budget crc s \<le> Suc (page_budget crc s')" "p < sb_page_count (ps_meta s')"
proof -
  let ?n = "sb_page_count (ps_meta s)"
  have "p \<notin> live_pages crc s \<and> live_pages crc s' = insert p (live_pages crc s) \<and>
    page_budget crc s \<le> Suc (page_budget crc s') \<and> p < sb_page_count (ps_meta s')"
  proof (cases "free_pages crc s")
    case Nil
    have pos: "0 < ps_page_size s" using wf by (simp add: alloc_wf_def store_ok_def layout_ok_def)
    have rm: "(unat ?n + 1) * ps_page_size s < 2 ^ 64" using r Nil by (simp add: room_def)
    have u: "unat (?n + 1) = unat ?n + 1" by (rule unat_succ_u64) (rule factor_bound [OF rm pos])
    have lt: "q < ?n + 1 \<longleftrightarrow> q < ?n \<or> q = ?n" for q :: u64
      unfolding word_less_nat_alt word_unat_eq_iff u by linarith
    show ?thesis
      using p pc fp ps Nil u by (simp add: live_pages_def page_budget_def lt Collect_disj_eq)
  next
    case (Cons q qs)
    have "distinct (q # qs)" "q < ?n" using wf Cons by (auto simp: alloc_wf_def)
    with Cons show ?thesis using p pc fp ps by (auto simp: live_pages_def page_budget_def)
  qed
  then show "p \<notin> live_pages crc s" "live_pages crc s' = insert p (live_pages crc s)"
    "page_budget crc s \<le> Suc (page_budget crc s')" "p < sb_page_count (ps_meta s')" by auto
qed

interpretation store_alloc: page_allocator "alloc_wf crc" "live_pages crc" page_image "page_budget crc"
  "page_allocate crc" "page_free crc" for crc
proof
  fix s s' ty r
  assume wf: "alloc_wf crc s" and b: "0 < page_budget crc s" and a: "page_allocate crc ty s = (s', r)"
  show "alloc_wf crc s' \<and> page_budget crc s \<le> Suc (page_budget crc s') \<and>
      (case r of Ok p \<Rightarrow> p \<notin> live_pages crc s \<and> live_pages crc s' = insert p (live_pages crc s)
       | _ \<Rightarrow> live_pages crc s' = live_pages crc s) \<and>
      (\<forall>q \<in> live_pages crc s. page_image s q \<noteq> None \<longrightarrow> page_image s' q = page_image s q)"
  proof (cases "ty = Superblock \<or> ty = Free")
    case True
    with a wf show ?thesis by (auto simp: page_allocate_def)
  next
    case False
    note r = page_budget_room [OF wf b]
    obtain p where p: "r = Ok p" "alloc_wf crc s'" "store_frame s s'" "free_pages crc s' = tl (free_pages crc s)"
      "p = (if free_pages crc s = [] then sb_page_count (ps_meta s) else hd (free_pages crc s))"
      "sb_page_count (ps_meta s') = sb_page_count (ps_meta s) + (if free_pages crc s = [] then 1 else 0)"
      "\<And>q. q < sb_page_count (ps_meta s) \<Longrightarrow> q \<noteq> p \<Longrightarrow> page_image s q \<noteq> None \<Longrightarrow> page_image s' q = page_image s q"
      by (rule page_allocate_ok [OF wf _ _ r, of ty]) (use False a in auto)
    have "ps_page_size s' = ps_page_size s" using p(3) by (simp add: store_frame_def)
    note l = allocate_live [OF wf r p(2,4,5,6) this]
    have "page_image s' q = page_image s q" if "q \<in> live_pages crc s" "page_image s q \<noteq> None" for q
      using that l(1) by (intro p(7)) (auto simp: live_pages_def)
    with p(1,2) l show ?thesis by simp
  qed
next
  fix s s' p r
  assume wf: "alloc_wf crc s" and f: "page_free crc p s = (s', r)"
  show "alloc_wf crc s' \<and> page_budget crc s \<le> page_budget crc s' \<and>
      (case r of Ok _ \<Rightarrow> p \<in> live_pages crc s \<and> live_pages crc s' = live_pages crc s - {p}
       | _ \<Rightarrow> live_pages crc s' = live_pages crc s) \<and>
      (\<forall>q \<in> live_pages crc s - {p}. page_image s q \<noteq> None \<longrightarrow> page_image s' q = page_image s q)"
    using page_free_cases [OF wf, of p] f wf
    by (auto simp: live_pages_def page_budget_def store_frame_def)
qed

text \<open>A new store holds its superblock only.\<close>

lemma write_superblock_meta_wrote:
  assumes "layout_ok s" "quiet s"
  shows "\<exists>s'. write_superblock_meta crc meta s = (s', Ok ()) \<and>
    wrote s 0 (stamped crc s 0 (superblock_page s meta) (max (sb_generation meta) 1)) s'"
  using write_page_raw_wrote [OF assms(2) length_superblock_page [OF assms(1)] assms(1)]
  by (simp add: write_superblock_meta_def)

lemma open_new_wf:
  assumes "validate_page_size (so_page_size options) = Ok ()"
  obtains s where "open_new crc options = (s, Ok ())" "alloc_wf crc s" "free_pages crc s = []"
    "live_pages crc s = {0}" "sb_page_count (ps_meta s) = 1" "ps_page_size s = so_page_size options"
    "page_image s 0 \<noteq> None" "dirty_ok s" "ps_migration_target_pages s = 0"
    "ps_extent_pages s = so_extent_bytes options div of_nat (so_page_size options)"
proof -
  let ?s0 = "(fresh_store options [])\<lparr>ps_extent_pages := so_extent_bytes options div of_nat (so_page_size options),
       ps_meta := superblock_default\<lparr>sb_page_count := 1\<rparr>\<rparr>"
  have ps: "512 \<le> so_page_size options" "so_page_size options \<le> 1048576"
    using assms by (auto simp: validate_page_size_def split: if_splits)
  then have lo: "layout_ok ?s0" "quiet ?s0" by (simp_all add: layout_ok_def quiet_def fresh_store_def no_faults_def)
  obtain s img where s: "open_new crc options = (s, Ok ())" "wrote ?s0 0 img s"
    using write_superblock_meta_wrote [OF lo] unfolding open_new_def write_superblock_def by blast
  note w = wroteD [OF s(2) lo(1)]
  have st: "store_ok s"
    using w ps by (auto simp: store_ok_def store_frame_def fresh_store_def)
  have fc: "free_chain crc s (sb_free_list_head (ps_meta s)) []" "unat (sb_free_page_count (ps_meta s)) = length []"
    using w(2) by (simp_all add: superblock_default_def)
  have wf: "alloc_wf crc s" "free_pages crc s = []"
    using alloc_wfI [OF st _ fc(2,1)] by simp_all
  moreover have "live_pages crc s = {0}"
    using w(2) wf(2) by (auto simp: live_pages_def superblock_default_def word_less_1)
  moreover have "page_image s 0 \<noteq> None" using w(7) ps by (simp add: addressable_def fresh_store_def)
  moreover have "dirty_ok s" using s(2) lo(1) by (simp add: wrote_def dirty_ok_def fresh_store_def)
  ultimately show thesis
    using that [OF s(1)] w ps by (simp add: fresh_store_def store_frame_def superblock_default_def)
qed

text \<open>
  C24. Allocation on a well-formed store never fails: it returns a page that was not in use, the
  head of the free list or else the page behind the end of the file, which then reads as an empty
  page of the requested type. Every page in use keeps its bytes, and the free list stays
  well-formed.
\<close>

theorem allocate_returns_blank_page:
  assumes "alloc_wf crc s" "room crc s" "ty \<noteq> Superblock" "ty \<noteq> Free"
  shows "\<exists>s' p g. page_allocate crc ty s = (s', Ok p) \<and> alloc_wf crc s' \<and> p \<notin> live_pages crc s \<and>
    live_pages crc s' = insert p (live_pages crc s) \<and> free_pages crc s' = tl (free_pages crc s) \<and>
    read_page crc s' p = Ok ((header_new p ty (ps_page_size s))\<lparr>ph_generation := g\<rparr>,
      finalize crc (header_encode (header_new p ty (ps_page_size s)) (replicate (ps_page_size s) 0)) g) \<and>
    (\<forall>q \<in> live_pages crc s. page_image s q \<noteq> None \<longrightarrow> read_page crc s' q = read_page crc s q)"
proof -
  obtain s' p g where p: "page_allocate crc ty s = (s', Ok p)" "alloc_wf crc s'" "store_frame s s'"
    "free_pages crc s' = tl (free_pages crc s)"
    "p = (if free_pages crc s = [] then sb_page_count (ps_meta s) else hd (free_pages crc s))"
    "sb_page_count (ps_meta s') = sb_page_count (ps_meta s) + (if free_pages crc s = [] then 1 else 0)"
    "page_image s' p = Some (finalize crc (blank_page s p ty) g)"
    "\<And>q. q < sb_page_count (ps_meta s) \<Longrightarrow> q \<noteq> p \<Longrightarrow> page_image s q \<noteq> None \<Longrightarrow> page_image s' q = page_image s q"
    by (rule page_allocate_ok [OF assms(1,3,4,2)]) blast
  have "ps_page_size s' = ps_page_size s" using p(3) by (simp add: store_frame_def)
  note l = allocate_live [OF assms(1,2) p(2,4,5,6) this]
  have "read_page crc s' q = read_page crc s q" if q: "q \<in> live_pages crc s" "page_image s q \<noteq> None" for q
  proof -
    have "q < sb_page_count (ps_meta s')" using l(2) q(1) by (auto simp: live_pages_def)
    moreover have "q < sb_page_count (ps_meta s)" "q \<noteq> p" using q(1) l(1) by (auto simp: live_pages_def)
    ultimately show ?thesis using p(8) [of q] q(2) by (auto simp: read_page_def read_page_unchecked_image)
  qed
  moreover have "read_page crc s' p = Ok ((header_new p ty (ps_page_size s))\<lparr>ph_generation := g\<rparr>, finalize crc (blank_page s p ty) g)"
    using l(4) blank_page_reads(2) [of s crc p p ty g] assms(1) read_page_unchecked_image [OF p(7)]
    by (simp add: read_page_def alloc_wf_def store_ok_def)
  ultimately show ?thesis using p l by (auto simp: blank_page_def)
qed

abbreviation (input) small_store :: store_options where
  "small_store \<equiv> \<lparr> so_page_size = 512, so_fsync = False, so_extent_bytes = 0 \<rparr>"

lemma small_store_valid: "validate_page_size (so_page_size small_store) = Ok ()"
  by (simp add: validate_page_size_def is_power_of_two.simps)

theorem allocate_returns_blank_page_witness:
  "\<exists>s' p. page_allocate (\<lambda>_. 7) Heap (fst (open_new (\<lambda>_. 7) small_store)) = (s', Ok p) \<and>
     live_pages (\<lambda>_. 7) s' = {0, p} \<and> p \<noteq> 0"
proof -
  obtain s where s: "open_new (\<lambda>_. 7) small_store = (s, Ok ())" "alloc_wf (\<lambda>_. 7) s" "free_pages (\<lambda>_. 7) s = []"
      "live_pages (\<lambda>_. 7) s = {0}" "sb_page_count (ps_meta s) = 1" "ps_page_size s = so_page_size small_store"
    by (rule open_new_wf [OF small_store_valid]) blast
  moreover have "room (\<lambda>_. 7) s" using s by (simp add: room_def)
  ultimately show ?thesis
    using allocate_returns_blank_page [of "\<lambda>_. 7" s Heap] by auto
qed

text \<open>
  C8. No page is handed out twice: over any history of allocations and releases, with failed
  calls in between, the pages a client holds are distinct and in use, and a page in use that the
  history does not release keeps its bytes. The bound on the length keeps file offsets within
  64 bits.
\<close>

theorem allocation_history_safe:
  assumes "alloc_wf crc s" "length ops \<le> page_budget crc s"
    and "alloc_run (page_allocate crc) (page_free crc) ops s [] = (s', held)"
  shows "alloc_wf crc s' \<and> distinct held \<and> set held \<subseteq> live_pages crc s' \<and>
    (\<forall>q \<in> live_pages crc s. Release q \<notin> set ops \<longrightarrow>
       q \<in> live_pages crc s' \<and> (page_image s q \<noteq> None \<longrightarrow> page_image s' q = page_image s q))"
  using store_alloc.run_sound [OF assms(1,2) _ _ assms(3)] by simp

theorem allocation_history_safe_witness:
  "let (s', held) = alloc_run (page_allocate (\<lambda>_. 7)) (page_free (\<lambda>_. 7)) [Alloc Heap, Alloc BTreeLeaf, Release 1, Alloc Overflow]
     (fst (open_new (\<lambda>_. 7) small_store)) []
   in alloc_wf (\<lambda>_. 7) s' \<and> distinct held \<and> 0 \<in> live_pages (\<lambda>_. 7) s'"
proof -
  let ?ops = "[Alloc Heap, Alloc BTreeLeaf, Release 1, Alloc Overflow]"
  obtain s where s: "open_new (\<lambda>_. 7) small_store = (s, Ok ())" "alloc_wf (\<lambda>_. 7) s" "free_pages (\<lambda>_. 7) s = []"
      "live_pages (\<lambda>_. 7) s = {0}" "sb_page_count (ps_meta s) = 1" "ps_page_size s = so_page_size small_store"
    by (rule open_new_wf [OF small_store_valid]) blast
  then have "length ?ops \<le> page_budget (\<lambda>_. 7) s" by (simp add: page_budget_def)
  with s show ?thesis
    using allocation_history_safe [of "\<lambda>_. 7" s ?ops]
    by (cases "alloc_run (page_allocate (\<lambda>_. 7)) (page_free (\<lambda>_. 7)) ?ops s []") auto
qed

end
