(* ===== verification/Page_Migration.thy ===== *)
theory Page_Migration
  imports Free_List
begin

text \<open>
  The online migration of a monolithic page file to extent segments
  (\<open>begin_extent_migration\<close> and \<open>advance_extent_migration\<close> of
  \<open>crates/bicdb-page/src/manager.rs\<close>), and reopening a store from its files. One call is
  atomic here: the migration gate serialises the copier with writers.
\<close>

section \<open>Definitions\<close>

record migration_report =
  mr_pages_copied :: u64
  mr_watermark :: u64
  mr_complete :: bool

definition begin_extent_migration :: "(bytes \<Rightarrow> u32) \<Rightarrow> u64 \<Rightarrow> unit store_m" where
  "begin_extent_migration crc extent_bytes s =
     m_bind (m_lift (validate_extent_bytes extent_bytes (ps_page_size s))) (\<lambda>_.
       if extent_bytes = 0 then m_err (InvalidExtentBytes extent_bytes (ps_page_size s))
       else if ps_extent_pages s > 0 then m_err InvalidMaintenanceLimits
       else let target = extent_bytes div of_nat (ps_page_size s);
                current = ps_migration_target_pages s
            in if current = target then m_return ()
               else if current \<noteq> 0 then m_err InvalidMaintenanceLimits
               else m_then (m_modify (\<lambda>s. s\<lparr>ps_migration_target_pages := target,
                                          ps_migration_watermark := target\<rparr>))
                 (m_then (write_superblock_meta crc (ps_meta s)) sync_data_observed)) s"

definition copy_buffer_pages :: "nat \<Rightarrow> nat" where
  "copy_buffer_pages page_size = max (8 * 1024 * 1024 div page_size) 1"

definition copy_run_length :: "nat \<Rightarrow> u64 \<Rightarrow> u64 \<Rightarrow> u64 \<Rightarrow> u64" where
  "copy_run_length page_size target end_page cursor =
     min (min (end_page - cursor) (of_nat (copy_buffer_pages page_size))) (target - cursor mod target)"

definition copy_run :: "u64 \<Rightarrow> u64 \<Rightarrow> u64 \<Rightarrow> unit store_m" where
  "copy_run target cursor run s =
     (let bytes = unat (run * of_nat (ps_page_size s));
          buffer = read_at (ps_segments s ! 0) bytes (file_offset cursor (of_nat (ps_page_size s)))
      in if length buffer \<noteq> bytes then (s, Err (ShortRead cursor (length buffer) bytes))
         else let segment = unat (cursor div target);
                  s = ensure_segment segment s
              in (s\<lparr>ps_segments := (ps_segments s)[segment :=
                     write_at (ps_segments s ! segment) buffer (cursor mod target * of_nat (ps_page_size s))]\<rparr>, Ok ()))"

lemma word_mod_less: "(0 :: u64) < t \<Longrightarrow> c mod t < t"
  by (simp add: word_less_nat_alt unat_mod word_gt_0 unat_gt_0)

lemma copy_run_length_bounds:
  assumes "0 < t" "c < e"
  shows "0 < copy_run_length ps t e c" "unat (copy_run_length ps t e c) \<le> unat e - unat c"
    "unat (c mod t) + unat (copy_run_length ps t e c) \<le> unat t"
proof -
  have m: "unat (c mod t) < unat t" using word_mod_less [OF assms(1)] by (simp add: word_less_nat_alt)
  have "copy_buffer_pages ps \<le> 8 * 1024 * 1024" "0 < copy_buffer_pages ps"
    by (simp_all add: copy_buffer_pages_def div_le_dividend)
  then have b: "unat (of_nat (copy_buffer_pages ps) :: u64) = copy_buffer_pages ps" "0 < copy_buffer_pages ps"
    by (simp_all add: unat_of_nat_u64)
  have u: "unat (e - c) = unat e - unat c" "unat (t - c mod t) = unat t - unat (c mod t)"
    using assms(2) m by (simp_all add: unat_sub_u64 word_le_nat_alt word_less_nat_alt)
  have r: "unat (copy_run_length ps t e c) =
      min (min (unat e - unat c) (copy_buffer_pages ps)) (unat t - unat (c mod t))"
    using u b(1) by (simp add: copy_run_length_def min_def word_le_nat_alt)
  show "0 < copy_run_length ps t e c"
    using r assms(2) b(2) m by (simp add: word_less_nat_alt)
  show "unat (copy_run_length ps t e c) \<le> unat e - unat c" using r by simp
  show "unat (c mod t) + unat (copy_run_length ps t e c) \<le> unat t" using r m by simp
qed

function copy_loop :: "u64 \<Rightarrow> u64 \<Rightarrow> u64 \<Rightarrow> unit store_m" where
  "copy_loop target end_page cursor s =
     (if target = 0 then (s, Panic)
      else if cursor < end_page
      then let run = copy_run_length (ps_page_size s) target end_page cursor in
           case copy_run target cursor run s of
             (s', Ok _) \<Rightarrow> copy_loop target end_page (cursor + run) s'
           | (s', Err e) \<Rightarrow> (s', Err e)
           | (s', Panic) \<Rightarrow> (s', Panic)
      else (s, Ok ()))"
  by pat_completeness auto

termination
proof (relation "measure (\<lambda>(target, end_page, cursor, s). unat end_page - unat cursor)", goal_cases)
  case (2 t e c s run)
  then have lt: "0 < t" "c < e" by (auto simp: word_gt_0)
  note b = copy_run_length_bounds [OF lt, of "ps_page_size s"]
  have "unat (c + run) = unat c + unat run"
    by (rule unat_add_u64) (use b(2) 2(3) lt(2) unat_less_u64 [of e] in \<open>simp add: word_less_nat_alt\<close>)
  with b(1,2) lt(2) 2(3) show ?case by (simp add: word_less_nat_alt)
qed auto

declare copy_loop.simps [simp del]

definition advance_extent_migration :: "(bytes \<Rightarrow> u32) \<Rightarrow> u64 \<Rightarrow> migration_report store_m" where
  "advance_extent_migration crc max_pages s =
     (let target = ps_migration_target_pages s; max_pages = max max_pages 1;
          watermark = ps_migration_watermark s; meta = ps_meta s; page_count = sb_page_count meta
      in if target = 0 then (s, Err InvalidMaintenanceLimits)
         else if watermark \<ge> page_count
         then m_then (m_modify (\<lambda>s. s\<lparr>ps_extent_pages := target, ps_migration_target_pages := 0,
                                    ps_migration_watermark := 0\<rparr>))
           (m_then (write_superblock_meta crc meta)
           (m_then sync_data_observed
           (m_then (m_modify (\<lambda>s. s\<lparr>ps_segments := (ps_segments s)[0 :=
                      set_len (ps_segments s ! 0) (unat (target * of_nat (ps_page_size s)))]\<rparr>))
             (m_return \<lparr> mr_pages_copied = 0, mr_watermark = 0, mr_complete = True \<rparr>)))) s
         else let end_page = min page_count (sat_add watermark max_pages) in
           m_then (copy_loop target end_page watermark)
           (m_then (m_modify (\<lambda>s. s\<lparr>ps_migration_watermark := end_page\<rparr>))
           (m_then (write_superblock crc)
           (m_then store_sync
             (m_return \<lparr> mr_pages_copied = end_page - watermark, mr_watermark = end_page, mr_complete = False \<rparr>)))) s)"

section \<open>Page slots of segment files\<close>

definition slot_bytes :: "page_store \<Rightarrow> nat \<times> nat \<Rightarrow> bytes option" where
  "slot_bytes s = (\<lambda>(i, k).
     if i < length (ps_segments s) \<and> k * ps_page_size s + ps_page_size s \<le> length (ps_segments s ! i)
     then Some (slice_of (ps_segments s ! i) (k * ps_page_size s) (ps_page_size s)) else None)"

lemma slot_bytes_cong:
  "ps_segments s' = ps_segments s \<Longrightarrow> ps_page_size s' = ps_page_size s \<Longrightarrow> slot_bytes s' = slot_bytes s"
  by (auto simp: slot_bytes_def fun_eq_iff)

lemma page_image_slot:
  assumes "layout_ok s" "addressable s p"
  shows "page_image s p = slot_bytes s (locate_slot s (unat p))"
proof -
  obtain i off where loc: "locate s p = (i, off)" by fastforce
  obtain k where "locate_slot s (unat p) = (i, k)" "unat off = k * ps_page_size s"
    using locate_locate_slot [OF assms loc] by blast
  with loc show ?thesis by (simp add: page_image_Some slot_bytes_def)
qed

text \<open>
  What copying the pages from \<open>c\<close> up to \<open>d\<close> does: the base file is untouched, the slots of the
  copied pages hold their monolithic bytes, and every other slot is kept.
\<close>

definition copied :: "nat \<Rightarrow> nat \<Rightarrow> nat \<Rightarrow> page_store \<Rightarrow> page_store \<Rightarrow> bool" where
  "copied t c d s s' \<longleftrightarrow>
     store_frame s s' \<and> ps_meta s' = ps_meta s \<and> ps_faults s' = ps_faults s \<and>
     ps_dirty_segments s' = ps_dirty_segments s \<and>
     length (ps_segments s) \<le> length (ps_segments s') \<and> ps_segments s' ! 0 = ps_segments s ! 0 \<and>
     (\<forall>q. c \<le> q \<and> q < d \<longrightarrow> slot_bytes s' (q div t, q mod t) = slot_bytes s (0, q)) \<and>
     (\<forall>i k. slot_bytes s (i, k) \<noteq> None \<and> (\<forall>q. c \<le> q \<and> q < d \<longrightarrow> (i, k) \<noteq> (q div t, q mod t)) \<longrightarrow>
        slot_bytes s' (i, k) = slot_bytes s (i, k))"

lemma copied_refl: "copied t c c s s"
  by (simp add: copied_def store_frame_def)

lemma copied_slot: "copied t c d s s' \<Longrightarrow> c \<le> q \<Longrightarrow> q < d \<Longrightarrow> slot_bytes s' (q div t, q mod t) = slot_bytes s (0, q)"
  by (simp add: copied_def)

lemma copied_keep:
  assumes "copied t c d s s'" "slot_bytes s (i, k) \<noteq> None"
    "\<And>q. c \<le> q \<Longrightarrow> q < d \<Longrightarrow> (i, k) \<noteq> (q div t, q mod t)"
  shows "slot_bytes s' (i, k) = slot_bytes s (i, k)"
proof -
  have "\<forall>q. c \<le> q \<and> q < d \<longrightarrow> (i, k) \<noteq> (q div t, q mod t)" using assms(3) by blast
  with assms(1,2) show ?thesis unfolding copied_def by blast
qed

lemma div_mod_inject: "(q div t, q mod t) = (q' div t, q' mod t) \<longleftrightarrow> q = (q' :: nat)"
  by (metis Pair_inject div_mult_mod_eq)

lemma copied_base:
  assumes "copied t c d s s'" "t \<le> c" "0 < t" "slot_bytes s (0, k) \<noteq> None"
  shows "slot_bytes s' (0, k) = slot_bytes s (0, k)"
proof (rule copied_keep [OF assms(1,4)])
  fix q assume "c \<le> q"
  then have "q div t \<noteq> 0" using assms(2,3) by (simp add: div_eq_0_iff)
  then show "(0, k) \<noteq> (q div t, q mod t)" by auto
qed

lemma copied_trans:
  assumes a: "copied t c d s s1" and b: "copied t d e s1 s2" and t: "t \<le> c" "c \<le> d" "d \<le> e" "0 < t"
    and ok: "\<And>q. c \<le> q \<Longrightarrow> q < e \<Longrightarrow> slot_bytes s (0, q) \<noteq> None"
  shows "copied t c e s s2"
proof -
  have slot: "slot_bytes s2 (q div t, q mod t) = slot_bytes s (0, q)" if q: "c \<le> q" "q < e" for q
  proof (cases "q < d")
    case True
    have c1: "slot_bytes s1 (q div t, q mod t) = slot_bytes s (0, q)" by (rule copied_slot [OF a q(1) True])
    have "slot_bytes s2 (q div t, q mod t) = slot_bytes s1 (q div t, q mod t)"
    proof (rule copied_keep [OF b])
      show "slot_bytes s1 (q div t, q mod t) \<noteq> None" using c1 ok [OF q] by simp
      show "(q div t, q mod t) \<noteq> (q' div t, q' mod t)" if "d \<le> q'" for q'
        unfolding div_mod_inject using True that by simp
    qed
    with c1 show ?thesis by simp
  next
    case False
    then have "slot_bytes s2 (q div t, q mod t) = slot_bytes s1 (0, q)" using copied_slot [OF b] q by simp
    with copied_base [OF a t(1,4) ok [OF q]] show ?thesis by simp
  qed
  have keep: "slot_bytes s2 (i, k) = slot_bytes s (i, k)"
    if "slot_bytes s (i, k) \<noteq> None" "\<forall>q. c \<le> q \<and> q < e \<longrightarrow> (i, k) \<noteq> (q div t, q mod t)" for i k
  proof -
    have 1: "slot_bytes s1 (i, k) = slot_bytes s (i, k)"
      by (rule copied_keep [OF a that(1)]) (use that(2) t in simp)
    have "slot_bytes s2 (i, k) = slot_bytes s1 (i, k)"
      by (rule copied_keep [OF b]) (use that t 1 in simp_all)
    with 1 show ?thesis by simp
  qed
  have "store_frame s s2" "ps_meta s2 = ps_meta s" "ps_faults s2 = ps_faults s"
    "ps_dirty_segments s2 = ps_dirty_segments s" "length (ps_segments s) \<le> length (ps_segments s2)"
    "ps_segments s2 ! 0 = ps_segments s ! 0"
    using a b by (auto simp: copied_def store_frame_def)
  with slot keep show ?thesis unfolding copied_def by blast
qed

lemma write_at_inside:
  "unat off \<le> i \<Longrightarrow> i + n \<le> unat off + length b \<Longrightarrow> slice_of (write_at f b off) i n = slice_of b (i - unat off) n"
  by (simp add: write_at_def slice_put_inside)

lemma div_mod_shift:
  fixes c j t :: nat
  assumes "c mod t + j < t"
  shows "(c + j) div t = c div t" "(c + j) mod t = c mod t + j"
proof -
  have "j < t" using assms by simp
  then show "(c + j) div t = c div t" using assms by (simp add: div_add1_eq [of c j t])
  show "(c + j) mod t = c mod t + j" using assms by (metis mod_add_left_eq mod_less)
qed

lemma slot_apart:
  fixes k a n ps :: nat
  assumes "k < a \<or> a + n \<le> k"
  shows "k * ps + ps \<le> a * ps \<or> a * ps + n * ps \<le> k * ps"
  using assms
proof
  assume "k < a"
  then show ?thesis using mult_le_mono1 [of "Suc k" a ps] by simp
next
  assume "a + n \<le> k"
  then show ?thesis using mult_le_mono1 [of "a + n" k ps] by (simp add: add_mult_distrib)
qed

lemma copy_write_copied:
  fixes t c n :: nat
  assumes t: "0 < t" "t \<le> c" "c mod t + n \<le> t" and off: "unat off = c mod t * ps_page_size s"
    and len: "(c + n) * ps_page_size s \<le> length (ps_segments s ! 0)" and ne: "ps_segments s \<noteq> []"
    and s': "s' = (ensure_segment (c div t) s)\<lparr>ps_segments := (ps_segments (ensure_segment (c div t) s))[c div t :=
        write_at (ps_segments (ensure_segment (c div t) s) ! (c div t))
          (slice_of (ps_segments s ! 0) (c * ps_page_size s) (n * ps_page_size s)) off]\<rparr>"
  shows "copied t c (c + n) s s'"
proof -
  let ?i = "c div t" and ?ps = "ps_page_size s"
  let ?b = "slice_of (ps_segments s ! 0) (c * ?ps) (n * ?ps)"
  note e = ensure_segment_segments [where i = ?i and s = s]
  have i: "?i \<noteq> 0" using t(1,2) by (simp add: div_eq_0_iff)
  have lb: "length ?b = n * ?ps" using len by (simp add: add_mult_distrib)
  have ps: "ps_page_size s' = ?ps" by (simp add: s')
  have slot: "slot_bytes s' (q div t, q mod t) = slot_bytes s (0, q)" if q: "c \<le> q" "q < c + n" for q
  proof -
    obtain j where j: "q = c + j" "j < n" using q by (metis le_add_diff_inverse nat_add_left_cancel_less)
    have qd: "q div t = ?i" "q mod t = c mod t + j" using div_mod_shift [of c t j] t(3) j by simp_all
    have jn: "j * ?ps + ?ps \<le> n * ?ps" using mult_le_mono1 [of "Suc j" n ?ps] j(2) by simp
    have "slice_of (write_at f ?b off) ((c mod t + j) * ?ps) ?ps = slice_of (ps_segments s ! 0) (q * ?ps) ?ps" for f
      using jn off lb slice_slice [of "j * ?ps" ?ps "n * ?ps" "ps_segments s ! 0" "c * ?ps"]
      by (simp add: write_at_inside j(1) add_mult_distrib)
    moreover have "q * ?ps + ?ps \<le> length (ps_segments s ! 0)"
      using len jn j(1) by (simp add: add_mult_distrib)
    moreover have "(c mod t + j) * ?ps + ?ps \<le> unat off + n * ?ps" using off jn by (simp add: add_mult_distrib)
    ultimately show ?thesis
      using e(1) ne lb by (simp add: slot_bytes_def qd ps s' max.coboundedI2)
  qed
  have keep: "slot_bytes s' (i', k) = slot_bytes s (i', k)"
    if k: "slot_bytes s (i', k) \<noteq> None" "\<forall>q. c \<le> q \<and> q < c + n \<longrightarrow> (i', k) \<noteq> (q div t, q mod t)" for i' k
  proof -
    have f: "i' < length (ps_segments s)" "k * ?ps + ?ps \<le> length (ps_segments s ! i')"
      using k(1) by (auto simp: slot_bytes_def split: if_splits)
    show ?thesis
    proof (cases "i' = ?i")
      case True
      have "k < c mod t \<or> c mod t + n \<le> k"
      proof (rule ccontr)
        assume "\<not> ?thesis"
        then obtain j where j: "k = c mod t + j" "j < n"
          by (metis not_less le_add_diff_inverse nat_add_left_cancel_less)
        with div_mod_shift [of c t j] t(3) True k(2) [rule_format, of "c + j"] show False by simp
      qed
      from slot_apart [OF this, of ?ps]
      have "slice_of (write_at (ps_segments s ! i') ?b off) (k * ?ps) ?ps = slice_of (ps_segments s ! i') (k * ?ps) ?ps"
        using f(2) off lb by (intro write_at_other) auto
      with f e True show ?thesis by (simp add: slot_bytes_def ps s' max.coboundedI1)
    next
      case False
      with f e show ?thesis by (simp add: slot_bytes_def ps s')
    qed
  qed
  have "ps_segments s' ! 0 = ps_segments s ! 0" using i e(3) ne by (simp add: s')
  with slot keep e(2) show ?thesis
    unfolding copied_def by (simp add: s' store_frame_def ensure_segment_def)
qed

lemma copy_run_copied:
  assumes lo: "layout_ok s" and t: "0 < t" "t \<le> c" and run: "unat (c mod t) + unat run \<le> unat t"
    and len: "(unat c + unat run) * ps_page_size s \<le> length (ps_segments s ! 0)"
    and adr: "(unat c + unat run) * ps_page_size s < 2 ^ 64"
  shows "\<exists>s'. copy_run t c run s = (s', Ok ()) \<and> copied (unat t) (unat c) (unat c + unat run) s s'"
proof -
  let ?ps = "ps_page_size s"
  have b: "unat (run * of_nat ?ps) = unat run * ?ps" "unat (c * of_nat ?ps) = unat c * ?ps"
    using adr unat_page_size [OF lo] by (simp_all add: unat_mult_u64 add_mult_distrib)
  have "unat c mod unat t * ?ps \<le> unat c * ?ps" by simp
  also have "\<dots> \<le> (unat c + unat run) * ?ps" by simp
  also note adr
  finally have o: "unat (c mod t * of_nat ?ps) = unat c mod unat t * ?ps"
    using unat_page_size [OF lo] by (subst unat_mult_u64) (simp_all add: unat_mod)
  let ?buf = "slice_of (ps_segments s ! 0) (unat c * ?ps) (unat run * ?ps)"
  have "length ?buf = unat run * ?ps" using len by (simp add: add_mult_distrib)
  then have "copy_run t c run s = ((ensure_segment (unat c div unat t) s)\<lparr>ps_segments :=
      (ps_segments (ensure_segment (unat c div unat t) s))[unat c div unat t :=
        write_at (ps_segments (ensure_segment (unat c div unat t) s) ! (unat c div unat t)) ?buf (c mod t * of_nat ?ps)]\<rparr>, Ok ())"
    by (simp add: copy_run_def read_at_def file_offset_def ucast_page_size [OF lo] b unat_div Let_def)
  moreover have "copied (unat t) (unat c) (unat c + unat run) s ((ensure_segment (unat c div unat t) s)\<lparr>ps_segments :=
      (ps_segments (ensure_segment (unat c div unat t) s))[unat c div unat t :=
        write_at (ps_segments (ensure_segment (unat c div unat t) s) ! (unat c div unat t)) ?buf (c mod t * of_nat ?ps)]\<rparr>)"
    by (rule copy_write_copied [OF _ _ _ o len _ refl])
       (use t run lo in \<open>simp_all add: word_less_nat_alt word_le_nat_alt unat_mod layout_ok_def\<close>)
  ultimately show ?thesis by blast
qed

lemma copied_layout: "copied t c d s s' \<Longrightarrow> layout_ok s \<Longrightarrow> layout_ok s'"
  by (auto simp: copied_def layout_ok_def store_frame_def)

lemma slot_base:
  assumes "layout_ok s" "unat e * ps_page_size s \<le> length (ps_segments s ! 0)" "q < unat e"
  shows "slot_bytes s (0, q) \<noteq> None"
  using assms mult_le_mono1 [of "Suc q" "unat e" "ps_page_size s"] by (auto simp: slot_bytes_def layout_ok_def)

lemma copy_loop_copied:
  assumes "layout_ok s" "0 < t" "t \<le> c" "c \<le> e"
    and "unat e * ps_page_size s \<le> length (ps_segments s ! 0)" "unat e * ps_page_size s < 2 ^ 64"
  shows "\<exists>s'. copy_loop t e c s = (s', Ok ()) \<and> copied (unat t) (unat c) (unat e) s s'"
  using assms
proof (induction t e c s rule: copy_loop.induct)
  case (1 t e c s)
  show ?case
  proof (cases "c < e")
    case False
    with "1.prems" show ?thesis
      using copied_refl by (subst copy_loop.simps) (auto simp: word_le_less_eq)
  next
    case True
    let ?run = "copy_run_length (ps_page_size s) t e c" and ?ps = "ps_page_size s"
    note b = copy_run_length_bounds [OF \<open>0 < t\<close> True, of ?ps]
    have le: "unat c + unat ?run \<le> unat e" using b(2) True by (simp add: word_less_nat_alt)
    then have u: "unat (c + ?run) = unat c + unat ?run"
      using unat_less_u64 [of e] by (intro unat_add_u64) simp
    have m: "(unat c + unat ?run) * ?ps \<le> unat e * ?ps" using le by simp
    obtain s1 where s1: "copy_run t c ?run s = (s1, Ok ())" "copied (unat t) (unat c) (unat c + unat ?run) s s1"
      using copy_run_copied [OF "1.prems"(1-3) b(3)] m "1.prems"(5,6) by (meson le_less_trans order_trans)
    have ps1: "ps_page_size s1 = ?ps" "ps_segments s1 ! 0 = ps_segments s ! 0"
      using s1(2) by (auto simp: copied_def store_frame_def)
    have "\<exists>s'. copy_loop t e (c + ?run) s1 = (s', Ok ()) \<and> copied (unat t) (unat (c + ?run)) (unat e) s1 s'"
      by (rule "1.IH" [OF _ True refl s1(1) [symmetric] refl])
         (use "1.prems" u le ps1 copied_layout [OF s1(2)] in \<open>auto simp: word_le_nat_alt word_less_nat_alt\<close>)
    then obtain s2 where s2: "copy_loop t e (c + ?run) s1 = (s2, Ok ())"
        "copied (unat t) (unat c + unat ?run) (unat e) s1 s2" using u by auto
    have "copied (unat t) (unat c) (unat e) s s2"
      by (rule copied_trans [OF s1(2) s2(2)])
         (use "1.prems" le slot_base [OF "1.prems"(1,5)] in \<open>auto simp: word_le_nat_alt word_less_nat_alt\<close>)
    moreover have "copy_loop t e c s = (s2, Ok ())"
      using True s1(1) s2(1) \<open>0 < t\<close> by (subst copy_loop.simps) (simp add: Let_def)
    ultimately show ?thesis by blast
  qed
qed

section \<open>Publishing the superblock\<close>

lemma set_dirty_simps [simp]:
  "page_image (s\<lparr>ps_dirty_segments := d\<rparr>) = page_image s" "layout_ok (s\<lparr>ps_dirty_segments := d\<rparr>) = layout_ok s"
  "quiet (s\<lparr>ps_dirty_segments := d\<rparr>) = quiet s" "dirty_ok (s\<lparr>ps_dirty_segments := []\<rparr>)"
  "store_frame s (s\<lparr>ps_dirty_segments := d\<rparr>)"
  by (rule page_image_cong) (simp_all add: store_frame_def layout_ok_def quiet_def dirty_ok_def)

lemma sync_ok:
  assumes "dirty_ok s"
  shows "sync_data_observed s = (s\<lparr>ps_dirty_segments := []\<rparr>, Ok ())"
    "store_sync s = ((if ps_fsync s then s\<lparr>ps_dirty_segments := []\<rparr> else s), Ok ())"
  using assms by (auto simp: sync_data_observed_def store_sync_def dirty_ok_def not_le)

definition published :: "page_store \<Rightarrow> page_store \<Rightarrow> bool" where
  "published s s' \<longleftrightarrow> store_frame s s' \<and> ps_meta s' = ps_meta s \<and> layout_ok s' \<and> quiet s' \<and> dirty_ok s' \<and>
     length (ps_segments s) \<le> length (ps_segments s') \<and>
     (\<forall>i < length (ps_segments s). length (ps_segments s ! i) \<le> length (ps_segments s' ! i)) \<and>
     page_image s' 0 \<noteq> None \<and>
     (\<forall>q. addressable s q \<and> q \<noteq> 0 \<and> page_image s q \<noteq> None \<longrightarrow> page_image s' q = page_image s q)"

lemma addressable_0: "layout_ok s \<Longrightarrow> addressable s 0"
  by (simp add: addressable_def layout_ok_def)

lemma write_superblock_published:
  assumes "layout_ok s" "quiet s" "dirty_ok s"
  obtains s' where "write_superblock_meta crc meta s = (s', Ok ())" "published s s'"
proof -
  obtain s' where s': "write_superblock_meta crc meta s = (s', Ok ())"
      "wrote s 0 (stamped crc s 0 (superblock_page s meta) (max (sb_generation meta) 1)) s'"
    using write_superblock_meta_wrote [OF assms(1,2)] by blast
  then have "published s s'"
    using assms addressable_0 by (simp add: published_def wrote_def)
  with s'(1) show thesis by (rule that)
qed

lemma published_sync: "published s s' \<Longrightarrow> published s (s'\<lparr>ps_dirty_segments := []\<rparr>)"
  by (auto simp: published_def store_frame_def)

lemma publish_superblock:
  assumes "layout_ok s" "quiet s" "dirty_ok s"
  obtains s1 s2 s3 where "write_superblock_meta crc meta s = (s1, Ok ())"
    "sync_data_observed s1 = (s2, Ok ())" "published s s2" "store_sync s1 = (s3, Ok ())" "published s s3"
proof (rule write_superblock_published [OF assms, of crc meta])
  fix s1 assume s1: "write_superblock_meta crc meta s = (s1, Ok ())" "published s s1"
  then have "dirty_ok s1" by (simp add: published_def)
  then show thesis
    using that [OF s1(1) sync_ok(1) published_sync [OF s1(2)] sync_ok(2)] s1(2) published_sync [OF s1(2)] by simp
qed

section \<open>A migration step\<close>

definition migrating :: "page_store \<Rightarrow> bool" where
  "migrating s \<longleftrightarrow> store_ok s \<and> dirty_ok s \<and> ps_extent_pages s = 0 \<and> 0 < ps_migration_target_pages s \<and>
     ps_migration_target_pages s \<le> ps_migration_watermark s \<and>
     unat (ps_migration_target_pages s) * ps_page_size s < 2 ^ 64 \<and>
     unat (sb_page_count (ps_meta s)) * ps_page_size s < 2 ^ 64 \<and>
     (ps_migration_watermark s < sb_page_count (ps_meta s) \<longrightarrow>
        unat (sb_page_count (ps_meta s)) * ps_page_size s \<le> length (ps_segments s ! 0))"

lemma migratingD:
  assumes "migrating s"
  shows "store_ok s" "layout_ok s" "quiet s" "dirty_ok s" "ps_extent_pages s = 0" "0 < ps_migration_target_pages s"
    "ps_migration_target_pages s \<le> ps_migration_watermark s" "unat (sb_page_count (ps_meta s)) * ps_page_size s < 2 ^ 64"
    "unat (ps_migration_target_pages s) * ps_page_size s < 2 ^ 64"
  using assms by (simp_all add: migrating_def store_ok_def)

lemma locate_slot_migrating:
  assumes "ps_extent_pages s = 0" "0 < ps_migration_target_pages s"
  shows "locate_slot s q = (if q < unat (ps_migration_watermark s)
    then (q div unat (ps_migration_target_pages s), q mod unat (ps_migration_target_pages s)) else (0, q))"
  using assms by (simp add: locate_slot_def word_less_nat_alt Let_def)

lemma copied_images:
  assumes m: "migrating s" and e: "ps_migration_watermark s \<le> e"
    and c: "copied (unat (ps_migration_target_pages s)) (unat (ps_migration_watermark s)) (unat e) s s1"
    and q: "addressable s q" "page_image s q \<noteq> None"
  shows "page_image (s1\<lparr>ps_migration_watermark := e\<rparr>) q = page_image s q"
proof -
  note D = migratingD [OF m]
  let ?t = "unat (ps_migration_target_pages s)" and ?w = "unat (ps_migration_watermark s)"
  let ?s2 = "s1\<lparr>ps_migration_watermark := e\<rparr>"
  have fr: "store_frame s s1" using c by (simp add: copied_def)
  have lo2: "layout_ok ?s2" using copied_layout [OF c D(2)] by (simp add: layout_ok_def)
  have ad2: "addressable ?s2 q" using q(1) fr by (simp add: addressable_def store_frame_def)
  have sl: "slot_bytes ?s2 = slot_bytes s1" by (simp add: slot_bytes_def fun_eq_iff)
  have l: "locate_slot s (unat q) = (if unat q < ?w then (unat q div ?t, unat q mod ?t) else (0, unat q))"
    by (rule locate_slot_migrating [OF D(5,6)])
  have l2: "locate_slot ?s2 (unat q) = (if unat q < unat e then (unat q div ?t, unat q mod ?t) else (0, unat q))"
    using locate_slot_migrating [of ?s2 "unat q"] D(5,6) fr by (simp add: store_frame_def)
  have b: "slot_bytes s (locate_slot s (unat q)) \<noteq> None" using page_image_slot [OF D(2) q(1)] q(2) by simp
  have "slot_bytes s1 (locate_slot ?s2 (unat q)) = slot_bytes s (locate_slot s (unat q))"
  proof (cases "unat q < ?w")
    case True
    have "slot_bytes s1 (unat q div ?t, unat q mod ?t) = slot_bytes s (unat q div ?t, unat q mod ?t)"
      by (rule copied_keep [OF c]) (use b l True in simp, unfold div_mod_inject, use True in simp)
    then show ?thesis using True l l2 e by (simp add: word_le_nat_alt)
  next
    case False
    show ?thesis
    proof (cases "unat q < unat e")
      case True
      then show ?thesis using copied_slot [OF c, of "unat q"] False l l2 by simp
    next
      case False': False
      have "slot_bytes s1 (0, unat q) = slot_bytes s (0, unat q)"
        by (rule copied_base [OF c]) (use D(6,7) b l False in \<open>simp_all add: word_le_nat_alt word_less_nat_alt\<close>)
      then show ?thesis using False False' l l2 by simp
    qed
  qed
  then show ?thesis
    using page_image_slot [OF D(2) q(1)] page_image_slot [OF lo2 ad2] sl by simp
qed

definition keeps_pages :: "page_store \<Rightarrow> page_store \<Rightarrow> bool" where
  "keeps_pages s s' \<longleftrightarrow> (\<forall>q. q \<noteq> 0 \<and> q < sb_page_count (ps_meta s) \<and> page_image s q \<noteq> None \<longrightarrow>
     page_image s' q = page_image s q)"

lemma advance_copies:
  assumes m: "migrating s" and w: "ps_migration_watermark s < sb_page_count (ps_meta s)"
  shows "\<exists>s'. advance_extent_migration crc n s = (s', Ok \<lparr>
      mr_pages_copied = ps_migration_watermark s' - ps_migration_watermark s,
      mr_watermark = ps_migration_watermark s', mr_complete = False\<rparr>) \<and>
    ps_migration_watermark s' = min (sb_page_count (ps_meta s)) (sat_add (ps_migration_watermark s) (max n 1)) \<and>
    ps_meta s' = ps_meta s \<and> migrating s' \<and> ps_migration_target_pages s' = ps_migration_target_pages s \<and>
    keeps_pages s s'"
proof -
  note D = migratingD [OF m]
  let ?t = "ps_migration_target_pages s" and ?w = "ps_migration_watermark s" and ?pc = "sb_page_count (ps_meta s)"
  define e where "e = min ?pc (sat_add ?w (max n 1))"
  have we: "?w \<le> e" "e \<le> ?pc" using w sat_add_ge(1) [of ?w "max n 1"] by (simp_all add: e_def)
  have lpc: "unat ?pc * ps_page_size s \<le> length (ps_segments s ! 0)" using m w by (simp add: migrating_def)
  have le: "unat e * ps_page_size s \<le> unat ?pc * ps_page_size s" using we(2) by (simp add: word_le_nat_alt)
  obtain s1 where s1: "copy_loop ?t e ?w s = (s1, Ok ())" "copied (unat ?t) (unat ?w) (unat e) s s1"
    using copy_loop_copied [OF D(2,6,7) we(1) order_trans [OF le lpc] le_less_trans [OF le D(8)]] by blast
  let ?s2 = "s1\<lparr>ps_migration_watermark := e\<rparr>"
  have c: "store_frame s s1" "ps_meta s1 = ps_meta s" "ps_faults s1 = ps_faults s"
      "ps_dirty_segments s1 = ps_dirty_segments s" "length (ps_segments s) \<le> length (ps_segments s1)"
      "ps_segments s1 ! 0 = ps_segments s ! 0" using s1(2) by (simp_all add: copied_def)
  have s2: "layout_ok ?s2" "quiet ?s2" "dirty_ok ?s2"
    using copied_layout [OF s1(2) D(2)] D(3,4) c by (auto simp: layout_ok_def quiet_def dirty_ok_def)
  obtain s3 s' where s3: "write_superblock_meta crc (ps_meta s) ?s2 = (s3, Ok ())"
      "store_sync s3 = (s', Ok ())" and p: "published ?s2 s'"
    by (rule publish_superblock [OF s2, of crc "ps_meta s"]) blast
  have "0 < length (ps_segments ?s2)" using s2(1) by (simp add: layout_ok_def)
  with p have p': "store_frame ?s2 s'" "ps_meta s' = ps_meta s" "layout_ok s'" "quiet s'" "dirty_ok s'"
    "length (ps_segments s ! 0) \<le> length (ps_segments s' ! 0)"
    using c unfolding published_def by auto
  have "page_image s' q = page_image s q" if q: "q \<noteq> 0" "q < ?pc" "page_image s q \<noteq> None" for q
  proof -
    have a: "addressable s q" by (rule addressable_below [OF D(1) q(2)])
    have i: "page_image ?s2 q = page_image s q" by (rule copied_images [OF m we(1) s1(2) a q(3)])
    have "addressable ?s2 q" using a c(1) by (simp add: addressable_def store_frame_def)
    then show ?thesis using p i q unfolding published_def by auto
  qed
  then have "keeps_pages s s'" by (simp add: keeps_pages_def)
  moreover have "migrating s'"
    using p' c D we lpc unfolding migrating_def store_ok_def store_frame_def by auto
  moreover have "advance_extent_migration crc n s = (s', Ok \<lparr> mr_pages_copied = e - ?w, mr_watermark = e, mr_complete = False\<rparr>)"
    using s1(1) s3 w D(6) c(2)
    by (simp add: advance_extent_migration_def e_def [symmetric] m_then_def m_bind_Ok write_superblock_def m_return_def
        Let_def not_le [symmetric])
  moreover have "ps_migration_watermark s' = e" "ps_migration_target_pages s' = ?t"
    using p'(1) c(1) by (simp_all add: store_frame_def)
  ultimately show ?thesis using p'(2) unfolding e_def by auto
qed

lemma slot_set_len:
  assumes "Suc k * ps_page_size s \<le> n" "slot_bytes s (i, k) \<noteq> None"
  shows "slot_bytes (s\<lparr>ps_segments := (ps_segments s)[0 := set_len (ps_segments s ! 0) n]\<rparr>) (i, k) = slot_bytes s (i, k)"
proof (cases "i = 0")
  case True
  have "k * ps_page_size s + ps_page_size s \<le> n" using assms(1) by simp
  with True assms(2) show ?thesis by (auto simp: slot_bytes_def slice_set_len split: if_splits)
next
  case False
  then show ?thesis by (simp add: slot_bytes_def)
qed

lemma advance_completes:
  assumes m: "migrating s" and w: "sb_page_count (ps_meta s) \<le> ps_migration_watermark s"
  shows "\<exists>s'. advance_extent_migration crc n s =
      (s', Ok \<lparr> mr_pages_copied = 0, mr_watermark = 0, mr_complete = True \<rparr>) \<and>
    ps_meta s' = ps_meta s \<and> store_ok s' \<and> ps_extent_pages s' = ps_migration_target_pages s \<and>
    ps_migration_target_pages s' = 0 \<and> keeps_pages s s'"
proof -
  note D = migratingD [OF m]
  let ?t = "ps_migration_target_pages s" and ?pc = "sb_page_count (ps_meta s)" and ?ps = "ps_page_size s"
  let ?s1 = "s\<lparr>ps_extent_pages := ?t, ps_migration_target_pages := 0, ps_migration_watermark := 0\<rparr>"
  have s1: "layout_ok ?s1" "quiet ?s1" "dirty_ok ?s1" using D by (simp_all add: layout_ok_def quiet_def dirty_ok_def)
  obtain s2 s3 where s2: "write_superblock_meta crc (ps_meta s) ?s1 = (s2, Ok ())" "sync_data_observed s2 = (s3, Ok ())"
    and p: "published ?s1 s3" by (rule publish_superblock [OF s1, of crc "ps_meta s"]) blast
  have p': "store_frame ?s1 s3" "ps_meta s3 = ps_meta s" "layout_ok s3" "quiet s3"
    using p by (simp_all add: published_def)
  have f3: "ps_extent_pages s3 = ?t" "ps_migration_target_pages s3 = 0" "ps_page_size s3 = ?ps"
    using p'(1) by (simp_all add: store_frame_def)
  have tb: "unat (?t * of_nat ?ps) = unat ?t * ?ps"
    using D(9) unat_page_size [OF D(2)] by (subst unat_mult_u64) simp_all
  let ?s' = "s3\<lparr>ps_segments := (ps_segments s3)[0 := set_len (ps_segments s3 ! 0) (unat (?t * of_nat ?ps))]\<rparr>"
  have lo': "layout_ok ?s'" using p'(3) by (auto simp: layout_ok_def)
  have img: "page_image ?s' q = page_image s q" if q: "q \<noteq> 0" "q < ?pc" "page_image s q \<noteq> None" for q
  proof -
    have a: "addressable s q" by (rule addressable_below [OF D(1) q(2)])
    have l: "locate_slot s (unat q) = (unat q div unat ?t, unat q mod unat ?t)"
      using locate_slot_migrating [OF D(5,6), of "unat q"] less_le_trans [OF q(2) w] by (simp add: word_less_nat_alt)
    have l1: "locate_slot u (unat q) = (unat q div unat ?t, unat q mod unat ?t)" if "ps_extent_pages u = ?t" for u
      using D(6) that by (simp add: locate_slot_def word_less_nat_alt Let_def)
    have a1: "addressable ?s1 q" "addressable s3 q" "addressable ?s' q"
      using a f3 by (simp_all add: addressable_def)
    have "page_image ?s1 q = page_image s q"
      using page_image_slot [OF D(2) a] page_image_slot [OF s1(1) a1(1)] l l1 [of ?s1] by (simp add: slot_bytes_def)
    with p a1(1) q have i3: "page_image s3 q = page_image s q" unfolding published_def by auto
    have "Suc (unat q mod unat ?t) \<le> unat ?t" using D(6) by (simp add: Suc_le_eq word_less_nat_alt)
    from mult_le_mono1 [OF this, of ?ps] have "slot_bytes s3 (unat q div unat ?t, unat q mod unat ?t) \<noteq> None \<Longrightarrow>
        slot_bytes ?s' (unat q div unat ?t, unat q mod unat ?t) = slot_bytes s3 (unat q div unat ?t, unat q mod unat ?t)"
      by (intro slot_set_len) (simp_all add: tb f3(3))
    then show ?thesis
      using i3 q(3) page_image_slot [OF lo' a1(3)] page_image_slot [OF p'(3) a1(2)] l1 [of ?s'] l1 [of s3] f3 by simp
  qed
  have "advance_extent_migration crc n s = (?s', Ok \<lparr> mr_pages_copied = 0, mr_watermark = 0, mr_complete = True \<rparr>)"
    using s2 w D(6) f3(3) by (simp add: advance_extent_migration_def m_then_def m_bind_Ok m_return_def Let_def)
  moreover have "store_ok ?s'" using D(1) lo' p' f3 by (auto simp: store_ok_def quiet_def)
  ultimately show ?thesis using p'(2) f3 img unfolding keeps_pages_def by auto
qed

lemma sat_add_less: "x < z \<Longrightarrow> 0 < y \<Longrightarrow> x < sat_add x y"
  using not_max_u64 [of x z] word_order.not_eq_extremum [of x]
  by (simp add: sat_add_def word_less_nat_alt unat_add_u64)

section \<open>Starting and finishing a migration\<close>

lemma begin_migration_ok:
  assumes so: "store_ok s" "dirty_ok s" and ly: "ps_extent_pages s = 0" "ps_migration_target_pages s = 0"
    and eb: "validate_extent_bytes eb (ps_page_size s) = Ok ()" "eb \<noteq> 0"
    and pc: "unat (sb_page_count (ps_meta s)) * ps_page_size s < 2 ^ 64"
      "unat (sb_page_count (ps_meta s)) * ps_page_size s \<le> length (ps_segments s ! 0)"
  obtains s1 s' where "begin_extent_migration crc eb s = (s', Ok ())" "migrating s'" "ps_meta s' = ps_meta s"
    "keeps_pages s s'" "ps_migration_target_pages s' = eb div of_nat (ps_page_size s)"
    "ps_migration_watermark s' = eb div of_nat (ps_page_size s)" "ps_page_size s' = ps_page_size s"
    "write_superblock_meta crc (ps_meta s) (s\<lparr>ps_migration_target_pages := eb div of_nat (ps_page_size s),
       ps_migration_watermark := eb div of_nat (ps_page_size s)\<rparr>) = (s1, Ok ())"
    "s' = s1\<lparr>ps_dirty_segments := []\<rparr>"
proof -
  let ?ps = "ps_page_size s" and ?t = "eb div of_nat (ps_page_size s)"
  let ?s1 = "s\<lparr>ps_migration_target_pages := ?t, ps_migration_watermark := ?t\<rparr>"
  have lo: "layout_ok s" "quiet s" using so(1) by (simp_all add: store_ok_def)
  note ups = unat_page_size [OF lo(1)]
  have "1048576 \<le> eb" using eb by (auto simp: validate_extent_bytes_def not_less split: if_splits)
  then have "ps_page_size s \<le> unat eb" using lo(1) by (simp add: layout_ok_def word_le_nat_alt)
  then have t: "0 < unat ?t" using ups lo(1) by (simp add: unat_div div_greater_zero_iff layout_ok_def)
  have "unat ?t * ?ps \<le> unat eb" using ups by (simp add: unat_div)
  then have tb: "unat ?t * ?ps < 2 ^ 64" using unat_less_u64 [of eb] by linarith
  have s1: "layout_ok ?s1" "quiet ?s1" "dirty_ok ?s1" using lo so(2) by (simp_all add: layout_ok_def quiet_def dirty_ok_def)
  obtain s2 where s2: "write_superblock_meta crc (ps_meta s) ?s1 = (s2, Ok ())" "published ?s1 s2"
    by (rule write_superblock_published [OF s1, of crc "ps_meta s"]) blast
  let ?s' = "s2\<lparr>ps_dirty_segments := []\<rparr>"
  have p: "published ?s1 ?s'" by (rule published_sync [OF s2(2)])
  have sy: "sync_data_observed s2 = (?s', Ok ())" using s2(2) by (intro sync_ok) (simp add: published_def)
  have p': "store_frame ?s1 ?s'" "ps_meta ?s' = ps_meta s" "layout_ok ?s'" "quiet ?s'" "dirty_ok ?s'"
    "length (ps_segments s ! 0) \<le> length (ps_segments ?s' ! 0)"
    using p lo(1) unfolding published_def by (auto simp: layout_ok_def)
  have "page_image ?s' q = page_image s q" if q: "q \<noteq> 0" "q < sb_page_count (ps_meta s)" "page_image s q \<noteq> None" for q
  proof -
    have a: "addressable s q" "addressable ?s1 q" using addressable_below [OF so(1) q(2)] by (simp_all add: addressable_def)
    have "locate_slot ?s1 (unat q) = locate_slot s (unat q)"
      using ly by (simp add: locate_slot_def Let_def)
    then have "page_image ?s1 q = page_image s q"
      using page_image_slot [OF lo(1) a(1)] page_image_slot [OF s1(1) a(2)] slot_bytes_cong [of ?s1 s] by simp
    with p a q show ?thesis unfolding published_def by auto
  qed
  then have "keeps_pages s ?s'" by (simp add: keeps_pages_def)
  moreover have "migrating ?s'"
    using p' so(1) ly pc t tb unfolding migrating_def store_ok_def store_frame_def
    by (auto simp: word_less_nat_alt)
  moreover have "begin_extent_migration crc eb s = (?s', Ok ())"
    using eb ly t s2(1) sy by (auto simp: begin_extent_migration_def m_then_def m_bind_Ok Let_def)
  ultimately show thesis
    using that [of ?s' s2] p' s2(1) by (simp add: store_frame_def)
qed

text \<open>The maintenance loop of the callers: steps until one reports completion.\<close>

fun run_migration :: "nat \<Rightarrow> (bytes \<Rightarrow> u32) \<Rightarrow> u64 \<Rightarrow> bool store_m" where
  "run_migration 0 crc max_pages s = (s, Ok False)"
| "run_migration (Suc fuel) crc max_pages s =
     m_bind (advance_extent_migration crc max_pages)
       (\<lambda>r. if mr_complete r then m_return True else run_migration fuel crc max_pages) s"

lemma run_migration_completes:
  assumes "migrating s" "unat (sb_page_count (ps_meta s)) - unat (ps_migration_watermark s) < fuel"
  shows "\<exists>s'. run_migration fuel crc n s = (s', Ok True) \<and> ps_meta s' = ps_meta s \<and>
    ps_extent_pages s' = ps_migration_target_pages s \<and> ps_migration_target_pages s' = 0 \<and> keeps_pages s s'"
  using assms
proof (induction fuel arbitrary: s)
  case (Suc fuel)
  let ?w = "ps_migration_watermark s" and ?pc = "sb_page_count (ps_meta s)"
  show ?case
  proof (cases "?w < ?pc")
    case False
    with advance_completes [OF Suc.prems(1), of crc n] show ?thesis
      by (auto simp: m_bind_Ok m_return_def not_less)
  next
    case True
    obtain s1 where s1: "advance_extent_migration crc n s = (s1, Ok \<lparr>
          mr_pages_copied = ps_migration_watermark s1 - ?w, mr_watermark = ps_migration_watermark s1, mr_complete = False\<rparr>)"
        "ps_migration_watermark s1 = min ?pc (sat_add ?w (max n 1))" "ps_meta s1 = ps_meta s" "migrating s1"
        "ps_migration_target_pages s1 = ps_migration_target_pages s" "keeps_pages s s1"
      using advance_copies [OF Suc.prems(1) True, of crc n] by blast
    have "?w < ps_migration_watermark s1"
      using True s1(2) sat_add_less [OF True, of "max n 1"] by (simp add: less_max_iff_disj)
    then have "unat ?pc - unat (ps_migration_watermark s1) < fuel"
      using Suc.prems(2) True by (simp add: word_less_nat_alt)
    with Suc.IH [OF s1(4)] s1(3) obtain s' where s': "run_migration fuel crc n s1 = (s', Ok True)" "ps_meta s' = ps_meta s"
        "ps_extent_pages s' = ps_migration_target_pages s" "ps_migration_target_pages s' = 0" "keeps_pages s1 s'"
      using s1(5) by auto
    moreover have "keeps_pages s s'"
      using s1(3,6) s'(5) unfolding keeps_pages_def by auto
    ultimately show ?thesis using s1(1) by (auto simp: m_bind_Ok)
  qed
qed simp

text \<open>A store of 3000 reserved pages, and the same store migrating to extents of 2048 pages.\<close>

abbreviation (input) reserved_store :: "(bytes \<Rightarrow> u32) \<Rightarrow> page_store" where
  "reserved_store crc \<equiv> fst (store_reserve 3000 (fst (open_new crc small_store)))"

lemma reserved_store_ok:
  shows "store_ok (reserved_store crc)" "dirty_ok (reserved_store crc)" "ps_extent_pages (reserved_store crc) = 0"
    "ps_migration_target_pages (reserved_store crc) = 0" "ps_page_size (reserved_store crc) = 512"
    "sb_page_count (ps_meta (reserved_store crc)) = 3000"
    "length (ps_segments (reserved_store crc) ! 0) = 1536000"
    "sb_free_list_head (ps_meta (reserved_store crc)) = 0" "sb_free_page_count (ps_meta (reserved_store crc)) = 0"
proof -
  obtain s where s: "open_new crc small_store = (s, Ok ())" "alloc_wf crc s" "sb_page_count (ps_meta s) = 1"
      "ps_page_size s = so_page_size small_store" "dirty_ok s" "ps_migration_target_pages s = 0"
      "ps_extent_pages s = so_extent_bytes small_store div of_nat (so_page_size small_store)" "free_pages crc s = []"
    by (rule open_new_wf [OF small_store_valid, of crc]) blast
  have so: "store_ok s" "layout_ok s" "quiet s" using s(2) by (simp_all add: alloc_wf_def store_ok_def)
  have pre: "ps_extent_pages s = 0" "unat (3000 :: u64) * ps_page_size s < 2 ^ 64" using s by simp_all
  obtain s' where s': "extend_to 3000 s = (s', Ok ())" "store_frame s s'" "ps_meta s' = ps_meta s"
      "ps_faults s' = ps_faults s" "layout_ok s'" "dirty_ok s'" "length (ps_segments s' ! 0) = unat (3000 :: u64) * ps_page_size s"
    by (rule extend_to_mono [OF so(2) pre]) (use s(5) in blast)
  have "reserved_store crc = s'\<lparr>ps_meta := (ps_meta s)\<lparr>sb_page_count := 3000, sb_generation := sb_generation (ps_meta s) + 1\<rparr>\<rparr>"
    using s s' by (simp add: store_reserve_def m_then_def m_bind_Ok m_modify_def word_le_nat_alt)
  then show "store_ok (reserved_store crc)" "dirty_ok (reserved_store crc)" "ps_extent_pages (reserved_store crc) = 0"
    "ps_migration_target_pages (reserved_store crc) = 0" "ps_page_size (reserved_store crc) = 512"
    "sb_page_count (ps_meta (reserved_store crc)) = 3000"
    "length (ps_segments (reserved_store crc) ! 0) = 1536000"
    "sb_free_list_head (ps_meta (reserved_store crc)) = 0" "sb_free_page_count (ps_meta (reserved_store crc)) = 0"
    using s s' so by (simp_all add: store_ok_def store_frame_def quiet_def dirty_ok_def alloc_wf_def unat_eq_zero)
qed

lemma extent_valid: "validate_extent_bytes 1048576 512 = Ok ()"
  by (simp add: validate_extent_bytes_def)

lemma reserved_migrating:
  obtains s where "begin_extent_migration crc 1048576 (reserved_store crc) = (s, Ok ())" "migrating s"
    "ps_migration_watermark s = 2048" "sb_page_count (ps_meta s) = 3000"
  by (rule begin_migration_ok [of "reserved_store crc" 1048576 crc])
     (use reserved_store_ok [of crc] extent_valid in simp_all)

text \<open>
  C11. The online migration never moves a page out of sight: each step of a migrating store
  succeeds and every page below the page count reads afterwards as before, whether the step
  copies pages and advances the watermark or completes the migration. A step that does not
  complete it leaves a migrating store with a larger watermark.
\<close>

theorem migration_step_preserves_pages:
  assumes "migrating s"
  shows "\<exists>s' r. advance_extent_migration crc n s = (s', Ok r) \<and> ps_meta s' = ps_meta s \<and>
    (\<forall>q. q \<noteq> 0 \<and> q < sb_page_count (ps_meta s) \<and> page_image s q \<noteq> None \<longrightarrow>
       read_page crc s' q = read_page crc s q) \<and>
    (if mr_complete r then ps_extent_pages s' = ps_migration_target_pages s \<and> ps_migration_target_pages s' = 0
     else migrating s' \<and> ps_migration_watermark s < ps_migration_watermark s')"
proof -
  have rd: "\<forall>q. q \<noteq> 0 \<and> q < sb_page_count (ps_meta s) \<and> page_image s q \<noteq> None \<longrightarrow> read_page crc s' q = read_page crc s q"
    if "keeps_pages s s'" "ps_meta s' = ps_meta s" for s'
    using that by (auto simp: keeps_pages_def read_page_def read_page_unchecked_image)
  show ?thesis
  proof (cases "ps_migration_watermark s < sb_page_count (ps_meta s)")
    case True
    have "ps_migration_watermark s < sat_add (ps_migration_watermark s) (max n 1)"
      by (rule sat_add_less [OF True]) (simp add: less_max_iff_disj)
    moreover obtain s' where s': "advance_extent_migration crc n s = (s', Ok \<lparr>
          mr_pages_copied = ps_migration_watermark s' - ps_migration_watermark s,
          mr_watermark = ps_migration_watermark s', mr_complete = False\<rparr>)"
        "ps_migration_watermark s' = min (sb_page_count (ps_meta s)) (sat_add (ps_migration_watermark s) (max n 1))"
        "ps_meta s' = ps_meta s" "migrating s'" "keeps_pages s s'"
      using advance_copies [OF assms True, of crc n] by blast
    ultimately have "ps_migration_watermark s < ps_migration_watermark s'" using True by simp
    with s' rd [OF s'(5,3)] show ?thesis
      by (intro exI [of _ s'] exI [of _ "\<lparr> mr_pages_copied = ps_migration_watermark s' - ps_migration_watermark s,
          mr_watermark = ps_migration_watermark s', mr_complete = False\<rparr>"]) simp
  next
    case False
    then obtain s' where s': "advance_extent_migration crc n s =
          (s', Ok \<lparr> mr_pages_copied = 0, mr_watermark = 0, mr_complete = True \<rparr>)"
        "ps_meta s' = ps_meta s" "ps_extent_pages s' = ps_migration_target_pages s" "ps_migration_target_pages s' = 0"
        "keeps_pages s s'"
      using advance_completes [OF assms, of crc n] by (auto simp: not_less)
    with rd [OF s'(5,2)] show ?thesis
      by (intro exI [of _ s'] exI [of _ "\<lparr> mr_pages_copied = 0, mr_watermark = 0, mr_complete = True \<rparr>"]) simp
  qed
qed

theorem migration_step_preserves_pages_witness:
  "\<exists>s' r. advance_extent_migration (\<lambda>_. 7) 100
       (fst (begin_extent_migration (\<lambda>_. 7) 1048576 (reserved_store (\<lambda>_. 7)))) = (s', Ok r) \<and>
     (mr_complete r \<or> 2048 < ps_migration_watermark s')"
proof -
  obtain s where s: "begin_extent_migration (\<lambda>_. 7) 1048576 (reserved_store (\<lambda>_. 7)) = (s, Ok ())" "migrating s"
      "ps_migration_watermark s = 2048"
    by (rule reserved_migrating) blast
  from migration_step_preserves_pages [OF s(2), of "\<lambda>_. 7" 100] s show ?thesis by (auto split: if_splits)
qed

text \<open>
  C17. An online migration finishes and loses nothing: started on a monolithic store whose pages
  are all backed by the file, calling the step until it reports completion takes at most one call
  per page and one more, and ends in a segmented store in which every page reads as it did
  before the migration began.
\<close>

theorem migration_completes:
  assumes "store_ok s" "dirty_ok s" "ps_extent_pages s = 0" "ps_migration_target_pages s = 0"
    and "validate_extent_bytes eb (ps_page_size s) = Ok ()" "eb \<noteq> 0"
    and "unat (sb_page_count (ps_meta s)) * ps_page_size s < 2 ^ 64"
      "unat (sb_page_count (ps_meta s)) * ps_page_size s \<le> length (ps_segments s ! 0)"
    and "unat (sb_page_count (ps_meta s)) < fuel"
  shows "\<exists>s1 s2. begin_extent_migration crc eb s = (s1, Ok ()) \<and> run_migration fuel crc n s1 = (s2, Ok True) \<and>
    ps_extent_pages s2 = eb div of_nat (ps_page_size s) \<and> ps_migration_target_pages s2 = 0 \<and>
    (\<forall>q. q \<noteq> 0 \<and> q < sb_page_count (ps_meta s) \<and> page_image s q \<noteq> None \<longrightarrow>
       read_page crc s2 q = read_page crc s q)"
proof -
  obtain s1 where s1: "begin_extent_migration crc eb s = (s1, Ok ())" "migrating s1" "ps_meta s1 = ps_meta s"
      "keeps_pages s s1" "ps_migration_target_pages s1 = eb div of_nat (ps_page_size s)"
    by (rule begin_migration_ok [OF assms(1-8), of crc]) blast
  obtain s2 where s2: "run_migration fuel crc n s1 = (s2, Ok True)" "ps_meta s2 = ps_meta s1"
      "ps_extent_pages s2 = ps_migration_target_pages s1" "ps_migration_target_pages s2 = 0" "keeps_pages s1 s2"
    using run_migration_completes [OF s1(2), of fuel crc n] s1(3) assms(9) by (auto simp: less_imp_diff_less)
  have "read_page crc s2 q = read_page crc s q"
    if q: "q \<noteq> 0" "q < sb_page_count (ps_meta s)" "page_image s q \<noteq> None" for q
  proof -
    have "page_image s1 q = page_image s q" using s1(4) q by (simp add: keeps_pages_def)
    moreover have "page_image s2 q = page_image s1 q" using s2(5) s1(3) q calculation by (simp add: keeps_pages_def)
    ultimately show ?thesis using q s1(3) s2(2) by (auto simp: read_page_def read_page_unchecked_image)
  qed
  with s1 s2 show ?thesis by auto
qed

theorem migration_completes_witness:
  "\<exists>s1 s2. begin_extent_migration (\<lambda>_. 7) 1048576 (reserved_store (\<lambda>_. 7)) = (s1, Ok ()) \<and>
     run_migration 3001 (\<lambda>_. 7) 100 s1 = (s2, Ok True) \<and> ps_extent_pages s2 = 2048"
  using migration_completes [of "reserved_store (\<lambda>_. 7)" 1048576 3001 "\<lambda>_. 7" 100]
    reserved_store_ok [of "\<lambda>_. 7"] extent_valid by auto

end
