(* ===== verification/Store_Reopen.thy ===== *)
theory Store_Reopen
  imports Page_Migration
begin

text \<open>
  Reopening a page store from its segment files: the superblock written by a flush is read
  back field by field and every page keeps its place, and a store that stopped early in an
  online migration cannot be reopened.
\<close>

section \<open>The superblock on disk\<close>

lemma put_slice_same: "i + n \<le> length b \<Longrightarrow> put b i (slice_of b i n) = b"
  by (intro nth_equalityI) (auto simp: nth_put nth_slice)

lemma stamped_superblock:
  assumes "layout_ok s"
  shows "stamped crc s 0 (superblock_page s meta) g = finalize crc (superblock_page s meta) g"
proof -
  have "ps_backup_format s \<Longrightarrow> tracked_magic s = slice_of (superblock_page s meta) 64 8"
    by (simp add: superblock_page_reads tracked_magic_def superblock_magic_def)
  then show ?thesis
    using put_slice_same [of 64 8 "superblock_page s meta"] assms by (auto simp: stamped_def layout_ok_def)
qed

definition superblock_image :: "(bytes \<Rightarrow> u32) \<Rightarrow> page_store \<Rightarrow> superblock \<Rightarrow> bytes" where
  "superblock_image crc s meta = finalize crc (superblock_page s meta) (max (sb_generation meta) 1)"

lemma superblock_image_slice:
  assumes "layout_ok s" "36 \<le> i" "i + n \<le> 504"
  shows "slice_of (superblock_image crc s meta) i n = slice_of (superblock_page s meta) i n"
proof -
  have "504 \<le> ps_page_size s - 8" using assms(1) unfolding layout_ok_def by linarith
  then have "i + n \<le> ps_page_size s - 8" using assms(3) by simp
  then show ?thesis
    using assms finalize_reads(5) [of "superblock_page s meta" i n crc]
    by (simp add: superblock_image_def layout_ok_def)
qed

lemma superblock_image_reads:
  assumes "layout_ok s"
  shows "length (superblock_image crc s meta) = ps_page_size s"
    and "slice_of (superblock_image crc s meta) 64 8 = superblock_magic s"
    and "slice_of (superblock_image crc s meta) 0 4 = PAGE_MAGIC"
    and "unat (rd32 (superblock_image crc s meta) 72) = ps_page_size s"
    and "rd64 (superblock_image crc s meta) 76 = sb_page_count meta"
    and "rd64 (superblock_image crc s meta) 84 = sb_free_list_head meta"
    and "rd64 (superblock_image crc s meta) 92 = sb_free_page_count meta"
    and "rd64 (superblock_image crc s meta) 100 = sb_root_page meta"
    and "rd64 (superblock_image crc s meta) 108 = sb_checkpoint_lsn meta"
    and "rd64 (superblock_image crc s meta) 116 = ps_extent_pages s"
    and "rd64 (superblock_image crc s meta) 124 = ps_migration_target_pages s"
    and "rd64 (superblock_image crc s meta) 132 = ps_migration_watermark s"
    and "check_image crc 0 (superblock_image crc s meta) =
         Ok ((header_new 0 Superblock (ps_page_size s))\<lparr>ph_generation := max (sb_generation meta) 1\<rparr>,
             superblock_image crc s meta)"
proof -
  note sl = superblock_image_slice [OF assms, of _ _ crc meta]
  have len: "72 \<le> length (superblock_page s meta)" using assms by (simp add: layout_ok_def)
  show "length (superblock_image crc s meta) = ps_page_size s"
    using assms by (simp add: superblock_image_def layout_ok_def)
  show "slice_of (superblock_image crc s meta) 64 8 = superblock_magic s"
    by (simp add: sl superblock_page_reads)
  have "unat (of_nat (ps_page_size s) :: u32) = ps_page_size s"
    using assms by (simp add: unat_of_nat layout_ok_def)
  then show "unat (rd32 (superblock_image crc s meta) 72) = ps_page_size s"
    using superblock_page_reads(2) [of s meta] by (simp add: rd32_def sl)
  have r: "rd64 (superblock_image crc s meta) i = rd64 (superblock_page s meta) i" if "36 \<le> i" "i \<le> 496" for i
    using that by (simp add: rd64_def sl)
  show "rd64 (superblock_image crc s meta) 76 = sb_page_count meta"
    "rd64 (superblock_image crc s meta) 84 = sb_free_list_head meta"
    "rd64 (superblock_image crc s meta) 92 = sb_free_page_count meta"
    "rd64 (superblock_image crc s meta) 100 = sb_root_page meta"
    "rd64 (superblock_image crc s meta) 108 = sb_checkpoint_lsn meta"
    "rd64 (superblock_image crc s meta) 116 = ps_extent_pages s"
    "rd64 (superblock_image crc s meta) 124 = ps_migration_target_pages s"
    "rd64 (superblock_image crc s meta) 132 = ps_migration_watermark s"
    by (simp_all add: r superblock_page_reads)
  note hd = header_decode_finalize [OF len superblock_page_header [OF assms], of crc "max (sb_generation meta) 1"]
  show "check_image crc 0 (superblock_image crc s meta) =
         Ok ((header_new 0 Superblock (ps_page_size s))\<lparr>ph_generation := max (sb_generation meta) 1\<rparr>,
             superblock_image crc s meta)"
    using hd len by (simp add: check_image_def superblock_image_def verify_finalize_ok)
  show "slice_of (superblock_image crc s meta) 0 4 = PAGE_MAGIC"
    using hd by (auto simp: superblock_image_def header_decode_def split: if_splits)
qed

lemma magic_flags:
  "superblock_magic s \<in> {SUPERBLOCK_MAGIC_TRACKED, SUPERBLOCK_MAGIC_TRACKED_MONOLITHIC} \<longleftrightarrow> ps_backup_format s"
  "superblock_magic s \<in> {SUPERBLOCK_MAGIC_SEGMENTED, SUPERBLOCK_MAGIC_TRACKED} \<longleftrightarrow>
     ps_extent_pages s \<noteq> 0 \<or> ps_migration_target_pages s \<noteq> 0"
  "is_superblock_magic (superblock_magic s)"
  using magics_distinct magics_distinct [symmetric]
  by (auto simp: superblock_magic_def is_superblock_magic_def)

definition stored_meta :: "page_store \<Rightarrow> superblock \<Rightarrow> superblock" where
  "stored_meta s meta = meta\<lparr>sb_generation := max (sb_generation meta) 1,
     sb_extent_pages := ps_extent_pages s, sb_migration_target_pages := ps_migration_target_pages s,
     sb_migration_watermark :=
       (if ps_extent_pages s = 0 \<and> ps_migration_target_pages s = 0 then 0 else ps_migration_watermark s)\<rparr>"

lemma read_superblock_image:
  assumes s: "layout_ok s" and u: "ps_page_size u = ps_page_size s" "ps_segments u \<noteq> []"
    and img: "ps_page_size s \<le> length (ps_segments u ! 0)"
      "slice_of (ps_segments u ! 0) 0 (ps_page_size s) = superblock_image crc s meta"
  shows "read_superblock crc (ps_page_size s) u =
    (u\<lparr>ps_backup_format := ps_backup_format s\<rparr>, Ok (stored_meta s meta))"
proof -
  let ?f = "ps_segments u ! 0" and ?i = "superblock_image crc s meta"
  note r = superblock_image_reads [OF s, of crc meta]
  have 512: "512 \<le> ps_page_size s" using s by (simp add: layout_ok_def)
  have sl: "slice_of (slice_of ?f 0 512) a n = slice_of ?i a n" if "a + n \<le> 512" for a n
  proof -
    have "slice_of (slice_of ?f 0 512) a n = slice_of ?f a n"
      using that slice_slice [of a n 512 ?f 0] by simp
    moreover have "slice_of ?i a n = slice_of ?f a n"
      using that 512 slice_slice [of a n "ps_page_size s" ?f 0] img(2) by simp
    ultimately show ?thesis by simp
  qed
  have "length (slice_of ?f 0 512) = 512" using img(1) 512 by simp
  then have pr: "probe_page_size u (ps_page_size s) = Ok ()"
    using magic_flags(3) [of s] r(2-4)
    by (simp add: probe_page_size_def read_at_def Let_def sl rd32_def)
  have "locate u 0 = (0, 0)" by (simp add: locate_def file_offset_def Let_def)
  then have "page_image u 0 = Some ?i" using u img by (simp add: page_image_Some)
  then have rd: "read_page_unchecked crc u 0 = check_image crc 0 ?i" by (rule read_page_unchecked_image)
  have mg: "(slice_of ?i 64 8 = SUPERBLOCK_MAGIC_TRACKED \<or> slice_of ?i 64 8 = SUPERBLOCK_MAGIC_TRACKED_MONOLITHIC) = ps_backup_format s"
    "(slice_of ?i 64 8 = SUPERBLOCK_MAGIC_SEGMENTED \<or> slice_of ?i 64 8 = SUPERBLOCK_MAGIC_TRACKED)
      = (ps_extent_pages s \<noteq> 0 \<or> ps_migration_target_pages s \<noteq> 0)"
    using magic_flags(1,2) [of s] by (simp_all add: r(2))
  show ?thesis
    unfolding read_superblock_def pr
    by (simp add: rd r Let_def mg [unfolded r] header_new_def m_return_def)
       (use magic_flags(3) [of s] in \<open>auto simp: stored_meta_def is_superblock_magic_def\<close>)
qed

section \<open>Reopening after a flush\<close>

text \<open>Writing the superblock keeps the number of segments, and the base file starts with it.\<close>

lemma write_superblock_exact:
  assumes "layout_ok s" "quiet s"
  shows "\<exists>s'. write_superblock_meta crc meta s = (s', Ok ()) \<and> store_frame s s' \<and> ps_meta s' = ps_meta s \<and> quiet s' \<and>
    length (ps_segments s') = length (ps_segments s) \<and> (dirty_ok s \<longrightarrow> dirty_ok s') \<and>
    ps_page_size s \<le> length (ps_segments s' ! 0) \<and>
    slice_of (ps_segments s' ! 0) 0 (ps_page_size s) = superblock_image crc s meta \<and>
    (\<forall>q. addressable s q \<and> q \<noteq> 0 \<and> page_image s q \<noteq> None \<longrightarrow> page_image s' q = page_image s q)"
proof -
  have loc: "locate s 0 = (0, 0)" by (simp add: locate_def file_offset_def Let_def)
  let ?w = "write_superblock_meta crc meta s"
  obtain s' where s': "?w = (s', Ok ())" "wrote s 0 (superblock_image crc s meta) s'"
    using write_superblock_meta_wrote [OF assms] by (auto simp: stamped_superblock [OF assms(1)] superblock_image_def)
  have e: "ensure_segment 0 s = s" using assms(1) by (simp add: ensure_segment_def layout_ok_def)
  have "s' = fst ?w" using s'(1) by simp
  then have len: "length (ps_segments s') = length (ps_segments s)"
    unfolding write_superblock_meta_def write_page_raw_quiet [OF assms(2) loc] e by (simp add: mark_segment_dirty_def)
  have "page_image s' 0 = Some (superblock_image crc s meta)" "locate s' 0 = (0, 0)"
    using wroteD(1,7) [OF s'(2) assms(1)] addressable_0 [OF assms(1)] loc locate_frame by fastforce+
  then have "ps_page_size s' \<le> length (ps_segments s' ! 0)"
    "slice_of (ps_segments s' ! 0) 0 (ps_page_size s') = superblock_image crc s meta"
    by (auto simp: page_image_Some split: if_splits)
  with s' len wroteD(5) [OF s'(2) assms(1)] assms(1) addressable_0 [OF assms(1)] show ?thesis
    unfolding wrote_def by auto
qed

lemma store_flush_exact:
  assumes "layout_ok s" "quiet s" "dirty_ok s"
  obtains s' where "store_flush crc s = (s', Ok ())" "store_frame s s'" "ps_meta s' = ps_meta s"
    "length (ps_segments s') = length (ps_segments s)" "ps_page_size s \<le> length (ps_segments s' ! 0)"
    "slice_of (ps_segments s' ! 0) 0 (ps_page_size s) = superblock_image crc s (ps_meta s)"
proof -
  obtain s1 where s1: "write_superblock_meta crc (ps_meta s) s = (s1, Ok ())" "store_frame s s1" "ps_meta s1 = ps_meta s"
      "length (ps_segments s1) = length (ps_segments s)" "dirty_ok s1" "ps_page_size s \<le> length (ps_segments s1 ! 0)"
      "slice_of (ps_segments s1 ! 0) 0 (ps_page_size s) = superblock_image crc s (ps_meta s)"
    using write_superblock_exact [OF assms(1,2), of crc "ps_meta s"] assms(3) by auto
  then show thesis
    using that [of "if ps_fsync s1 then s1\<lparr>ps_dirty_segments := []\<rparr> else s1"] sync_ok(2) [OF s1(5)]
    by (auto simp: store_flush_def m_then_def m_bind_Ok write_superblock_def store_frame_def)
qed

lemma open_existing_image:
  assumes s: "layout_ok s" and f: "files \<noteq> []" "ps_page_size s \<le> length (files ! 0)"
      "slice_of (files ! 0) 0 (ps_page_size s) = superblock_image crc s meta"
    and o: "so_page_size options = ps_page_size s"
  shows "open_existing crc options files =
    open_existing_segments files (sb_page_count meta)
      ((fresh_store options (files ! 0))\<lparr>ps_backup_format := ps_backup_format s,
         ps_extent_pages := ps_extent_pages s, ps_migration_target_pages := ps_migration_target_pages s,
         ps_migration_watermark := sb_migration_watermark (stored_meta s meta), ps_meta := stored_meta s meta\<rparr>)"
proof -
  let ?u = "fresh_store options (files ! 0)"
  have "read_superblock crc (ps_page_size s) ?u = (?u\<lparr>ps_backup_format := ps_backup_format s\<rparr>, Ok (stored_meta s meta))"
    by (rule read_superblock_image [OF s]) (use f o in \<open>simp_all add: fresh_store_def\<close>)
  then show ?thesis
    by (simp add: open_existing_def o m_bind_Ok) (simp add: stored_meta_def)
qed

definition required_segments :: "page_store \<Rightarrow> nat" where
  "required_segments s =
     (if ps_extent_pages s = 0 \<and> ps_migration_target_pages s = 0 then 1
      else unat (max (div_ceil (sb_page_count (ps_meta s))
             (if ps_extent_pages s = 0 then ps_migration_target_pages s else ps_extent_pages s)) 1))"

lemma open_after_flush:
  assumes s: "store_ok s" "dirty_ok s" "validate_page_size (ps_page_size s) = Ok ()"
    and o: "so_page_size options = ps_page_size s" "validate_extent_bytes (so_extent_bytes options) (ps_page_size s) = Ok ()"
  obtains s' t where "store_flush crc s = (s', Ok ())" "store_frame s s'" "length (ps_segments s') = length (ps_segments s)"
    "store_open crc options (ps_segments s') =
      (if required_segments s \<le> length (ps_segments s) then Ok t else Err (SegmentMissing (sb_page_count (ps_meta s))))"
    "ps_meta t = stored_meta s (ps_meta s)" "page_image t = page_image s'"
proof -
  have lo: "layout_ok s" "quiet s" using s(1) by (simp_all add: store_ok_def)
  obtain s' where s': "store_flush crc s = (s', Ok ())" "store_frame s s'" "ps_meta s' = ps_meta s"
    "length (ps_segments s') = length (ps_segments s)" "ps_page_size s \<le> length (ps_segments s' ! 0)"
    "slice_of (ps_segments s' ! 0) 0 (ps_page_size s) = superblock_image crc s (ps_meta s)"
    by (rule store_flush_exact [OF lo s(2)]) blast
  have ne: "ps_segments s' \<noteq> []" "ps_segments s' ! 0 \<noteq> []" "0 < length (ps_segments s)"
    using s'(4,5) lo(1) by (auto simp: layout_ok_def)
  let ?u = "(fresh_store options (ps_segments s' ! 0))\<lparr>ps_backup_format := ps_backup_format s,
         ps_extent_pages := ps_extent_pages s, ps_migration_target_pages := ps_migration_target_pages s,
         ps_migration_watermark := sb_migration_watermark (stored_meta s (ps_meta s)), ps_meta := stored_meta s (ps_meta s)\<rparr>"
  let ?mono = "ps_extent_pages s = 0 \<and> ps_migration_target_pages s = 0"
  let ?t = "?u\<lparr>ps_segments := (if ?mono then [ps_segments s' ! 0] else ps_segments s')\<rparr>"
  have "[ps_segments s' ! 0] @ drop 1 (ps_segments s') = ps_segments s'"
    using ne(1) by (metis Cons_nth_drop_Suc One_nat_def append_Cons append_Nil drop0 length_greater_0_conv)
  moreover have "?u\<lparr>ps_segments := [ps_segments s' ! 0]\<rparr> = ?u" by (simp add: fresh_store_def)
  ultimately have "open_existing_segments (ps_segments s') (sb_page_count (ps_meta s)) ?u =
      (?t, if required_segments s \<le> length (ps_segments s) then Ok () else Err (SegmentMissing (sb_page_count (ps_meta s))))"
    using s'(4) ne(3)
    by (auto simp: open_existing_segments_def required_segments_def Let_def fresh_store_def Suc_le_eq)
  with open_existing_image [OF lo(1) ne(1) s'(5,6) o(1)]
  have op: "store_open crc options (ps_segments s') =
      (if required_segments s \<le> length (ps_segments s) then Ok ?t else Err (SegmentMissing (sb_page_count (ps_meta s))))"
    using s(3) o ne(2) by (simp add: store_open_def)
  have "page_image ?t q = page_image s' q" for q
  proof -
    have "locate ?t q = locate s' q"
      using s'(2) o(1) by (auto simp: locate_def Let_def fresh_store_def store_frame_def stored_meta_def)
    moreover have "fst (locate s' q) = 0" if ?mono
      using that s'(2) by (simp add: locate_def store_frame_def Let_def)
    ultimately show ?thesis
      using s'(2) o(1) ne(1) by (auto simp: page_image_def fresh_store_def store_frame_def split: prod.splits)
  qed
  then show thesis
    using that [OF s'(1,2,4) op] by (auto simp: fun_eq_iff)
qed



section \<open>A store stopped early in a migration\<close>

lemma reserved_single: "length (ps_segments (reserved_store crc)) = 1"
proof -
  let ?s0 = "(fresh_store small_store [])\<lparr>ps_extent_pages := 0, ps_meta := superblock_default\<lparr>sb_page_count := 1\<rparr>\<rparr>"
  have "layout_ok ?s0" "quiet ?s0" by (simp_all add: layout_ok_def quiet_def fresh_store_def no_faults_def)
  from write_superblock_exact [OF this, of crc "superblock_default\<lparr>sb_page_count := 1\<rparr>"]
  have "length (ps_segments (fst (open_new crc small_store))) = 1 \<and> ps_extent_pages (fst (open_new crc small_store)) = 0"
    by (auto simp: open_new_def write_superblock_def fresh_store_def store_frame_def)
  then show ?thesis
    by (auto simp: store_reserve_def m_then_def m_bind_def m_modify_def extend_to_def mark_segment_dirty_def
        split: prod.splits result.splits if_splits)
qed

text \<open>
  C36. A store cannot be reopened in the early part of a migration. With 3000 pages and extents of
  2048 pages, opening the files right after the migration has been published reports a missing
  segment: the number of required segments is computed from the page count as if every page had
  been copied, although the pages above the watermark are still in the base file.
\<close>

theorem reopen_fails_early_in_migration:
  "\<exists>s. begin_extent_migration crc 1048576 (reserved_store crc) = (s, Ok ()) \<and>
     store_open crc small_store (ps_segments s) = Err (SegmentMissing 3000)"
proof -
  note r = reserved_store_ok [of crc]
  let ?s1 = "(reserved_store crc)\<lparr>ps_migration_target_pages := 2048, ps_migration_watermark := 2048\<rparr>"
  obtain s1 s where s: "begin_extent_migration crc 1048576 (reserved_store crc) = (s, Ok ())"
      "write_superblock_meta crc (ps_meta (reserved_store crc)) ?s1 = (s1, Ok ())" "s = s1\<lparr>ps_dirty_segments := []\<rparr>"
    by (rule begin_migration_ok [OF r(1-4), of 1048576 crc]) (use r extent_valid in simp_all)
  have lo: "layout_ok ?s1" "quiet ?s1" using r(1) by (simp_all add: store_ok_def layout_ok_def quiet_def)
  from write_superblock_exact [OF this, of crc "ps_meta (reserved_store crc)"] s r reserved_single [of crc]
  have f: "length (ps_segments s) = 1" "512 \<le> length (ps_segments s ! 0)"
    "slice_of (ps_segments s ! 0) 0 512 = superblock_image crc ?s1 (ps_meta (reserved_store crc))"
    by auto
  have "ps_segments s \<noteq> []" "ps_segments s ! 0 \<noteq> []" using f by auto
  moreover have "open_existing crc small_store (ps_segments s) = open_existing_segments (ps_segments s) 3000
      ((fresh_store small_store (ps_segments s ! 0))\<lparr>ps_backup_format := ps_backup_format ?s1,
         ps_extent_pages := ps_extent_pages ?s1, ps_migration_target_pages := 2048,
         ps_migration_watermark := sb_migration_watermark (stored_meta ?s1 (ps_meta (reserved_store crc))),
         ps_meta := stored_meta ?s1 (ps_meta (reserved_store crc))\<rparr>)"
    using open_existing_image [OF lo(1), of "ps_segments s" crc "ps_meta (reserved_store crc)" small_store] f r calculation by simp
  ultimately have "store_open crc small_store (ps_segments s) = Err (SegmentMissing 3000)"
    using small_store_valid r(3) f(1)
    by (simp add: store_open_def validate_extent_bytes_def open_existing_segments_def fresh_store_def div_ceil_def Let_def
        max_def word_le_nat_alt)
  with s(1) show ?thesis by blast
qed

end
