(* ===== verification/Free_Repair.thy ===== *)
theory Free_Repair
  imports Page_Migration
begin

text \<open>
  Two operations that trust what they find on disk: the adoption of a prepared free segment
  and the repair that truncates a corrupt free list. Both leave a well-formed free list; the
  repair does so from any state of the list.
\<close>

section \<open>Paths through free pages\<close>

fun free_path :: "(bytes \<Rightarrow> u32) \<Rightarrow> page_store \<Rightarrow> page_id \<Rightarrow> page_id list \<Rightarrow> page_id \<Rightarrow> bool" where
  "free_path crc s c [] e \<longleftrightarrow> c = e"
| "free_path crc s c (p # ps) e \<longleftrightarrow> c = p \<and> p \<noteq> 0 \<and> p < sb_page_count (ps_meta s) \<and>
     (case read_header crc s p of
        Ok h \<Rightarrow> ph_page_type h = Free \<and> free_path crc s (ph_next_page h) ps e
      | _ \<Rightarrow> False)"

lemma free_chain_path: "free_chain crc s c ps \<longleftrightarrow> free_path crc s c ps 0"
  by (induction ps arbitrary: c) (auto split: result.splits)

lemma free_path_append:
  "free_path crc s c (xs @ ys) e \<longleftrightarrow> (\<exists>m. free_path crc s c xs m \<and> free_path crc s m ys e)"
  by (induction xs arbitrary: c) (auto split: result.splits)

lemma free_path_unique:
  "free_path crc s c xs e \<Longrightarrow> free_path crc s c ys e \<Longrightarrow> e \<notin> set xs \<Longrightarrow> e \<notin> set ys \<Longrightarrow> xs = ys"
proof (induction xs arbitrary: c ys)
  case Nil
  then show ?case by (cases ys) auto
next
  case (Cons x xs)
  then show ?case by (cases ys) (auto split: result.splits)
qed

lemma free_path_distinct:
  assumes "free_path crc s c xs e" "e \<notin> set xs"
  shows "distinct xs"
proof (rule ccontr)
  assume "\<not> distinct xs"
  then obtain as x bs cs where xs: "xs = as @ [x] @ bs @ [x] @ cs" using not_distinct_decomp by blast
  with assms(1) obtain m where m: "free_path crc s m ([x] @ bs @ [x] @ cs) e" by (auto simp: free_path_append)
  then have "m = x" by auto
  obtain m' where "free_path crc s m' ([x] @ cs) e"
    using m by (metis append.assoc free_path_append)
  then have "m' = x" by auto
  have "[x] @ bs @ [x] @ cs = [x] @ cs"
    by (rule free_path_unique) (use m \<open>free_path crc s m' ([x] @ cs) e\<close> \<open>m = x\<close> \<open>m' = x\<close> assms(2) xs in auto)
  then show False by simp
qed

lemma free_path_meets_chain:
  "free_path crc s c xs e \<Longrightarrow> free_path crc s c ys 0 \<Longrightarrow> e = 0 \<or> e \<in> set ys"
proof (induction xs arbitrary: c ys)
  case Nil
  then show ?case by (cases ys) auto
next
  case (Cons x xs)
  then obtain ys' where "ys = x # ys'" by (cases ys) auto
  with Cons show ?case by (auto split: result.splits)
qed

lemma free_path_enters_list:
  assumes p: "free_path crc s c xs h" and l: "free_path crc s h ids 0" "distinct ids" and x: "x \<in> set xs"
  shows "x \<notin> set ids"
proof
  assume "x \<in> set ids"
  then obtain us vs where ids: "ids = us @ x # vs" by (metis split_list)
  obtain as bs where xs: "xs = as @ x # bs" using x by (metis split_list)
  obtain m where m: "free_path crc s m (x # bs) h" using p xs by (auto simp: free_path_append)
  obtain m' where m': "free_path crc s m' (x # vs) 0" using l(1) ids by (auto simp: free_path_append)
  from m m' obtain n where "free_path crc s n bs h" "free_path crc s n vs 0" by (auto split: result.splits)
  then have hv: "h = 0 \<or> h \<in> set vs" by (rule free_path_meets_chain)
  obtain i js where i: "ids = i # js" using ids by (cases us) auto
  have ih: "i = h" "h \<noteq> 0" using l(1) unfolding i by simp_all
  have "h \<notin> set vs" using l(2) ih(1) ids i by (cases us) auto
  with hv ih show False by simp
qed

section \<open>Adoption\<close>

lemma adopt_walk_path:
  assumes "adopt_walk n crc s c = Ok ()" "0 < n"
  shows "\<exists>xs. length xs = n \<and> free_path crc s c xs (sb_free_list_head (ps_meta s)) \<and>
    sb_free_list_head (ps_meta s) \<notin> set (tl xs)"
  using assms
proof (induction n arbitrary: c)
  case (Suc n)
  let ?h = "sb_free_list_head (ps_meta s)"
  obtain h where h: "read_header crc s c = Ok h" "ph_page_type h = Free" "c \<noteq> 0" "c < sb_page_count (ps_meta s)"
    using Suc.prems(1)
    by (auto simp: rbind_Ok_iff expect_free_def not_le Let_def split: if_splits)
  show ?case
  proof (cases "n = 0")
    case True
    then have "ph_next_page h = ?h"
      using Suc.prems(1) h by (auto simp: expect_free_def Let_def split: if_splits)
    with h True show ?thesis by (intro exI [of _ "[c]"]) simp
  next
    case False
    then have nx: "ph_next_page h \<noteq> 0" "ph_next_page h \<noteq> ?h" "adopt_walk n crc s (ph_next_page h) = Ok ()"
      using Suc.prems(1) h by (auto simp: expect_free_def Let_def split: if_splits)
    with Suc.IH False obtain xs where xs: "length xs = n" "free_path crc s (ph_next_page h) xs ?h" "?h \<notin> set (tl xs)"
      by blast
    have "hd xs = ph_next_page h" "xs \<noteq> []" using xs False by (cases xs, auto)+
    then have "?h \<notin> set xs" using xs(3) nx(2) by (cases xs) auto
    with h xs show ?thesis by (intro exI [of _ "c # xs"]) simp
  qed
qed simp

lemma adopt_chain:
  assumes wf: "alloc_wf crc s" and p: "free_path crc s c xs (sb_free_list_head (ps_meta s))"
    and tl: "sb_free_list_head (ps_meta s) \<notin> set (tl xs)"
  shows "distinct (xs @ free_pages crc s)" "free_chain crc s c (xs @ free_pages crc s)"
proof -
  let ?h = "sb_free_list_head (ps_meta s)" and ?ids = "free_pages crc s"
  have l: "free_path crc s ?h ?ids 0" "distinct ?ids" using wf by (simp_all add: alloc_wf_def free_chain_path)
  have disj: "x \<notin> set ?ids" if "x \<in> set xs" for x by (rule free_path_enters_list [OF p l that])
  have "?h \<notin> set xs"
  proof
    assume h: "?h \<in> set xs"
    have "?h \<noteq> 0" using h p by (metis (no_types) free_path.simps(2) free_path_append split_list)
    then have "?h \<in> set ?ids" using l(1) by (cases ?ids) auto
    with disj [OF h] show False by simp
  qed
  then show "distinct (xs @ ?ids)" using free_path_distinct [OF p] disj l(2) by auto
  show "free_chain crc s c (xs @ ?ids)" using p l(1) by (auto simp: free_chain_path free_path_append)
qed

lemma published_alloc_wf:
  assumes s: "store_ok s" and p: "published (s\<lparr>ps_meta := m\<rparr>) s'"
    and m: "sb_page_count m = sb_page_count (ps_meta s)" "unat (sb_free_page_count m) = length ids"
    and ch: "free_chain crc s (sb_free_list_head m) ids" "distinct ids"
  shows "alloc_wf crc s'" "free_pages crc s' = ids" "ps_meta s' = m"
    "\<And>q. q \<noteq> 0 \<Longrightarrow> q < sb_page_count (ps_meta s) \<Longrightarrow> page_image s q \<noteq> None \<Longrightarrow> page_image s' q = page_image s q"
proof -
  have ps: "0 < ps_page_size s" using s by (simp add: store_ok_def layout_ok_def)
  show ms: "ps_meta s' = m" using p by (simp add: published_def)
  show img: "page_image s' q = page_image s q"
    if "q \<noteq> 0" "q < sb_page_count (ps_meta s)" "page_image s q \<noteq> None" for q
    using p that addressable_below [OF s that(2)] by (simp add: published_def)
  have n0: "0 \<notin> set ids" using free_chainD [OF ch(1)] by auto
  have "free_chain crc s' (sb_free_list_head m) ids"
    by (rule free_chain_keep [OF ch(1) ps _ n0]) (use ms m img in simp_all)
  moreover have "store_ok s'"
    using p s m(1) ms by (auto simp: published_def store_ok_def store_frame_def)
  ultimately show "alloc_wf crc s'" "free_pages crc s' = ids"
    using alloc_wfI [of s' ids crc] ms m ch(2) by simp_all
qed

text \<open>
  C25. Adopting a segment of free pages is sound although it checks neither for repeated pages nor
  for overlap with the list in use: when it succeeds, the pages of the segment are distinct, none
  was on the free list, and the new free list is the segment followed by the old list.
\<close>

theorem adopt_extends_free_list:
  assumes "alloc_wf crc s" "dirty_ok s" "adopt_free_pages crc new_head count s = (s', Ok ())"
  shows "alloc_wf crc s' \<and> (\<exists>xs. length xs = unat count \<and> free_pages crc s' = xs @ free_pages crc s) \<and>
    (\<forall>q. q \<noteq> 0 \<and> q < sb_page_count (ps_meta s) \<and> page_image s q \<noteq> None \<longrightarrow> page_image s' q = page_image s q)"
proof (cases "count = 0")
  case True
  then have "s' = s" using assms by (auto simp: adopt_free_pages_def validate_ok m_return_def m_err_def Let_def split: if_splits)
  with assms(1) True show ?thesis by (intro conjI exI [of _ "[]"]) simp_all
next
  case False
  let ?m = "ps_meta s"
  let ?m' = "?m\<lparr>sb_free_list_head := new_head, sb_free_page_count := sb_free_page_count ?m + count,
              sb_generation := sb_generation ?m + 1\<rparr>"
  let ?s1 = "s\<lparr>ps_meta := ?m'\<rparr>"
  have so: "store_ok s" "layout_ok ?s1" "quiet ?s1" "dirty_ok ?s1"
    using assms(1,2) by (simp_all add: alloc_wf_def store_ok_def dirty_ok_def)
  obtain s2 s3 where s3: "write_superblock_meta crc ?m' ?s1 = (s2, Ok ())" "store_sync s2 = (s3, Ok ())" "published ?s1 s3"
    by (rule publish_superblock [OF so(2-4), of crc ?m']) blast
  have w: "adopt_walk (unat count) crc s new_head = Ok ()" "s' = s3"
    "unat (sb_free_page_count ?m) + unat count \<le> unat (sat_sub (sb_page_count ?m) 1)"
    using assms(3) False s3(1,2) validate_ok [OF assms(1)]
    by (auto simp: adopt_free_pages_def write_superblock_def m_then_def m_bind_Ok m_err_def not_le Let_def
        split: if_splits result.splits)
  have "0 < unat count" using False by (simp add: unat_gt_0)
  from adopt_walk_path [OF w(1) this] obtain xs where xs: "length xs = unat count"
      "free_path crc s new_head xs (sb_free_list_head ?m)" "sb_free_list_head ?m \<notin> set (tl xs)" by blast
  note ch = adopt_chain [OF assms(1) xs(2,3)]
  have "unat (sb_free_page_count ?m) + unat count < 2 ^ 64"
    using w(3) unat_less_u64 [of "sat_sub (sb_page_count ?m) 1"] by linarith
  then have cnt: "unat (sb_free_page_count ?m') = length (xs @ free_pages crc s)"
    using assms(1) xs(1) by (simp add: unat_add_u64 alloc_wf_def)
  note r = published_alloc_wf [OF so(1) s3(3) _ cnt, of crc]
  show ?thesis using r ch xs(1) w(2) by simp
qed

text \<open>A store with one prepared free page, which is not on the list yet.\<close>

definition prepared_store :: "(bytes \<Rightarrow> u32) \<Rightarrow> page_store" where
  "prepared_store crc = fst (write_page crc 1 (free_image (reserved_store crc) 1 0) (reserved_store crc))"

lemma prepared_store_ok:
  shows "alloc_wf crc (prepared_store crc)" "dirty_ok (prepared_store crc)" "free_pages crc (prepared_store crc) = []"
    "sb_page_count (ps_meta (prepared_store crc)) = 3000" "sb_free_page_count (ps_meta (prepared_store crc)) = 0"
    "\<exists>h. read_header crc (prepared_store crc) 1 = Ok h \<and> ph_page_type h = Free \<and> ph_next_page h = 0"
proof -
  note r = reserved_store_ok [of crc]
  let ?r = "reserved_store crc"
  let ?g = "sb_generation (ps_meta ?r) + 1"
  let ?s = "?r\<lparr>ps_meta := (ps_meta ?r)\<lparr>sb_generation := ?g\<rparr>\<rparr>"
  have so: "store_ok ?s" "layout_ok ?s" "layout_ok ?r" "quiet ?s" "dirty_ok ?s"
    using r by (simp_all add: store_ok_def dirty_ok_def)
  have "length (free_image ?r 1 0) = ps_page_size ?s" using so(3) by (simp add: free_image_def layout_ok_def)
  from write_page_raw_wrote [OF so(4) this so(2), of crc 1 ?g] obtain s1 where
    s1: "write_page_raw crc 1 (free_image ?r 1 0) ?g ?s = (s1, Ok ())" "wrote ?s 1 (stamped crc ?s 1 (free_image ?r 1 0) ?g) s1"
    by blast
  have p: "prepared_store crc = s1" using s1(1) by (simp add: prepared_store_def write_page_def Let_def)
  note w = wroteD [OF s1(2) so(2)]
  have "store_ok s1" by (rule store_ok_frame [OF so(1) w(1,4,3)]) (simp add: w(2))
  moreover have m: "sb_free_list_head (ps_meta s1) = 0" "sb_free_page_count (ps_meta s1) = 0" "sb_page_count (ps_meta s1) = 3000"
    using w(2) r by simp_all
  ultimately show "alloc_wf crc (prepared_store crc)" "free_pages crc (prepared_store crc) = []"
    using alloc_wfI [of s1 "[]" crc] p by simp_all
  show "dirty_ok (prepared_store crc)" using s1(2) so p by (simp add: wrote_def)
  show "sb_page_count (ps_meta (prepared_store crc)) = 3000" "sb_free_page_count (ps_meta (prepared_store crc)) = 0"
    using m p by simp_all
  have "addressable ?s 1" using r(5) by (simp add: addressable_def)
  then show "\<exists>h. read_header crc (prepared_store crc) 1 = Ok h \<and> ph_page_type h = Free \<and> ph_next_page h = 0"
    using read_header_image [OF w(7), of crc] free_image_header [OF so(3), of crc 1 1 0 ?g] p
    by (auto simp: stamped_other)
qed

theorem adopt_extends_free_list_witness:
  "\<exists>s'. adopt_free_pages (\<lambda>_. 7) 1 1 (prepared_store (\<lambda>_. 7)) = (s', Ok ()) \<and>
     alloc_wf (\<lambda>_. 7) s' \<and> length (free_pages (\<lambda>_. 7) s') = 1"
proof -
  let ?crc = "\<lambda>_ :: bytes. 7 :: u32"
  let ?s = "prepared_store ?crc"
  let ?m = "(ps_meta ?s)\<lparr>sb_free_list_head := 1, sb_free_page_count := 1, sb_generation := sb_generation (ps_meta ?s) + 1\<rparr>"
  note p = prepared_store_ok [of ?crc]
  have h0: "sb_free_list_head (ps_meta ?s) = 0" using p(1,3) by (simp add: alloc_wf_def)
  have so: "layout_ok (?s\<lparr>ps_meta := ?m\<rparr>)" "quiet (?s\<lparr>ps_meta := ?m\<rparr>)" "dirty_ok (?s\<lparr>ps_meta := ?m\<rparr>)"
    using p(1,2) by (simp_all add: alloc_wf_def store_ok_def dirty_ok_def)
  obtain s2 s3 where s3: "write_superblock_meta ?crc ?m (?s\<lparr>ps_meta := ?m\<rparr>) = (s2, Ok ())" "store_sync s2 = (s3, Ok ())"
    by (rule publish_superblock [OF so, of ?crc ?m]) blast
  have "adopt_walk (Suc 0) ?crc ?s 1 = Ok ()"
    using p(4,6) h0 by (auto simp: expect_free_def word_le_nat_alt)
  then have "adopt_free_pages ?crc 1 1 ?s = (s3, Ok ())"
    using s3 validate_ok [OF p(1)] p(4,5)
    by (simp add: adopt_free_pages_def write_superblock_def m_then_def m_bind_Ok word_le_nat_alt unat_sat_sub Let_def)
  with adopt_extends_free_list [OF p(1,2) this] p(3) show ?thesis by auto
qed

section \<open>Repair\<close>

definition walk_inv :: "(bytes \<Rightarrow> u32) \<Rightarrow> page_store \<Rightarrow> page_id \<Rightarrow> page_id \<Rightarrow> (page_id \<times> page_id) list \<Rightarrow> bool" where
  "walk_inv crc s h c ch \<longleftrightarrow> free_path crc s h (rev (map fst ch)) c \<and> distinct (map fst ch) \<and>
     (ch \<noteq> [] \<longrightarrow> snd (hd ch) = c) \<and> (c \<in> fst ` set ch \<longrightarrow> c = fst (hd ch))"

lemma walk_inv_next:
  assumes "walk_inv crc s h c ((p, nx) # ch)"
  shows "\<exists>hdr. read_header crc s p = Ok hdr \<and> ph_next_page hdr = c \<and> ph_page_type hdr = Free" "p \<noteq> 0" "p < sb_page_count (ps_meta s)"
  using assms by (auto simp: walk_inv_def free_path_append split: result.splits)

lemma walk_inv_step:
  assumes inv: "walk_inv crc s h c ch" and c: "c \<noteq> 0" "c < sb_page_count (ps_meta s)"
    and hdr: "read_header crc s c = Ok hdr" "ph_page_type hdr = Free" "ph_next_page hdr \<notin> fst ` set ch"
  shows "walk_inv crc s h (ph_next_page hdr) ((c, ph_next_page hdr) # ch)"
proof -
  have "c \<notin> fst ` set ch"
  proof
    assume m: "c \<in> fst ` set ch"
    then obtain p nx ch' where ch: "ch = (p, nx) # ch'" by (cases ch) auto
    have "c = p" using inv m ch by (auto simp: walk_inv_def)
    with walk_inv_next(1) [of crc s h c p nx ch'] inv ch hdr(1) have "ph_next_page hdr = c" by auto
    with m hdr(3) show False by simp
  qed
  with inv c hdr show ?thesis by (auto simp: walk_inv_def free_path_append)
qed

lemma repair_walk_inv:
  assumes "walk_inv crc s h c ch" "repair_walk left crc s c ch = (ch', cp)"
  shows "(\<exists>c'. walk_inv crc s h c' ch' \<and> (cp = None \<longrightarrow> c' = 0)) \<and> length ch' \<le> length ch + left"
  using assms
proof (induction left arbitrary: c ch)
  case 0
  then show ?case by (subst (asm) repair_walk.simps) (auto split: if_splits)
next
  case (Suc left)
  show ?case
  proof (cases "\<exists>hdr. c \<noteq> 0 \<and> c < sb_page_count (ps_meta s) \<and> read_header crc s c = Ok hdr \<and>
      ph_page_type hdr = Free \<and> ph_next_page hdr \<notin> fst ` set ch")
    case True
    then obtain hdr where hdr: "c \<noteq> 0" "c < sb_page_count (ps_meta s)" "read_header crc s c = Ok hdr"
        "ph_page_type hdr = Free" "ph_next_page hdr \<notin> fst ` set ch" by blast
    have "repair_walk left crc s (ph_next_page hdr) ((c, ph_next_page hdr) # ch) = (ch', cp)"
      using Suc.prems(2) hdr by (subst (asm) repair_walk.simps) (simp add: not_le [symmetric])
    from Suc.IH [OF walk_inv_step [OF Suc.prems(1) hdr] this] show ?thesis by auto
  next
    case False
    then have "ch' = ch \<and> (cp = None \<longrightarrow> c = 0)"
      using Suc.prems(2) by (subst (asm) repair_walk.simps) (auto simp: not_le split: if_splits result.splits)
    with Suc.prems(1) show ?thesis by auto
  qed
qed

lemma free_path_keep:
  assumes "free_path crc s c ps e" "0 < ps_page_size s" "sb_page_count (ps_meta s) \<le> sb_page_count (ps_meta s')"
    and "\<And>q. q < sb_page_count (ps_meta s) \<Longrightarrow> q \<in> set ps \<Longrightarrow> page_image s q \<noteq> None \<Longrightarrow> page_image s' q = page_image s q"
  shows "free_path crc s' c ps e"
  using assms(1,4)
proof (induction ps arbitrary: c)
  case (Cons p ps)
  obtain h where h: "read_header crc s p = Ok h" "p < sb_page_count (ps_meta s)" "c = p" "p \<noteq> 0" "ph_page_type h = Free"
      "free_path crc s (ph_next_page h) ps e"
    using Cons.prems(1) by (auto split: result.splits)
  have "page_image s p \<noteq> None" by (rule read_header_some [OF h(1) assms(2)])
  then have "read_header crc s' p = Ok h"
    using Cons.prems(2) [of p] h(1,2) read_header_cong [of s p _ s' crc] by auto
  moreover have "free_path crc s' (ph_next_page h) ps e" using Cons.IH [OF h(6)] Cons.prems(2) by simp
  ultimately show ?case using h assms(3) by (auto dest: less_le_trans)
qed simp

text \<open>Cutting a path behind its last page gives a list.\<close>

lemma cut_path:
  assumes s: "store_ok s" and inv: "walk_inv crc s h c ((p, nx) # ch)"
  obtains s1 where "write_page_raw crc p (free_image s p 0) g s = (s1, Ok ())"
    "free_chain crc s1 h (rev (map fst ((p, nx) # ch)))" "store_frame s s1" "ps_meta s1 = ps_meta s"
    "layout_ok s1" "quiet s1" "dirty_ok s \<Longrightarrow> dirty_ok s1"
    "\<And>q. q < sb_page_count (ps_meta s) \<Longrightarrow> q \<noteq> p \<Longrightarrow> page_image s q \<noteq> None \<Longrightarrow> page_image s1 q = page_image s q"
proof -
  have lo: "layout_ok s" "quiet s" "0 < ps_page_size s" using s by (simp_all add: store_ok_def layout_ok_def)
  note p = walk_inv_next [OF inv]
  have ad: "addressable s p" by (rule addressable_below [OF s p(3)])
  have "length (free_image s p 0) = ps_page_size s" using lo(1) by (simp add: free_image_def layout_ok_def)
  from write_page_raw_wrote [OF lo(2) this lo(1), of crc p g]
  obtain s1 where s1: "write_page_raw crc p (free_image s p 0) g s = (s1, Ok ())"
      "wrote s p (stamped crc s p (free_image s p 0) g) s1" by blast
  note w = wroteD [OF s1(2) lo(1)]
  have img: "page_image s1 q = page_image s q" if "q < sb_page_count (ps_meta s)" "q \<noteq> p" "page_image s q \<noteq> None" for q
    using w(8) [OF ad addressable_below [OF s that(1)] that(2)] that(3) by auto
  obtain hdr where "read_header crc s1 p = Ok hdr" "ph_page_type hdr = Free" "ph_next_page hdr = 0"
    using free_image_header [OF lo(1), of crc p p 0 g] read_header_image [OF w(7) [OF ad], of crc] p(2)
    by (auto simp: stamped_other)
  moreover have "free_path crc s1 h (rev (map fst ch)) p"
  proof (rule free_path_keep [OF _ lo(3)])
    show "free_path crc s h (rev (map fst ch)) p" using inv by (auto simp: walk_inv_def free_path_append)
    show "page_image s1 q = page_image s q"
      if "q < sb_page_count (ps_meta s)" "q \<in> set (rev (map fst ch))" "page_image s q \<noteq> None" for q
      by (rule img) (use that inv in \<open>auto simp: walk_inv_def\<close>)
  qed (simp add: w(2))
  ultimately have "free_chain crc s1 h (rev (map fst ((p, nx) # ch)))"
    using p(2,3) w(2) by (auto simp: free_chain_path free_path_append)
  then show thesis
    using that [OF s1(1)] w img s1(2) lo(1) by (simp add: wrote_def)
qed

lemma repair_walk_chain:
  assumes "free_chain crc s c ps" "length ps \<le> left" "distinct (map fst ch @ ps)"
    "0 \<notin> fst ` set ch"
  shows "\<exists>ch'. repair_walk left crc s c ch = (ch', None) \<and> length ch' = length ch + length ps"
  using assms
proof (induction ps arbitrary: c ch left)
  case Nil
  then show ?case by (simp add: repair_walk.simps)
next
  case (Cons p ps)
  then obtain left' where l: "left = Suc left'" by (cases left) auto
  obtain h where h: "read_header crc s p = Ok h" "ph_page_type h = Free" "c = p" "p \<noteq> 0"
      "p < sb_page_count (ps_meta s)" "free_chain crc s (ph_next_page h) ps"
    using Cons.prems(1) by (auto split: result.splits)
  have nx: "ph_next_page h \<notin> fst ` set ch"
    using h(6) Cons.prems(3,4) by (cases ps) auto
  have "\<exists>ch'. repair_walk left' crc s (ph_next_page h) ((p, ph_next_page h) # ch) = (ch', None) \<and>
      length ch' = length ((p, ph_next_page h) # ch) + length ps"
    by (rule Cons.IH [OF h(6)]) (use Cons.prems(2-4) l h(4) in auto)
  then show ?case using h nx l by (subst repair_walk.simps) (simp add: not_le)
qed

text \<open>The walk from the head of the list, and the list it leaves after the cut.\<close>

lemma repair_prefix:
  assumes "repair_walk (unat (sb_free_page_count (ps_meta s))) crc s (sb_free_list_head (ps_meta s)) [] = (chain, cp)"
  obtains c where "walk_inv crc s (sb_free_list_head (ps_meta s)) c chain" "cp = None \<Longrightarrow> c = 0"
    "unat (of_nat (length chain) :: u64) = length chain"
proof -
  have "walk_inv crc s (sb_free_list_head (ps_meta s)) (sb_free_list_head (ps_meta s)) []"
    by (simp add: walk_inv_def)
  note r = repair_walk_inv [OF this assms]
  then have "length chain < 2 ^ 64" using unat_less_u64 [of "sb_free_page_count (ps_meta s)"] by simp
  with r that show thesis by (auto simp: unat_of_nat_u64)
qed

lemma cut_chain:
  assumes s: "store_ok s" "dirty_ok s" and inv: "walk_inv crc s (sb_free_list_head (ps_meta s)) c chain"
  obtains s1 m where "cut_list crc chain s = (s1, Ok m)"
    "store_ok s1" "dirty_ok s1" "sb_page_count m = sb_page_count (ps_meta s)" "ps_meta s1 = ps_meta s"
    "sb_free_page_count m = of_nat (length chain)"
    "free_chain crc s1 (sb_free_list_head m) (rev (map fst chain))"
    "\<And>q. q < sb_page_count (ps_meta s) \<Longrightarrow> q \<notin> fst ` set chain \<Longrightarrow> page_image s q \<noteq> None \<Longrightarrow> page_image s1 q = page_image s q"
proof (cases chain)
  case Nil
  show thesis by (rule that [of s "(ps_meta s)\<lparr>sb_free_list_head := 0, sb_free_page_count := 0\<rparr>"])
      (use Nil s in \<open>simp_all add: cut_list_def\<close>)
next
  case (Cons e ch)
  obtain p nx where e: "e = (p, nx)" by fastforce
  let ?m = "(ps_meta s)\<lparr>sb_free_page_count := of_nat (length chain)\<rparr>"
  show thesis
  proof (cases "nx = 0")
    case True
    have "nx = c" using inv Cons e by (simp add: walk_inv_def)
    then have "free_chain crc s (sb_free_list_head (ps_meta s)) (rev (map fst chain))"
      using inv True by (simp add: walk_inv_def free_chain_path)
    then show thesis
      by (intro that [of s ?m]) (use Cons e True s in \<open>simp_all add: cut_list_def m_return_def m_then_def m_bind_def\<close>)
  next
    case False
    obtain s1 where s1: "write_page_raw crc p (free_image s p 0) (sb_generation (ps_meta s)) s = (s1, Ok ())"
      "free_chain crc s1 (sb_free_list_head (ps_meta s)) (rev (map fst ((p, nx) # ch)))" "store_frame s s1" "ps_meta s1 = ps_meta s"
      "layout_ok s1" "quiet s1" "dirty_ok s \<Longrightarrow> dirty_ok s1"
      "\<And>q. q < sb_page_count (ps_meta s) \<Longrightarrow> q \<noteq> p \<Longrightarrow> page_image s q \<noteq> None \<Longrightarrow> page_image s1 q = page_image s q"
      by (rule cut_path [OF s(1), of crc "sb_free_list_head (ps_meta s)" c p nx ch "sb_generation (ps_meta s)"])
         (use inv Cons e in blast)+
    have "store_ok s1" by (rule store_ok_frame [OF s(1) s1(3,5,6)]) (simp add: s1(4))
    then show thesis
      by (intro that [of s1 ?m]) (use Cons e False s s1 in \<open>auto simp: cut_list_def m_return_def m_then_def m_bind_def\<close>)
  qed
qed

text \<open>
  C12. The repair of the free list works from any state of the list, whatever its links and its
  advertised count say: it succeeds, leaves a well-formed allocator whose free list has the
  reported length, and changes no page outside that list but the superblock. On a list that is
  well-formed already it changes nothing.
\<close>

theorem repair_restores_free_list:
  assumes "store_ok s" "dirty_ok s"
  shows "\<exists>s' report. truncate_free_list_at_corruption crc True s = (s', Ok report) \<and> alloc_wf crc s' \<and>
    length (free_pages crc s') = unat (tr_valid_prefix report) \<and>
    (\<forall>q. q \<noteq> 0 \<and> q < sb_page_count (ps_meta s) \<and> q \<notin> set (free_pages crc s') \<and> page_image s q \<noteq> None \<longrightarrow>
       page_image s' q = page_image s q) \<and>
    (alloc_wf crc s \<longrightarrow> s' = s \<and> \<not> tr_applied report)"
proof -
  let ?m = "ps_meta s"
  obtain chain cp where w: "repair_walk (unat (sb_free_page_count ?m)) crc s (sb_free_list_head ?m) [] = (chain, cp)"
    by fastforce
  obtain c where inv: "walk_inv crc s (sb_free_list_head ?m) c chain" "cp = None \<Longrightarrow> c = 0"
      "unat (of_nat (length chain) :: u64) = length chain"
    by (rule repair_prefix [OF w]) blast
  have d: "distinct (rev (map fst chain))" using inv(1) by (simp add: walk_inv_def)
  have keep: "cp = None \<and> of_nat (length chain) = sb_free_page_count ?m" if "alloc_wf crc s"
    using repair_walk_chain [of crc s "sb_free_list_head ?m" "free_pages crc s" "unat (sb_free_page_count ?m)" "[]"]
      that w inv(3) by (auto simp: alloc_wf_def word_unat_eq_iff)
  show ?thesis
  proof (cases "cp = None \<and> of_nat (length chain) = sb_free_page_count ?m")
    case True
    have "free_chain crc s (sb_free_list_head ?m) (rev (map fst chain))"
      using inv(1,2) True by (simp add: walk_inv_def free_chain_path)
    with alloc_wfI [OF assms(1) d] True inv(3) w show ?thesis
      by (auto simp: truncate_free_list_at_corruption_def Let_def)
  next
    case False
    obtain s1 m where s1: "cut_list crc chain s = (s1, Ok m)"
      "store_ok s1" "dirty_ok s1" "sb_page_count m = sb_page_count ?m" "ps_meta s1 = ?m"
      "sb_free_page_count m = of_nat (length chain)"
      "free_chain crc s1 (sb_free_list_head m) (rev (map fst chain))"
      "\<And>q. q < sb_page_count ?m \<Longrightarrow> q \<notin> fst ` set chain \<Longrightarrow> page_image s q \<noteq> None \<Longrightarrow> page_image s1 q = page_image s q"
      by (rule cut_chain [OF assms inv(1)]) blast
    let ?m1 = "m\<lparr>sb_generation := sat_succ (sb_generation m)\<rparr>"
    have so: "layout_ok (s1\<lparr>ps_meta := ?m1\<rparr>)" "quiet (s1\<lparr>ps_meta := ?m1\<rparr>)" "dirty_ok (s1\<lparr>ps_meta := ?m1\<rparr>)"
      using s1(2,3) by (simp_all add: store_ok_def dirty_ok_def)
    obtain s2 s3 where s3: "write_superblock_meta crc ?m1 (s1\<lparr>ps_meta := ?m1\<rparr>) = (s2, Ok ())"
        "store_sync s2 = (s3, Ok ())" "published (s1\<lparr>ps_meta := ?m1\<rparr>) s3"
      by (rule publish_superblock [OF so, of crc ?m1]) blast
    have run: "\<exists>report. truncate_free_list_at_corruption crc True s = (s3, Ok report) \<and>
        tr_valid_prefix report = of_nat (length chain)"
      using False w s1(1) s3(1,2)
      by (auto simp: truncate_free_list_at_corruption_def m_then_def m_bind_Ok m_return_def Let_def)
    have pre: "sb_page_count ?m1 = sb_page_count (ps_meta s1)" "unat (sb_free_page_count ?m1) = length (rev (map fst chain))"
      "free_chain crc s1 (sb_free_list_head ?m1) (rev (map fst chain))"
      using s1 inv(3) by simp_all
    note r = published_alloc_wf [OF s1(2) s3(3) pre(1,2,3) d]
    have "page_image s3 q = page_image s q"
      if "q \<noteq> 0" "q < sb_page_count ?m" "q \<notin> set (free_pages crc s3)" "page_image s q \<noteq> None" for q
      using r(4) [of q] s1(8) [of q] that s1(5) r(2) by simp
    with run r(1,2) inv(3) keep False show ?thesis by auto
  qed
qed

theorem repair_restores_free_list_witness:
  "\<exists>s' report. truncate_free_list_at_corruption (\<lambda>_. 7) True
       (let s = prepared_store (\<lambda>_. 7) in s\<lparr>ps_meta := (ps_meta s)\<lparr>sb_free_list_head := 1, sb_free_page_count := 9\<rparr>\<rparr>) = (s', Ok report) \<and>
     alloc_wf (\<lambda>_. 7) s'"
proof -
  let ?s = "prepared_store (\<lambda>_. 7)"
  let ?s1 = "?s\<lparr>ps_meta := (ps_meta ?s)\<lparr>sb_free_list_head := 1, sb_free_page_count := 9\<rparr>\<rparr>"
  have "store_ok ?s1" "dirty_ok ?s1"
    using prepared_store_ok(1,2) [of "\<lambda>_. 7"] by (simp_all add: alloc_wf_def store_ok_def dirty_ok_def)
  from repair_restores_free_list [OF this, of "\<lambda>_. 7"] show ?thesis by (auto simp: Let_def)
qed

end
