(* ===== verification/Store_Reserve.thy ===== *)
theory Store_Reserve
  imports Free_Repair
begin

text \<open>
  Growing the store and writing a page, in every layout: reserving pages keeps the bytes of
  every page below the page count, and a page write replaces one page. These are the steps of
  crash recovery.
\<close>

lemma set_len_image:
  assumes "page_image s q \<noteq> None" "i < length (ps_segments s)" "length (ps_segments s ! i) \<le> n"
  shows "page_image (s\<lparr>ps_segments := (ps_segments s)[i := set_len (ps_segments s ! i) n]\<rparr>) q = page_image s q"
proof -
  let ?s = "s\<lparr>ps_segments := (ps_segments s)[i := set_len (ps_segments s ! i) n]\<rparr>"
  obtain j off where loc: "locate s q = (j, off)" by fastforce
  moreover have "locate ?s q = locate s q" by (simp add: locate_def Let_def)
  ultimately show ?thesis
    using assms by (cases "j = i") (auto simp: page_image_def slice_set_len split: if_splits)
qed

definition grows :: "page_store \<Rightarrow> page_store \<Rightarrow> bool" where
  "grows s s' \<longleftrightarrow> store_frame s s' \<and> ps_meta s' = ps_meta s \<and> ps_faults s' = ps_faults s \<and>
     length (ps_segments s) \<le> length (ps_segments s') \<and> (dirty_ok s \<longrightarrow> dirty_ok s') \<and>
     (\<forall>q. page_image s q \<noteq> None \<longrightarrow> page_image s' q = page_image s q)"

lemma grows_refl: "grows s s"
  by (simp add: grows_def store_frame_def)

lemma grows_trans: "grows s t \<Longrightarrow> grows t u \<Longrightarrow> grows s u"
  unfolding grows_def using store_frame_trans by (auto dest: order.trans)

lemma grow_segment_grows:
  assumes "i < length (ps_segments s)"
  shows "grows s (grow_segment n l i s)"
proof -
  let ?n = "unat (segment_target s n l i)"
  let ?s = "s\<lparr>ps_segments := (ps_segments s)[i := set_len (ps_segments s ! i) ?n]\<rparr>"
  have "page_image (mark_segment_dirty i ?s) = page_image ?s"
    by (rule page_image_cong) (simp_all add: store_frame_def mark_segment_dirty_def)
  then have "grows s (mark_segment_dirty i ?s)" if "length (ps_segments s ! i) < ?n"
    using set_len_image [of s _ i ?n] assms that
    by (auto simp: grows_def store_frame_def mark_segment_dirty_def dirty_ok_def)
  then show ?thesis by (simp add: grow_segment_def grows_refl Let_def)
qed

lemma fold_grow_grows:
  assumes "\<forall>i \<in> set js. i < length (ps_segments s)"
  shows "grows s (fold (grow_segment n l) js s)"
  using assms
proof (induction js arbitrary: s)
  case (Cons i ks)
  have g: "grows s (grow_segment n l i s)" by (rule grow_segment_grows) (use Cons.prems in simp)
  then have "\<forall>j \<in> set ks. j < length (ps_segments (grow_segment n l i s))"
    using Cons.prems by (auto simp: grows_def dest: less_le_trans)
  from grows_trans [OF g Cons.IH [OF this]] show ?case by simp
qed (simp add: grows_refl)

lemma ensure_segment_grows: "grows s (ensure_segment i s)"
proof -
  have "locate (ensure_segment i s) = locate s" by (rule locate_frame) simp
  then show ?thesis
    by (auto simp: grows_def page_image_def ensure_segment_segments dirty_ok_def nth_append ensure_segment_def store_frame_def
        split: if_splits prod.splits)
qed

lemma extend_to_keeps:
  assumes "layout_ok s" "unat n * ps_page_size s < 2 ^ 64"
  obtains s' where "extend_to n s = (s', Ok ())" "store_frame s s'" "ps_meta s' = ps_meta s" "ps_faults s' = ps_faults s"
    "layout_ok s'" "dirty_ok s \<Longrightarrow> dirty_ok s'"
    "\<And>q. addressable s q \<Longrightarrow> q < n \<Longrightarrow> page_image s q \<noteq> None \<Longrightarrow> page_image s' q = page_image s q"
proof (cases "ps_extent_pages s = 0")
  case True
  then show thesis by (rule extend_to_mono [OF assms(1) _ assms(2)]) (rule that)
next
  case False
  let ?last = "unat ((n - 1) div ps_extent_pages s)"
  let ?s1 = "ensure_segment ?last s"
  let ?s' = "fold (grow_segment n ?last) [0..<Suc ?last] ?s1"
  have "?last < length (ps_segments ?s1)" by (auto simp: ensure_segment_def)
  then have "grows ?s1 ?s'" by (intro fold_grow_grows) auto
  then have g: "grows s ?s'" using grows_trans [OF ensure_segment_grows] by blast
  moreover have "layout_ok ?s'" using g assms(1) by (auto simp: grows_def store_frame_def layout_ok_def)
  moreover have "extend_to n s = (?s', Ok ())" using False by (simp add: extend_to_def Let_def)
  ultimately show thesis using that [of ?s'] unfolding grows_def by blast
qed

text \<open>How the steps of a recovery change the store; pages below the old page count are kept.\<close>

definition moves_on :: "page_store \<Rightarrow> page_store \<Rightarrow> bool" where
  "moves_on s s' \<longleftrightarrow> store_ok s' \<and> dirty_ok s' \<and> ps_page_size s' = ps_page_size s \<and>
     sb_page_count (ps_meta s) \<le> sb_page_count (ps_meta s')"

definition free_empty :: "page_store \<Rightarrow> bool" where
  "free_empty s \<longleftrightarrow> sb_free_list_head (ps_meta s) = 0 \<and> sb_free_page_count (ps_meta s) = 0"

lemma reserve_moves_on:
  assumes s: "store_ok s" "dirty_ok s" and n: "unat n * ps_page_size s < 2 ^ 64"
  obtains s' where "store_reserve n s = (s', Ok ())" "moves_on s s'" "n \<le> sb_page_count (ps_meta s')"
    "free_empty s' = free_empty s"
    "\<And>q. q < sb_page_count (ps_meta s) \<Longrightarrow> page_image s q \<noteq> None \<Longrightarrow> page_image s' q = page_image s q"
proof (cases "n \<le> sb_page_count (ps_meta s)")
  case True
  with s that [of s] show thesis by (simp add: store_reserve_def moves_on_def)
next
  case False
  have lo: "layout_ok s" using s(1) by (simp add: store_ok_def)
  obtain s1 where s1: "extend_to n s = (s1, Ok ())" "store_frame s s1" "ps_meta s1 = ps_meta s" "ps_faults s1 = ps_faults s"
    "layout_ok s1" "dirty_ok s \<Longrightarrow> dirty_ok s1"
    "\<And>q. addressable s q \<Longrightarrow> q < n \<Longrightarrow> page_image s q \<noteq> None \<Longrightarrow> page_image s1 q = page_image s q"
    by (rule extend_to_keeps [OF lo n]) blast
  let ?m = "(ps_meta s1)\<lparr>sb_page_count := n, sb_generation := sb_generation (ps_meta s1) + 1\<rparr>"
  have "store_reserve n s = (s1\<lparr>ps_meta := ?m\<rparr>, Ok ())"
    using False s1(1) by (simp add: store_reserve_def m_then_def m_bind_Ok m_modify_def)
  moreover have "0 < n" using False by (metis word_gt_0 word_zero_le)
  then have "moves_on s (s1\<lparr>ps_meta := ?m\<rparr>)"
    using s s1 n False by (auto simp: moves_on_def store_ok_def quiet_def store_frame_def dirty_ok_def)
  moreover have "page_image s1 q = page_image s q" if "q < sb_page_count (ps_meta s)" "page_image s q \<noteq> None" for q
    by (rule s1(7) [OF addressable_below [OF s(1) that(1)]]) (use that False in auto)
  ultimately show thesis using that [of "s1\<lparr>ps_meta := ?m\<rparr>"] s1(3) by (simp add: free_empty_def)
qed

lemma write_page_moves_on:
  assumes s: "store_ok s" "dirty_ok s" and b: "length buffer = ps_page_size s" "pid < sb_page_count (ps_meta s)"
  obtains s' where "write_page crc pid buffer s = (s', Ok ())" "moves_on s s'"
    "free_empty s' = free_empty s" "ps_meta s' = (ps_meta s)\<lparr>sb_generation := sb_generation (ps_meta s) + 1\<rparr>"
    "page_image s' pid = Some (stamped crc s pid buffer (sb_generation (ps_meta s) + 1))"
    "\<And>q. q < sb_page_count (ps_meta s) \<Longrightarrow> q \<noteq> pid \<Longrightarrow> page_image s q \<noteq> None \<Longrightarrow> page_image s' q = page_image s q"
proof -
  let ?g = "sb_generation (ps_meta s) + 1"
  let ?s = "s\<lparr>ps_meta := (ps_meta s)\<lparr>sb_generation := ?g\<rparr>\<rparr>"
  have so: "layout_ok ?s" "quiet ?s" "dirty_ok ?s" using s by (simp_all add: store_ok_def dirty_ok_def)
  have "length buffer = ps_page_size ?s" using b(1) by simp
  from write_page_raw_wrote [OF so(2) this so(1), of crc pid ?g] obtain s1 where
    s1: "write_page_raw crc pid buffer ?g ?s = (s1, Ok ())" "wrote ?s pid (stamped crc ?s pid buffer ?g) s1" by blast
  note w = wroteD [OF s1(2) so(1)]
  have ad: "addressable ?s q" if "q < sb_page_count (ps_meta s)" for q using addressable_below [OF s(1) that] by simp
  have m: "ps_meta s1 = (ps_meta s)\<lparr>sb_generation := ?g\<rparr>" using w(2) by simp
  have "moves_on s s1"
    using s w s1(2) so m by (auto simp: moves_on_def store_ok_def store_frame_def wrote_def)
  moreover have "page_image s1 pid = Some (stamped crc s pid buffer ?g)" using w(7) [OF ad [OF b(2)]] by simp
  moreover have "page_image s1 q = page_image s q" if "q < sb_page_count (ps_meta s)" "q \<noteq> pid" "page_image s q \<noteq> None" for q
    using w(8) [OF ad [OF b(2)] ad [OF that(1)] that(2)] that(3) by auto
  ultimately show thesis using that [of s1] s1(1) m by (simp add: write_page_def free_empty_def Let_def)
qed

lemma detach_moves_on:
  assumes s: "store_ok s" "dirty_ok s" and v: "validate_free_list_metadata (ps_meta s) = Ok ()"
  obtains s' n where "detach_free_list_for_recovery crc s = (s', Ok n)" "moves_on s s'" "free_empty s'"
    "\<And>q. q \<noteq> 0 \<Longrightarrow> q < sb_page_count (ps_meta s) \<Longrightarrow> page_image s q \<noteq> None \<Longrightarrow> page_image s' q = page_image s q"
proof (cases "sb_free_list_head (ps_meta s) = 0 \<and> sb_free_page_count (ps_meta s) = 0")
  case True
  with that [of s 0] s v show thesis by (simp add: detach_free_list_for_recovery_def moves_on_def m_return_def free_empty_def)
next
  case False
  let ?m = "(ps_meta s)\<lparr>sb_free_list_head := 0, sb_free_page_count := 0, sb_generation := sat_succ (sb_generation (ps_meta s))\<rparr>"
  have so: "layout_ok (s\<lparr>ps_meta := ?m\<rparr>)" "quiet (s\<lparr>ps_meta := ?m\<rparr>)" "dirty_ok (s\<lparr>ps_meta := ?m\<rparr>)"
    using s by (simp_all add: store_ok_def dirty_ok_def)
  obtain s2 s3 where s3: "write_superblock_meta crc ?m (s\<lparr>ps_meta := ?m\<rparr>) = (s2, Ok ())"
      "store_sync s2 = (s3, Ok ())" "published (s\<lparr>ps_meta := ?m\<rparr>) s3"
    by (rule publish_superblock [OF so, of crc ?m]) blast
  have "detach_free_list_for_recovery crc s = (s3, Ok (sb_free_page_count (ps_meta s)))"
    using v s3 False by (auto simp: detach_free_list_for_recovery_def m_then_def m_bind_Ok m_return_def Let_def)
  moreover have "moves_on s s3"
    using s3(3) s by (auto simp: published_def moves_on_def store_ok_def store_frame_def)
  moreover have "page_image s3 q = page_image s q" if "q \<noteq> 0" "q < sb_page_count (ps_meta s)" "page_image s q \<noteq> None" for q
    using s3(3) that addressable_below [OF s(1) that(2)] by (simp add: published_def)
  moreover have "free_empty s3" using s3(3) by (simp add: published_def free_empty_def)
  ultimately show thesis using that by blast
qed

lemma flush_moves_on:
  assumes s: "store_ok s" "dirty_ok s"
  obtains s' where "store_flush crc s = (s', Ok ())" "moves_on s s'" "ps_meta s' = ps_meta s"
    "\<And>q. q \<noteq> 0 \<Longrightarrow> q < sb_page_count (ps_meta s) \<Longrightarrow> page_image s q \<noteq> None \<Longrightarrow> page_image s' q = page_image s q"
proof -
  have so: "layout_ok s" "quiet s" using s by (simp_all add: store_ok_def)
  obtain s2 s3 where s3: "write_superblock_meta crc (ps_meta s) s = (s2, Ok ())" "store_sync s2 = (s3, Ok ())" "published s s3"
    by (rule publish_superblock [OF so s(2), of crc "ps_meta s"]) blast
  have "store_flush crc s = (s3, Ok ())"
    using s3 by (simp add: store_flush_def write_superblock_def m_then_def m_bind_Ok)
  moreover have "moves_on s s3" "ps_meta s3 = ps_meta s"
    using s3(3) s by (auto simp: published_def moves_on_def store_ok_def store_frame_def)
  moreover have "page_image s3 q = page_image s q" if "q \<noteq> 0" "q < sb_page_count (ps_meta s)" "page_image s q \<noteq> None" for q
    using s3(3) that addressable_below [OF s(1) that(2)] by (simp add: published_def)
  ultimately show thesis using that by blast
qed

lemma moves_on_trans: "moves_on s t \<Longrightarrow> moves_on t u \<Longrightarrow> moves_on s u"
  by (auto simp: moves_on_def)

end
