(* ===== verification/Wal.thy ===== *)
theory Wal
  imports Effects Page_Error Recovered
begin

text \<open>
  The write-ahead log of \<open>crates/bicdb-page/src/wal.rs\<close>: the record format, the index of
  committed transactions, appending with segment sealing, synchronisation, the streaming scan,
  truncation of a torn tail and the reset after a checkpoint. The log is its files: the active
  file and the sealed segments, each a list of bytes. A failing write of an append and a failing
  sync are arguments of the operations; other failures of the operating system, timestamps and
  metrics are not modelled. File lengths and counters of a scan are natural numbers.
\<close>

section \<open>Records\<close>

type_synonym lsn = u64

datatype record_kind = PageImage | Commit | Checkpoint | Abort

definition RECORD_MAGIC :: bytes where
  "RECORD_MAGIC = [66, 87, 65, 76]"

abbreviation (input) RECORD_HEADER_BYTES :: nat where "RECORD_HEADER_BYTES \<equiv> 24"
abbreviation (input) RECORD_FIXED_BODY_BYTES :: nat where "RECORD_FIXED_BODY_BYTES \<equiv> 16"
abbreviation (input) MAX_WAL_RECORD_BYTES :: nat where "MAX_WAL_RECORD_BYTES \<equiv> 24 + 16 + 1048576"

fun record_kind_u8 :: "record_kind \<Rightarrow> byte" where
  "record_kind_u8 PageImage = 1"
| "record_kind_u8 Commit = 2"
| "record_kind_u8 Checkpoint = 3"
| "record_kind_u8 Abort = 4"

definition record_kind_from_u8 :: "byte \<Rightarrow> record_kind option" where
  "record_kind_from_u8 value =
     (if value = 1 then Some PageImage else if value = 2 then Some Commit
      else if value = 3 then Some Checkpoint else if value = 4 then Some Abort else None)"

record wal_record =
  wr_lsn :: lsn
  wr_kind :: record_kind
  wr_page_id :: page_id
  wr_transaction :: u64
  wr_payload :: bytes

record wal_scan_report =
  sr_records :: nat
  sr_valid_bytes :: nat
  sr_truncated_bytes :: nat
  sr_peak_record_bytes :: nat
  sr_last_lsn :: "lsn option"

definition scan_report_default :: wal_scan_report where
  "scan_report_default = \<lparr> sr_records = 0, sr_valid_bytes = 0, sr_truncated_bytes = 0,
     sr_peak_record_bytes = 0, sr_last_lsn = None \<rparr>"

section \<open>The index of committed transactions\<close>

type_synonym committed_ranges = "(u64 \<times> u64) list"

abbreviation (input) MAX_COMMITTED_RANGES :: nat where "MAX_COMMITTED_RANGES \<equiv> 4096"

definition range_cmp :: "u64 \<Rightarrow> u64 \<times> u64 \<Rightarrow> cmp" where
  "range_cmp x r = (if x < fst r then Greater else if x > snd r then Less else Equal)"

definition ranges_contains :: "committed_ranges \<Rightarrow> u64 \<Rightarrow> bool" where
  "ranges_contains ranges x =
     (case binary_search_by (range_cmp x) ranges of Inr _ \<Rightarrow> True | Inl _ \<Rightarrow> False)"

definition checked_succ :: "u64 \<Rightarrow> u64 option" where
  "checked_succ x = (if x = - 1 then None else Some (x + 1))"

definition ranges_insert :: "committed_ranges \<Rightarrow> u64 \<Rightarrow> committed_ranges \<times> bool" where
  "ranges_insert ranges x =
     (if ranges_contains ranges x then (ranges, True)
      else let position = partition_point (\<lambda>r. snd r < x) ranges;
               merge_previous = (position > 0 \<and> checked_succ (snd (ranges ! (position - 1))) = Some x);
               merge_next = (position < length ranges \<and> checked_succ x = Some (fst (ranges ! position)))
           in if merge_previous \<and> merge_next
              then let joined = ranges[position - 1 := (fst (ranges ! (position - 1)), snd (ranges ! position))]
                   in (take position joined @ drop (position + 1) joined, True)
              else if merge_previous
              then (ranges[position - 1 := (fst (ranges ! (position - 1)), x)], True)
              else if merge_next
              then (ranges[position := (x, snd (ranges ! position))], True)
              else if length ranges < MAX_COMMITTED_RANGES
              then (take position ranges @ (x, x) # drop position ranges, True)
              else (ranges, False))"

section \<open>The log\<close>

text \<open>
  The sealed segments are kept with their names, the LSN of their first record, in the order of
  the list \<open>sealed\<close> of the code, and with the bytes of their files.
\<close>

record wal =
  w_active :: bytes
  w_segment_bytes :: u64
  w_sealed :: "(lsn \<times> bytes) list"
  w_active_first_lsn :: lsn
  w_archived_through :: u64
  w_archive_retention :: bool
  w_sealed_bytes :: u64
  w_next_lsn :: lsn
  w_end_offset :: u64
  w_durable_lsn :: lsn
  w_fsync :: bool
  w_redo_lsn :: lsn
  w_committed :: committed_ranges

type_synonym 'a wal_m = "(wal, page_error, 'a) sm"

text \<open>Opening: the files found on disk, the sealed ones sorted by their names.\<close>

definition open_with_segments_and_floor ::
  "bool \<Rightarrow> u64 \<Rightarrow> lsn \<Rightarrow> bytes \<Rightarrow> (lsn \<times> bytes) list \<Rightarrow> wal" where
  "open_with_segments_and_floor fsync segment_bytes lsn_floor active_file segment_files =
     (let sealed = sort_key fst segment_files; initial_lsn = max lsn_floor 1
      in \<lparr> w_active = active_file, w_segment_bytes = segment_bytes, w_sealed = sealed,
           w_active_first_lsn = initial_lsn, w_archived_through = 0, w_archive_retention = False,
           w_sealed_bytes = foldl (\<lambda>total s. sat_add total (of_nat (length (snd s)))) 0 segment_files,
           w_next_lsn = initial_lsn, w_end_offset = of_nat (length active_file), w_durable_lsn = 0,
           w_fsync = fsync, w_redo_lsn = 0, w_committed = [] \<rparr>)"

definition seal_active_locked :: "u64 \<Rightarrow> wal \<Rightarrow> wal" where
  "seal_active_locked active_bytes w =
     w\<lparr>w_active := [], w_active_first_lsn := w_next_lsn w,
       w_sealed := w_sealed w @ [(w_active_first_lsn w, w_active w)],
       w_sealed_bytes := w_sealed_bytes w + active_bytes, w_end_offset := 0\<rparr>"

definition seal_active :: "unit wal_m" where
  "seal_active w =
     (if w_segment_bytes w = 0 then (w, Err InvalidMaintenanceLimits)
      else if w_end_offset w = 0 then (w, Ok ())
      else (seal_active_locked (w_end_offset w) w, Ok ()))"

definition record_header :: "lsn \<Rightarrow> record_kind \<Rightarrow> bytes \<Rightarrow> bytes" where
  "record_header lsn kind body =
     RECORD_MAGIC @ le64 lsn @ [record_kind_u8 kind] @ replicate 3 0 @ le32 (of_nat (length body))"

definition record_buffer :: "(bytes \<Rightarrow> u32) \<Rightarrow> lsn \<Rightarrow> record_kind \<Rightarrow> bytes \<Rightarrow> bytes" where
  "record_buffer crc lsn kind body =
     record_header lsn kind body @ le32 (crc (record_header lsn kind body @ body)) @ body"

text \<open>
  The argument \<open>fault\<close> is \<open>None\<close> when the operating system writes the record, and
  \<open>Some k\<close> when \<open>write_all\<close> fails after \<open>k\<close> bytes.
\<close>

definition wal_append ::
  "(bytes \<Rightarrow> u32) \<Rightarrow> nat option \<Rightarrow> record_kind \<Rightarrow> page_id \<Rightarrow> u64 \<Rightarrow> bytes \<Rightarrow> lsn wal_m" where
  "wal_append crc fault kind page_id transaction payload w =
     (let body = le64 page_id @ le64 transaction @ payload;
          active = w_end_offset w;
          record_bytes = of_nat (RECORD_HEADER_BYTES + length body);
          w = (if w_segment_bytes w > 0 \<and> active > 0 \<and> sat_add active record_bytes > w_segment_bytes w
               then seal_active_locked active w else w);
          lsn = w_next_lsn w;
          w = w\<lparr>w_next_lsn := lsn + 1\<rparr>;
          buffer = record_buffer crc lsn kind body
      in case fault of
           None \<Rightarrow> (w\<lparr>w_active := w_active w @ buffer,
                       w_end_offset := w_end_offset w + of_nat (length buffer)\<rparr>, Ok lsn)
         | Some written \<Rightarrow> (w\<lparr>w_active := w_active w @ take written buffer\<rparr>, Err Io))"

definition log_page_image ::
  "(bytes \<Rightarrow> u32) \<Rightarrow> nat option \<Rightarrow> page_id \<Rightarrow> u64 \<Rightarrow> bytes \<Rightarrow> lsn wal_m" where
  "log_page_image crc fault page_id transaction after_image =
     wal_append crc fault PageImage page_id transaction after_image"

text \<open>
  Synchronisation as one thread sees it; the sharing of a sync among threads is the subject of
  the theory \<open>Wal_Sync\<close>. The loop may run forever, which is the value \<open>None\<close>.
\<close>

partial_function (option) sync_through :: "bool \<Rightarrow> lsn \<Rightarrow> wal \<Rightarrow> (wal \<times> unit res) option" where
  "sync_through sync_ok lsn w =
     (if w_durable_lsn w \<ge> lsn then Some (w, Ok ())
      else if \<not> sync_ok then Some (w, Err Io)
      else sync_through sync_ok lsn
             (w\<lparr>w_durable_lsn := max (w_durable_lsn w) (sat_sub (w_next_lsn w) 1)\<rparr>))"

definition wal_sync :: "bool \<Rightarrow> wal \<Rightarrow> (wal \<times> unit res) option" where
  "wal_sync sync_ok w = sync_through sync_ok (sat_sub (w_next_lsn w) 1) w"

text \<open>Appending a record and making the log durable through it.\<close>

definition append_synced ::
  "(bytes \<Rightarrow> u32) \<Rightarrow> nat option \<Rightarrow> bool \<Rightarrow> record_kind \<Rightarrow> page_id \<Rightarrow> u64 \<Rightarrow> wal \<Rightarrow> (wal \<times> lsn res) option" where
  "append_synced crc fault sync_ok kind page_id transaction w =
     (case wal_append crc fault kind page_id transaction [] w of
        (w, Ok lsn) \<Rightarrow> map_option (\<lambda>(w, r). (w, rmap (\<lambda>_. lsn) r)) (sync_through sync_ok lsn w)
      | (w, Err e) \<Rightarrow> Some (w, Err e)
      | (w, Panic) \<Rightarrow> Some (w, Panic))"

definition wal_commit ::
  "(bytes \<Rightarrow> u32) \<Rightarrow> nat option \<Rightarrow> bool \<Rightarrow> u64 \<Rightarrow> wal \<Rightarrow> (wal \<times> lsn res) option" where
  "wal_commit crc fault sync_ok transaction w =
     (let (ranges, inserted) = ranges_insert (w_committed w) transaction; w = w\<lparr>w_committed := ranges\<rparr>
      in if \<not> inserted then Some (w, Err InvalidMaintenanceLimits)
         else append_synced crc fault sync_ok Commit 0 transaction w)"

definition wal_abort :: "(bytes \<Rightarrow> u32) \<Rightarrow> nat option \<Rightarrow> u64 \<Rightarrow> lsn wal_m" where
  "wal_abort crc fault transaction w =
     (if ranges_contains (w_committed w) transaction then (w, Ok (sat_sub (w_next_lsn w) 1))
      else wal_append crc fault Abort 0 transaction [] w)"

definition wal_checkpoint ::
  "(bytes \<Rightarrow> u32) \<Rightarrow> nat option \<Rightarrow> bool \<Rightarrow> lsn \<Rightarrow> page_id \<Rightarrow> wal \<Rightarrow> (wal \<times> lsn res) option" where
  "wal_checkpoint crc fault sync_ok redo_lsn root_page w =
     map_option (\<lambda>(w, r). (if is_ok r then w\<lparr>w_redo_lsn := redo_lsn\<rparr> else w, r))
       (append_synced crc fault sync_ok Checkpoint root_page redo_lsn w)"

section \<open>Scanning\<close>

text \<open>
  One turn of the scan: the record at the front of the remaining bytes and its length, or
  \<open>None\<close> where the loop ends.
\<close>

definition decode_record ::
  "(bytes \<Rightarrow> u32) \<Rightarrow> nat \<Rightarrow> lsn option \<Rightarrow> bytes \<Rightarrow> (wal_record \<times> nat) option" where
  "decode_record crc max_body_bytes expected_lsn rest =
     (if length rest < RECORD_HEADER_BYTES then None
      else if slice_of rest 0 4 \<noteq> RECORD_MAGIC \<or> slice_of rest 13 3 \<noteq> replicate 3 0 then None
      else case record_kind_from_u8 (rest ! 12) of
        None \<Rightarrow> None
      | Some kind \<Rightarrow>
          let lsn = rd64 rest 4; body_len = unat (rd32 rest 16);
              checksum = rd32 rest 20; record_bytes = RECORD_HEADER_BYTES + body_len
          in if body_len < RECORD_FIXED_BODY_BYTES \<or> body_len > max_body_bytes \<or>
                record_bytes > length rest \<or> lsn = - 1 \<or>
                (case expected_lsn of None \<Rightarrow> False | Some e \<Rightarrow> lsn \<noteq> e)
             then None
             else let body = slice_of rest 24 body_len
                  in if crc (slice_of rest 0 20 @ body) \<noteq> checksum then None
                     else Some (\<lparr> wr_lsn = lsn, wr_kind = kind, wr_page_id = rd64 body 0,
                                  wr_transaction = rd64 body 8, wr_payload = drop 16 body \<rparr>, record_bytes))"

lemma decode_record_size:
  "decode_record crc mb e rest = Some (r, n) \<Longrightarrow> 0 < n \<and> n \<le> length rest"
  by (auto simp: decode_record_def Let_def split: if_splits option.splits)

text \<open>
  The state of a scan: the expected LSN, the report and the state of the visitor. A scan of one
  file returns the length of its valid prefix and its first LSN.
\<close>

type_synonym 'v scan_state = "lsn option \<times> wal_scan_report \<times> 'v"
type_synonym 'v visitor = "wal_record \<Rightarrow> ('v, page_error, unit) sm"

definition note_record :: "wal_record \<Rightarrow> nat \<Rightarrow> wal_scan_report \<Rightarrow> wal_scan_report" where
  "note_record r record_bytes scan =
     scan\<lparr>sr_records := sr_records scan + 1, sr_valid_bytes := sr_valid_bytes scan + record_bytes,
          sr_peak_record_bytes := max (sr_peak_record_bytes scan) record_bytes,
          sr_last_lsn := Some (wr_lsn r)\<rparr>"

function scan_wal_file ::
  "(bytes \<Rightarrow> u32) \<Rightarrow> nat \<Rightarrow> 'v visitor \<Rightarrow> bytes \<Rightarrow> nat \<Rightarrow> lsn option \<Rightarrow> 'v scan_state \<Rightarrow>
     'v scan_state \<times> (nat \<times> lsn option) res" where
  "scan_wal_file crc max_body_bytes visit rest valid_bytes first_lsn (expected_lsn, scan, v) =
     (case decode_record crc max_body_bytes expected_lsn rest of
        None \<Rightarrow> ((expected_lsn, scan, v), Ok (valid_bytes, first_lsn))
      | Some (r, record_bytes) \<Rightarrow>
          (case visit r v of
             (v, Ok _) \<Rightarrow>
               scan_wal_file crc max_body_bytes visit (drop record_bytes rest) (valid_bytes + record_bytes)
                 (case first_lsn of None \<Rightarrow> Some (wr_lsn r) | Some l \<Rightarrow> Some l)
                 (Some (wr_lsn r + 1), note_record r record_bytes scan, v)
           | (v, Err e) \<Rightarrow> ((expected_lsn, scan, v), Err e)
           | (v, Panic) \<Rightarrow> ((expected_lsn, scan, v), Panic)))"
  by pat_completeness auto
termination
  by (relation "measure (\<lambda>(_, _, _, rest, _, _, _). length rest)")
     (auto dest!: decode_record_size [OF sym] decode_record_size)

declare scan_wal_file.simps [simp del]

text \<open>The sealed segments, each of which must decode to its end.\<close>

fun scan_sealed ::
  "(bytes \<Rightarrow> u32) \<Rightarrow> nat \<Rightarrow> 'v visitor \<Rightarrow> (lsn \<times> bytes) list \<Rightarrow> ('v scan_state, page_error, unit) sm" where
  "scan_sealed crc max_body_bytes visit [] st = (st, Ok ())"
| "scan_sealed crc max_body_bytes visit ((_, file) # segments) st =
     m_bind (scan_wal_file crc max_body_bytes visit file 0 None) (\<lambda>(valid, _).
       m_bind m_get (\<lambda>(_, scan, _).
         if valid \<noteq> length file
         then m_err (WalCorruption (case sr_last_lsn scan of None \<Rightarrow> 0 | Some l \<Rightarrow> l))
         else scan_sealed crc max_body_bytes visit segments)) st"

definition scan_records ::
  "(bytes \<Rightarrow> u32) \<Rightarrow> nat \<Rightarrow> bool \<Rightarrow> 'v visitor \<Rightarrow> 'v \<Rightarrow> wal \<Rightarrow> wal \<times> 'v \<times> wal_scan_report res" where
  "scan_records crc max_body_bytes truncate_torn_tail visit v w =
     (let max_body_bytes = min max_body_bytes (MAX_WAL_RECORD_BYTES - RECORD_HEADER_BYTES)
      in case m_then (scan_sealed crc max_body_bytes visit (w_sealed w))
                (scan_wal_file crc max_body_bytes visit (w_active w) 0 None) (None, scan_report_default, v) of
           ((_, scan, v), Ok (active_valid, active_first_lsn)) \<Rightarrow>
             let scan = scan\<lparr>sr_truncated_bytes := length (w_active w) - active_valid\<rparr>;
                 next_lsn = (case sr_last_lsn scan of
                               None \<Rightarrow> max (w_next_lsn w) 1 | Some l \<Rightarrow> max (l + 1) (w_next_lsn w));
                 w = (if truncate_torn_tail
                      then w\<lparr>w_active := take active_valid (w_active w), w_end_offset := of_nat active_valid,
                             w_next_lsn := next_lsn,
                             w_active_first_lsn := (case active_first_lsn of None \<Rightarrow> next_lsn | Some l \<Rightarrow> l)\<rparr>
                      else w)
             in (w, v, Ok scan)
         | ((_, _, v), Err e) \<Rightarrow> (w, v, Err e)
         | ((_, _, v), Panic) \<Rightarrow> (w, v, Panic))"

definition read_all :: "(bytes \<Rightarrow> u32) \<Rightarrow> wal \<Rightarrow> (wal_record list \<times> nat) res" where
  "read_all crc w =
     (case scan_records crc (MAX_WAL_RECORD_BYTES - RECORD_HEADER_BYTES) False
             (\<lambda>r records. (records @ [r], Ok ())) [] w of
        (_, records, Ok scan) \<Rightarrow> Ok (records, sr_truncated_bytes scan)
      | (_, _, Err e) \<Rightarrow> Err e
      | (_, _, Panic) \<Rightarrow> Panic)"

definition verify_integrity :: "(bytes \<Rightarrow> u32) \<Rightarrow> wal \<Rightarrow> nat res" where
  "verify_integrity crc w =
     (case scan_records crc (MAX_WAL_RECORD_BYTES - RECORD_HEADER_BYTES) False (\<lambda>_ v. (v, Ok ())) () w of
        (_, _, Ok scan) \<Rightarrow> Ok (sr_truncated_bytes scan)
      | (_, _, Err e) \<Rightarrow> Err e
      | (_, _, Panic) \<Rightarrow> Panic)"

definition truncate_torn_tail :: "(bytes \<Rightarrow> u32) \<Rightarrow> nat wal_m" where
  "truncate_torn_tail crc w =
     (case scan_records crc (MAX_WAL_RECORD_BYTES - RECORD_HEADER_BYTES) True (\<lambda>_ v. (v, Ok ())) () w of
        (w, _, r) \<Rightarrow> (w, rmap sr_truncated_bytes r))"

definition transaction_outcomes :: "(bytes \<Rightarrow> u32) \<Rightarrow> wal \<Rightarrow> (u64 \<times> tx_status) list res" where
  "transaction_outcomes crc w =
     (case scan_records crc (MAX_WAL_RECORD_BYTES - RECORD_HEADER_BYTES) False
             (\<lambda>r outcomes.
                (case wr_kind r of
                   Commit \<Rightarrow> outcomes @ [(wr_transaction r, Committed)]
                 | Abort \<Rightarrow> outcomes @ [(wr_transaction r, Aborted)]
                 | _ \<Rightarrow> outcomes, Ok ())) [] w of
        (_, outcomes, r) \<Rightarrow> rmap (\<lambda>_. outcomes) r)"

definition range_visitor :: "u64 \<Rightarrow> u64 \<Rightarrow> (u64, tx_status) btree_map visitor" where
  "range_visitor start_xid end_xid r outcomes =
     (case wr_kind r of
        Commit \<Rightarrow> if wr_transaction r < start_xid \<or> wr_transaction r \<ge> end_xid then (outcomes, Ok ())
                  else (bt_insert (wr_transaction r) Committed outcomes,
                        if bt_get outcomes (wr_transaction r) = Some Aborted then Err (WalCorruption (wr_lsn r)) else Ok ())
      | Abort \<Rightarrow> if wr_transaction r < start_xid \<or> wr_transaction r \<ge> end_xid then (outcomes, Ok ())
                 else (bt_insert (wr_transaction r) Aborted outcomes,
                       if bt_get outcomes (wr_transaction r) = Some Committed then Err (WalCorruption (wr_lsn r)) else Ok ())
      | _ \<Rightarrow> (outcomes, Ok ()))"

definition terminal_outcomes_in_range ::
  "(bytes \<Rightarrow> u32) \<Rightarrow> u64 \<Rightarrow> u64 \<Rightarrow> wal \<Rightarrow> ((u64 \<times> tx_status) list \<times> nat) res" where
  "terminal_outcomes_in_range crc start_xid end_xid w =
     (if start_xid \<ge> end_xid then Err InvalidMaintenanceLimits
      else case scan_records crc (MAX_WAL_RECORD_BYTES - RECORD_HEADER_BYTES) False
                  (range_visitor start_xid end_xid) [] w of
        (_, outcomes, r) \<Rightarrow> rmap (\<lambda>scan. (outcomes, sr_truncated_bytes scan)) r)"

section \<open>Reset\<close>

text \<open>
  The reset acts on the disk in this order: it seals the active file when an archive wants it,
  empties the active file, and removes the sealed segments one by one. \<open>reset_truncate\<close> is the
  state after the first two.
\<close>

definition reset_truncate :: "wal \<Rightarrow> wal" where
  "reset_truncate w =
     (let w = (if w_archive_retention w \<and> w_segment_bytes w > 0 \<and> w_end_offset w > 0
               then seal_active_locked (w_end_offset w) w else w)
      in w\<lparr>w_active := []\<rparr>)"

definition wal_reset :: "bool wal_m" where
  "wal_reset w =
     (let w = reset_truncate w;
          retained = filter (\<lambda>(sequence, _). w_archive_retention w \<and> sequence > w_archived_through w) (w_sealed w)
      in (w\<lparr>w_sealed := retained,
            w_sealed_bytes := foldl (\<lambda>total s. sat_add total (of_nat (length (snd s)))) 0 retained,
            w_end_offset := 0, w_active_first_lsn := w_next_lsn w,
            w_durable_lsn := sat_sub (w_next_lsn w) 1, w_committed := []\<rparr>, Ok (retained = [])))"

definition enable_archive_retention :: "wal \<Rightarrow> wal" where
  "enable_archive_retention w = w\<lparr>w_archive_retention := True\<rparr>"

definition mark_archived_through :: "u64 \<Rightarrow> wal \<Rightarrow> wal" where
  "mark_archived_through sequence w = w\<lparr>w_archived_through := max (w_archived_through w) sequence\<rparr>"

definition wal_size_bytes :: "wal \<Rightarrow> u64" where
  "wal_size_bytes w = sat_add (w_sealed_bytes w) (w_end_offset w)"

end
