(* ===== verification/Wal_Log.thy ===== *)
theory Wal_Log
  imports Wal
begin

text \<open>
  What the log holds: decoding inverts encoding, a scan visits the records that were appended,
  and the operations keep the log a run of consecutive records.
\<close>

section \<open>Encoding and decoding\<close>

definition record_body :: "wal_record \<Rightarrow> bytes" where
  "record_body r = le64 (wr_page_id r) @ le64 (wr_transaction r) @ wr_payload r"

definition record_bytes :: "(bytes \<Rightarrow> u32) \<Rightarrow> wal_record \<Rightarrow> bytes" where
  "record_bytes crc r = record_buffer crc (wr_lsn r) (wr_kind r) (record_body r)"

definition log_bytes :: "(bytes \<Rightarrow> u32) \<Rightarrow> wal_record list \<Rightarrow> bytes" where
  "log_bytes crc rs = concat (map (record_bytes crc) rs)"

definition record_ok :: "nat \<Rightarrow> wal_record \<Rightarrow> bool" where
  "record_ok mb r \<longleftrightarrow> 16 + length (wr_payload r) \<le> mb \<and> mb \<le> 16 + 1048576 \<and> wr_lsn r \<noteq> - 1"

lemma length_record_header [simp]: "length (record_header l k b) = 20"
  by (simp add: record_header_def RECORD_MAGIC_def)

lemma length_record_body [simp]: "length (record_body r) = 16 + length (wr_payload r)"
  by (simp add: record_body_def)

lemma length_record_bytes [simp]: "length (record_bytes crc r) = 40 + length (wr_payload r)"
  by (simp add: record_bytes_def record_buffer_def)

lemma record_kind_round_trip [simp]: "record_kind_from_u8 (record_kind_u8 k) = Some k"
  by (cases k) (simp_all add: record_kind_from_u8_def)

lemma slice_whole: "length b = n \<Longrightarrow> slice_of b 0 n = b"
  by auto

lemma body_length_u32:
  assumes "record_ok mb r"
  shows "unat (of_nat (length (record_body r)) :: u32) = length (record_body r)"
proof -
  have "length (record_body r) < 2 ^ 32" using assms by (simp add: record_ok_def)
  then show ?thesis by (simp add: unat_of_nat del: length_record_body)
qed

lemma header_fields:
  "slice_of (record_header l k b) 0 4 = RECORD_MAGIC" "slice_of (record_header l k b) 13 3 = replicate 3 0"
  "record_header l k b ! 12 = record_kind_u8 k" "rd64 (record_header l k b) 4 = l"
  "rd32 (record_header l k b) 16 = of_nat (length b)"
  by (simp_all add: record_header_def RECORD_MAGIC_def slice_append_left slice_append_right nth_append rd64_def rd32_def
      slice_of_def numeral_eq_Suc)

lemma decode_record_encoded:
  assumes "record_ok mb r" "e = None \<or> e = Some (wr_lsn r)"
  shows "decode_record crc mb e (record_bytes crc r @ rest) = Some (r, 40 + length (wr_payload r))"
proof -
  let ?h = "record_header (wr_lsn r) (wr_kind r) (record_body r)" and ?b = "record_body r"
  let ?x = "record_bytes crc r @ rest"
  have x: "?x = ?h @ le32 (crc (?h @ ?b)) @ ?b @ rest" by (simp add: record_bytes_def record_buffer_def)
  have f: "slice_of ?x i n = slice_of ?h i n" if "i + n \<le> 20" for i n
    unfolding x by (rule slice_append_left) (simp add: that)
  have nth: "?x ! 12 = ?h ! 12" unfolding x by (simp add: nth_append)
  have c: "rd32 ?x 20 = crc (?h @ ?b)" unfolding x rd32_def by (simp add: slice_append_right slice_append_left slice_whole)
  have bd: "slice_of ?x 24 (length ?b) = ?b" unfolding x by (simp add: slice_append_right slice_append_left slice_whole)
  have l: "rd64 ?x 4 = wr_lsn r" "rd32 ?x 16 = of_nat (length ?b)"
    using header_fields(4,5) [of "wr_lsn r" "wr_kind r" ?b] f [of 4 8] f [of 16 4] by (simp_all add: rd64_def rd32_def)
  have n: "unat (of_nat (length ?b) :: u32) = length ?b"
    using assms(1) by (rule body_length_u32)
  have hh: "slice_of ?x 0 20 = ?h" using f [of 0 20] slice_all [of ?h] by simp
  have b: "rd64 ?b 0 = wr_page_id r" "rd64 ?b 8 = wr_transaction r" "drop 16 ?b = wr_payload r"
    by (simp_all add: record_body_def rd64_def slice_append_left slice_append_right slice_whole)
  have m: "slice_of ?x 0 4 = RECORD_MAGIC" "slice_of ?x 13 3 = replicate 3 0" "record_kind_from_u8 (?x ! 12) = Some (wr_kind r)"
    using f [of 0 4] f [of 13 3] nth header_fields by simp_all
  have len: "length ?x \<ge> 24" "24 + length ?b \<le> length ?x" by simp_all
  show ?thesis
    using assms(1) len
    unfolding decode_record_def m Let_def l n bd hh b c option.case
    by (use assms in \<open>auto simp: record_ok_def\<close>)
qed

lemma decode_record_torn:
  assumes "record_ok mb r" "k < length (record_bytes crc r)"
  shows "decode_record crc mb e (take k (record_bytes crc r)) = None"
proof (cases "k < 24")
  case False
  let ?h = "record_header (wr_lsn r) (wr_kind r) (record_body r)"
  have "slice_of (take k (record_bytes crc r)) 16 4 = slice_of ?h 16 4"
    using False by (simp add: record_bytes_def record_buffer_def slice_append_left)
  then have "rd32 (take k (record_bytes crc r)) 16 = of_nat (length (record_body r))"
    using header_fields(5) [of "wr_lsn r" "wr_kind r" "record_body r"] by (simp add: rd32_def)
  then show ?thesis
    using assms(2) False body_length_u32 [OF assms(1)] by (simp add: decode_record_def Let_def split: option.splits)
qed (simp add: decode_record_def)

section \<open>Scans\<close>

fun consecutive :: "lsn option \<Rightarrow> wal_record list \<Rightarrow> bool" where
  "consecutive e [] \<longleftrightarrow> True"
| "consecutive e (r # rs) \<longleftrightarrow> (e = None \<or> e = Some (wr_lsn r)) \<and> consecutive (Some (wr_lsn r + 1)) rs"

definition next_expected :: "lsn option \<Rightarrow> wal_record list \<Rightarrow> lsn option" where
  "next_expected e rs = (if rs = [] then e else Some (wr_lsn (last rs) + 1))"

fun visit_all :: "'v visitor \<Rightarrow> wal_record list \<Rightarrow> ('v, page_error, unit) sm" where
  "visit_all visit [] v = (v, Ok ())"
| "visit_all visit (r # rs) v = m_bind (visit r) (\<lambda>_. visit_all visit rs) v"

fun note_all :: "wal_record list \<Rightarrow> wal_scan_report \<Rightarrow> wal_scan_report" where
  "note_all [] scan = scan"
| "note_all (r # rs) scan = note_all rs (note_record r (40 + length (wr_payload r)) scan)"

definition first_of :: "lsn option \<Rightarrow> wal_record list \<Rightarrow> lsn option" where
  "first_of f rs = (case f of Some l \<Rightarrow> Some l | None \<Rightarrow> if rs = [] then None else Some (wr_lsn (hd rs)))"

lemma next_expected_simps [simp]:
  "next_expected e [] = e" "next_expected e (r # rs) = next_expected (Some (wr_lsn r + 1)) rs"
  "next_expected e (xs @ ys) = next_expected (next_expected e xs) ys"
  by (auto simp: next_expected_def)

lemma consecutive_append: "consecutive e (xs @ ys) \<longleftrightarrow> consecutive e xs \<and> consecutive (next_expected e xs) ys"
  by (induction xs arbitrary: e) auto

lemma log_bytes_simps [simp]:
  "log_bytes crc [] = []" "log_bytes crc (r # rs) = record_bytes crc r @ log_bytes crc rs"
  "log_bytes crc (xs @ ys) = log_bytes crc xs @ log_bytes crc ys"
  by (simp_all add: log_bytes_def)

lemma note_all_append: "note_all (xs @ ys) scan = note_all ys (note_all xs scan)"
  by (induction xs arbitrary: scan) simp_all

lemma note_all_fields:
  "sr_records (note_all rs scan) = sr_records scan + length rs"
  "sr_last_lsn (note_all rs scan) = (if rs = [] then sr_last_lsn scan else Some (wr_lsn (last rs)))"
  "sr_truncated_bytes (note_all rs scan) = sr_truncated_bytes scan"
  by (induction rs arbitrary: scan) (simp_all add: note_record_def)

lemma visit_all_append: "visit_all visit (xs @ ys) = m_then (visit_all visit xs) (visit_all visit ys)"
  by (induction xs)
     (auto simp: fun_eq_iff m_then_def m_bind_def split: prod.splits result.splits)

lemma first_of_Cons: "first_of (case f of None \<Rightarrow> Some (wr_lsn r) | Some l \<Rightarrow> Some l) rs = first_of f (r # rs)"
  by (simp add: first_of_def split: option.splits)

lemma scan_wal_file_run:
  assumes "\<And>r. r \<in> set rs \<Longrightarrow> record_ok mb r" "consecutive e rs" "visit_all visit rs v = (v', Ok ())"
  shows "scan_wal_file crc mb visit (log_bytes crc rs @ rest) n f (e, scan, v) =
    scan_wal_file crc mb visit rest (n + length (log_bytes crc rs)) (first_of f rs) (next_expected e rs, note_all rs scan, v')"
  using assms
proof (induction rs arbitrary: n f e scan v)
  case Nil
  then show ?case by (simp add: first_of_def split: option.splits)
next
  case (Cons r rs)
  have ok: "record_ok mb r" using Cons.prems(1) by simp
  have e: "e = None \<or> e = Some (wr_lsn r)" "consecutive (Some (wr_lsn r + 1)) rs" using Cons.prems(2) by simp_all
  obtain v1 where v1: "visit r v = (v1, Ok ())" "visit_all visit rs v1 = (v', Ok ())"
    using Cons.prems(3) by (auto simp: m_bind_def split: prod.splits result.splits)
  have "scan_wal_file crc mb visit (log_bytes crc (r # rs) @ rest) n f (e, scan, v) =
      scan_wal_file crc mb visit (log_bytes crc rs @ rest) (n + (40 + length (wr_payload r)))
        (case f of None \<Rightarrow> Some (wr_lsn r) | Some l \<Rightarrow> Some l)
        (Some (wr_lsn r + 1), note_record r (40 + length (wr_payload r)) scan, v1)"
    using decode_record_encoded [OF ok e(1), of crc "log_bytes crc rs @ rest"] v1(1)
    by (subst scan_wal_file.simps) simp
  also have "\<dots> = scan_wal_file crc mb visit rest (n + length (log_bytes crc (r # rs))) (first_of f (r # rs))
      (next_expected e (r # rs), note_all (r # rs) scan, v')"
    using Cons.IH [OF _ e(2) v1(2)] Cons.prems(1) by (simp add: first_of_Cons add.assoc)
  finally show ?case .
qed

lemma scan_wal_file_end:
  "decode_record crc mb e rest = None \<Longrightarrow> scan_wal_file crc mb visit rest n f (e, scan, v) = ((e, scan, v), Ok (n, f))"
  by (subst scan_wal_file.simps) simp

lemma decode_nil [simp]: "decode_record crc mb e [] = None"
  by (simp add: decode_record_def)

definition segment_files :: "(bytes \<Rightarrow> u32) \<Rightarrow> (lsn \<times> wal_record list) list \<Rightarrow> (lsn \<times> bytes) list" where
  "segment_files crc segs = map (\<lambda>(n, rs). (n, log_bytes crc rs)) segs"

lemma scan_sealed_run:
  assumes "\<And>r. r \<in> set (concat (map snd segs)) \<Longrightarrow> record_ok mb r" "consecutive e (concat (map snd segs))"
    "visit_all visit (concat (map snd segs)) v = (v', Ok ())"
  shows "scan_sealed crc mb visit (segment_files crc segs) (e, scan, v) =
    ((next_expected e (concat (map snd segs)), note_all (concat (map snd segs)) scan, v'), Ok ())"
  using assms
proof (induction segs arbitrary: e scan v)
  case (Cons seg segs)
  obtain nm rs where seg: "seg = (nm, rs)" by fastforce
  let ?rest = "concat (map snd segs)"
  have c: "consecutive e rs" "consecutive (next_expected e rs) ?rest"
    using Cons.prems(2) by (simp_all add: seg consecutive_append)
  obtain v1 where v1: "visit_all visit rs v = (v1, Ok ())" "visit_all visit ?rest v1 = (v', Ok ())"
    using Cons.prems(3) by (auto simp: seg visit_all_append m_then_def m_bind_def split: prod.splits result.splits)
  have "scan_wal_file crc mb visit (log_bytes crc rs) 0 None (e, scan, v) =
      ((next_expected e rs, note_all rs scan, v1), Ok (length (log_bytes crc rs), first_of None rs))"
    using scan_wal_file_run [OF _ c(1) v1(1), of mb crc "[]" 0 None scan] Cons.prems(1)
    by (simp add: seg scan_wal_file_end)
  moreover have "scan_sealed crc mb visit (segment_files crc segs) (next_expected e rs, note_all rs scan, v1) =
      ((next_expected (next_expected e rs) ?rest, note_all ?rest (note_all rs scan), v'), Ok ())"
    by (rule Cons.IH [OF _ c(2) v1(2)]) (use Cons.prems(1) in \<open>simp add: seg\<close>)
  ultimately show ?case by (simp add: seg segment_files_def m_bind_def m_get_def note_all_append)
qed (simp add: segment_files_def)

text \<open>A log whose files hold the given records, with bytes behind them that do not decode.\<close>

definition log_holds :: "(bytes \<Rightarrow> u32) \<Rightarrow> nat \<Rightarrow> wal \<Rightarrow> (lsn \<times> wal_record list) list \<Rightarrow> wal_record list \<Rightarrow> bytes \<Rightarrow> bool" where
  "log_holds crc mb w segs act tail \<longleftrightarrow>
     w_sealed w = segment_files crc segs \<and> w_active w = log_bytes crc act @ tail \<and> mb \<le> 16 + 1048576 \<and>
     consecutive None (concat (map snd segs) @ act) \<and> (\<forall>r \<in> set (concat (map snd segs) @ act). record_ok mb r) \<and>
     decode_record crc mb (next_expected None (concat (map snd segs) @ act)) tail = None"

lemma scan_records_run:
  assumes h: "log_holds crc mb w segs act tail" and v: "visit_all visit (concat (map snd segs) @ act) v = (v', Ok ())"
  shows "scan_records crc mb trunc visit v w =
    (let recs = concat (map snd segs) @ act;
         l = (if recs = [] then max (w_next_lsn w) 1 else max (wr_lsn (last recs) + 1) (w_next_lsn w))
     in (if trunc
         then w\<lparr>w_active := log_bytes crc act, w_end_offset := of_nat (length (log_bytes crc act)), w_next_lsn := l,
                w_active_first_lsn := (if act = [] then l else wr_lsn (hd act))\<rparr>
         else w,
         v', Ok ((note_all recs scan_report_default)\<lparr>sr_truncated_bytes := length tail\<rparr>)))"
proof -
  let ?s = "concat (map snd segs)"
  obtain v1 where v1: "visit_all visit ?s v = (v1, Ok ())" "visit_all visit act v1 = (v', Ok ())"
    using v by (auto simp: visit_all_append m_then_def m_bind_def split: prod.splits result.splits)
  have c: "consecutive None ?s" "consecutive (next_expected None ?s) act" and mb: "min mb 1048592 = mb"
    and ok: "\<And>r. r \<in> set ?s \<union> set act \<Longrightarrow> record_ok mb r"
    using h by (auto simp: log_holds_def consecutive_append)
  have s: "scan_sealed crc mb visit (w_sealed w) (None, scan_report_default, v) =
      ((next_expected None ?s, note_all ?s scan_report_default, v1), Ok ())"
    using scan_sealed_run [OF _ c(1) v1(1), of mb crc scan_report_default] ok h by (simp add: log_holds_def)
  have a: "scan_wal_file crc mb visit (w_active w) 0 None (next_expected None ?s, note_all ?s scan_report_default, v1) =
      ((next_expected None (?s @ act), note_all (?s @ act) scan_report_default, v'), Ok (length (log_bytes crc act), first_of None act))"
    using scan_wal_file_run [OF _ c(2) v1(2), of mb crc tail 0 None "note_all ?s scan_report_default"] ok h
    by (simp add: log_holds_def scan_wal_file_end note_all_append)
  show ?thesis
    using s a h mb
    by (simp add: scan_records_def m_then_def m_bind_def note_all_fields scan_report_default_def log_holds_def first_of_def Let_def)
qed

lemma visit_push: "visit_all (\<lambda>r records. (records @ [r], Ok ())) rs v = (v @ rs, Ok ())"
  by (induction rs arbitrary: v) (simp_all add: m_bind_def)

lemma read_all_holds:
  "log_holds crc (16 + 1048576) w segs act tail \<Longrightarrow> read_all crc w = Ok (concat (map snd segs) @ act, length tail)"
  using scan_records_run [of crc _ w segs act tail, OF _ visit_push, of _ False "[]"]
  by (simp add: read_all_def Let_def)

end
