(* ===== verification/Wal_Index.thy ===== *)
theory Wal_Index
  imports Wal
begin

text \<open>
  The index of committed transactions of \<open>wal.rs\<close> represents a set: sorted ranges with a gap
  between any two of them. \<open>contains\<close> is membership and \<open>insert\<close> adds one element, or refuses
  it when the number of ranges is at its bound.
\<close>

definition apart :: "u64 \<times> u64 \<Rightarrow> u64 \<times> u64 \<Rightarrow> bool" where
  "apart r r' \<longleftrightarrow> unat (snd r) + 1 < unat (fst r')"

definition ranges_inv :: "committed_ranges \<Rightarrow> bool" where
  "ranges_inv rs \<longleftrightarrow> sorted_wrt apart rs \<and> (\<forall>r \<in> set rs. fst r \<le> snd r)"

definition ranges_set :: "committed_ranges \<Rightarrow> u64 set" where
  "ranges_set rs = (\<Union>r \<in> set rs. {fst r..snd r})"

lemma ranges_set_simps [simp]:
  "ranges_set [] = {}" "ranges_set (r # rs) = {fst r..snd r} \<union> ranges_set rs"
  "ranges_set (xs @ ys) = ranges_set xs \<union> ranges_set ys"
  by (auto simp: ranges_set_def)

lemma apart_less:
  assumes "ranges_inv rs" "i < j" "j < length rs"
  shows "snd (rs ! i) < fst (rs ! j)" "fst (rs ! j) \<le> snd (rs ! j)" "fst (rs ! i) \<le> snd (rs ! i)"
  using assms by (auto simp: ranges_inv_def sorted_wrt_iff_nth_less apart_def word_less_nat_alt dest!: spec)

lemma ranges_ordered:
  assumes "ranges_inv rs"
  shows "ordered_for (range_cmp x) rs"
  unfolding ordered_for_def range_cmp_def
proof (intro allI impI)
  fix i j assume "i < j" "j < length rs"
  from apart_less [OF assms this]
  show "((if x < fst (rs ! j) then Greater else if x > snd (rs ! j) then Less else Equal) = Less \<longrightarrow>
      (if x < fst (rs ! i) then Greater else if x > snd (rs ! i) then Less else Equal) = Less) \<and>
    ((if x < fst (rs ! i) then Greater else if x > snd (rs ! i) then Less else Equal) = Greater \<longrightarrow>
      (if x < fst (rs ! j) then Greater else if x > snd (rs ! j) then Less else Equal) = Greater)"
    by (auto dest: order.strict_trans1 order.strict_trans2 less_trans split: if_splits)
qed

lemma ranges_contains_set:
  assumes "ranges_inv rs"
  shows "ranges_contains rs x \<longleftrightarrow> x \<in> ranges_set rs"
proof -
  note c = bsearch_contract [OF ranges_ordered [OF assms, of x], of "length rs" 0, simplified, folded binary_search_by_def]
  show ?thesis
  proof (cases "binary_search_by (range_cmp x) rs")
    case (Inl i)
    have "x < fst r \<or> snd r < x" if r: "r \<in> set rs" for r
    proof -
      obtain j where "j < length rs" "r = rs ! j" using r by (auto simp: in_set_conv_nth)
      then have "range_cmp x r \<noteq> Equal" using c Inl by (cases "j < i") auto
      then show ?thesis by (simp add: range_cmp_def split: if_splits)
    qed
    then have "x \<notin> ranges_set rs" unfolding ranges_set_def by fastforce
    then show ?thesis using Inl by (simp add: ranges_contains_def)
  next
    case (Inr i)
    with c have "i < length rs" "x \<in> {fst (rs ! i)..snd (rs ! i)}"
      by (auto simp: range_cmp_def not_less split: if_splits)
    then have "x \<in> ranges_set rs" unfolding ranges_set_def using nth_mem by blast
    then show ?thesis using Inr by (simp add: ranges_contains_def)
  qed
qed

lemma ranges_position:
  assumes inv: "ranges_inv rs" and x: "x \<notin> ranges_set rs"
  defines "p \<equiv> partition_point (\<lambda>r. snd r < x) rs"
  obtains as bs where "rs = as @ bs" "length as = p" "\<forall>r \<in> set as. snd r < x" "\<forall>r \<in> set bs. x < fst r"
proof -
  have "sorted_wrt (<) (map snd rs)"
    unfolding sorted_wrt_iff_nth_less
  proof (intro allI impI)
    fix i j assume "i < j" "j < length (map snd rs)"
    with apart_less [OF inv, of i j] show "map snd rs ! i < map snd rs ! j" by simp
  qed
  note pp = partition_point_key [OF this, where k = x, folded p_def]
  show thesis
  proof
    show "rs = take p rs @ drop p rs" by simp
    show "length (take p rs) = p" using pp(1) by simp
    show "\<forall>r \<in> set (take p rs). snd r < x"
    proof
      fix r assume "r \<in> set (take p rs)"
      then obtain j where "j < p" "r = rs ! j" by (auto simp: in_set_conv_nth)
      then show "snd r < x" using pp(2) by simp
    qed
    show "\<forall>r \<in> set (drop p rs). x < fst r"
    proof
      fix r assume r: "r \<in> set (drop p rs)"
      then obtain i where "i < length rs - p" "r = rs ! (p + i)" by (auto simp: in_set_conv_nth)
      then obtain j where j: "p \<le> j" "j < length rs" "r = rs ! j" by (intro that [of "p + i"]) simp_all
      then have "x \<le> snd r" using pp(3) by simp
      moreover have "x \<notin> {fst r..snd r}" using x in_set_dropD [OF r] by (auto simp: ranges_set_def)
      ultimately show "x < fst r" by (auto simp: not_le)
    qed
  qed
qed

lemma checked_succ_Some: "checked_succ x = Some y \<longleftrightarrow> unat y = unat x + 1"
proof (cases "x = - 1")
  case True
  then show ?thesis using unat_less_u64 [of y] by (auto simp: checked_succ_def unat_max_u64)
next
  case False
  then have "unat (x + 1) = unat x + 1" using sat_succ_less [OF word_order.not_eq_extremum [THEN iffD1, OF False]]
    by (simp add: sat_succ_def)
  then show ?thesis using False by (auto simp: checked_succ_def word_unat_eq_iff)
qed

text \<open>The four ways to insert, on the list split at the insertion point.\<close>

lemma ranges_insert_split:
  assumes "x \<notin> ranges_set rs" "ranges_inv rs" "rs = as @ bs" "length as = partition_point (\<lambda>r. snd r < x) rs"
  shows "ranges_insert rs x =
    (let prev = (as \<noteq> [] \<and> unat x = unat (snd (last as)) + 1);
         succ = (bs \<noteq> [] \<and> unat (fst (hd bs)) = unat x + 1)
     in if prev \<and> succ then (butlast as @ (fst (last as), snd (hd bs)) # tl bs, True)
        else if prev then (butlast as @ (fst (last as), x) # bs, True)
        else if succ then (as @ (x, snd (hd bs)) # tl bs, True)
        else if length rs < MAX_COMMITTED_RANGES then (as @ (x, x) # bs, True)
        else (rs, False))"
proof -
  have c: "\<not> ranges_contains rs x" using assms(1,2) ranges_contains_set by blast
  have p: "partition_point (\<lambda>r. snd r < x) (as @ bs) = length as" using assms(3,4) by simp
  have l: "as \<noteq> [] \<Longrightarrow> (as @ bs) ! (length as - Suc 0) = last as" by (simp add: nth_append last_conv_nth)
  have h: "bs \<noteq> [] \<Longrightarrow> (as @ bs) ! length as = hd bs" by (simp add: nth_append hd_conv_nth)
  have u: "as \<noteq> [] \<Longrightarrow> (as @ ys)[length as - Suc 0 := v] = butlast as @ v # ys" for v ys
    by (cases as rule: rev_cases) (simp_all add: list_update_append)
  have u': "bs \<noteq> [] \<Longrightarrow> (as @ bs)[length as := v] = as @ v # tl bs" for v
    by (cases bs) (simp_all add: list_update_append)
  have t: "as \<noteq> [] \<Longrightarrow> take (length as) (butlast as @ v # ys) = butlast as @ [v]" for v ys
    by (cases as rule: rev_cases) simp_all
  have d: "as \<noteq> [] \<Longrightarrow> drop (Suc (length as)) (butlast as @ v # ys) = tl ys" for v ys
    by (cases as rule: rev_cases) (simp_all add: drop_Suc)
  let ?prev = "as \<noteq> [] \<and> unat x = unat (snd (last as)) + 1" and ?succ = "bs \<noteq> [] \<and> unat (fst (hd bs)) = unat x + 1"
  have pr: "(0 < length as \<and> checked_succ (snd ((as @ bs) ! (length as - 1))) = Some x) = ?prev"
    using l by (cases "as = []") (simp_all add: checked_succ_Some)
  have su: "(length as < length (as @ bs) \<and> checked_succ x = Some (fst ((as @ bs) ! length as))) = ?succ"
    by (cases "bs = []") (simp_all add: h checked_succ_Some)
  have c': "ranges_contains (as @ bs) x = False" using c assms(3) by simp
  have tk: "take (length as) (as @ bs) = as" "drop (length as) (as @ bs) = bs" by simp_all
  define P S where "P = ?prev" and "S = ?succ"
  have as: "P \<Longrightarrow> as \<noteq> []" and bs: "S \<Longrightarrow> bs \<noteq> []" by (simp_all add: P_def S_def)
  show ?thesis
    unfolding assms(3) ranges_insert_def p Let_def pr su c' if_False P_def [symmetric] S_def [symmetric]
    using as bs by (cases P; cases S) (simp_all add: l h u u' t d tk del: take_append drop_append)
qed

lemma join_ranges:
  fixes a b c d x :: u64
  assumes "a \<le> b" "c \<le> d" "unat x = unat b + 1" "unat c = unat x + 1"
  shows "{a..d} = insert x ({a..b} \<union> {c..d})" "{a..x} = insert x {a..b}" "{x..d} = insert x {c..d}"
    "a \<le> d" "a \<le> x" "x \<le> d"
  using assms by (auto simp: word_le_nat_alt word_unat_eq_iff)

lemma ranges_insert_both:
  assumes "ranges_inv (as @ (a, b) # (c, d) # bs)" "unat x = unat b + 1" "unat c = unat x + 1"
  shows "ranges_inv (as @ (a, d) # bs) \<and> ranges_set (as @ (a, d) # bs) = insert x (ranges_set (as @ (a, b) # (c, d) # bs))"
proof -
  have "a \<le> b" "c \<le> d" using assms(1) by (simp_all add: ranges_inv_def)
  from join_ranges [OF this assms(2,3)] show ?thesis
    using assms(1) by (auto simp: ranges_inv_def sorted_wrt_append apart_def)
qed

lemma ranges_insert_prev:
  assumes "ranges_inv (as @ (a, b) # bs)" "unat x = unat b + 1" "\<forall>r \<in> set bs. x < fst r"
    "\<not> (bs \<noteq> [] \<and> unat (fst (hd bs)) = unat x + 1)"
  shows "ranges_inv (as @ (a, x) # bs) \<and> ranges_set (as @ (a, x) # bs) = insert x (ranges_set (as @ (a, b) # bs))"
proof -
  have ab: "a \<le> b" using assms(1) by (simp add: ranges_inv_def)
  then have "{a..x} = insert x {a..b}" "a \<le> x" using assms(2) by (auto simp: word_le_nat_alt word_unat_eq_iff)
  moreover have "apart (a, x) r" if "r \<in> set bs" for r
  proof (cases bs)
    case (Cons r' bs')
    have "unat x + 1 < unat (fst r')"
      using assms(3,4) Cons by (auto simp: word_less_nat_alt)
    moreover have "r = r' \<or> apart r' r" "fst r' \<le> snd r'"
      using assms(1) that Cons by (auto simp: ranges_inv_def sorted_wrt_append)
    ultimately show ?thesis by (auto simp: apart_def word_le_nat_alt)
  qed (use that in simp)
  ultimately show ?thesis using assms(1) by (auto simp: ranges_inv_def sorted_wrt_append apart_def)
qed

lemma ranges_insert_next:
  assumes "ranges_inv (as @ (c, d) # bs)" "unat c = unat x + 1" "\<forall>r \<in> set as. snd r < x"
    "\<not> (as \<noteq> [] \<and> unat x = unat (snd (last as)) + 1)"
  shows "ranges_inv (as @ (x, d) # bs) \<and> ranges_set (as @ (x, d) # bs) = insert x (ranges_set (as @ (c, d) # bs))"
proof -
  have cd: "c \<le> d" using assms(1) by (simp add: ranges_inv_def)
  then have "{x..d} = insert x {c..d}" "x \<le> d" using assms(2) by (auto simp: word_le_nat_alt word_unat_eq_iff)
  moreover have "apart r (x, d)" if "r \<in> set as" for r
  proof (cases as rule: rev_cases)
    case (snoc as' r')
    have "unat (snd r') + 1 < unat x"
      using assms(3,4) snoc by (auto simp: word_less_nat_alt)
    moreover have "r = r' \<or> apart r r'" "fst r' \<le> snd r'"
      using assms(1) that snoc by (auto simp: ranges_inv_def sorted_wrt_append)
    ultimately show ?thesis by (auto simp: apart_def word_le_nat_alt)
  qed (use that in simp)
  ultimately show ?thesis using assms(1) by (auto simp: ranges_inv_def sorted_wrt_append apart_def)
qed

lemma ranges_insert_new:
  assumes "ranges_inv (as @ bs)" "\<forall>r \<in> set as. snd r < x" "\<forall>r \<in> set bs. x < fst r"
    "\<not> (as \<noteq> [] \<and> unat x = unat (snd (last as)) + 1)" "\<not> (bs \<noteq> [] \<and> unat (fst (hd bs)) = unat x + 1)"
  shows "ranges_inv (as @ (x, x) # bs) \<and> ranges_set (as @ (x, x) # bs) = insert x (ranges_set (as @ bs))"
proof -
  have "apart r (x, x)" if "r \<in> set as" for r
  proof (cases as rule: rev_cases)
    case (snoc as' r')
    have "unat (snd r') + 1 < unat x" using assms(2,4) snoc by (auto simp: word_less_nat_alt)
    moreover have "r = r' \<or> apart r r'" "fst r' \<le> snd r'"
      using assms(1) that snoc by (auto simp: ranges_inv_def sorted_wrt_append)
    ultimately show ?thesis by (auto simp: apart_def word_le_nat_alt)
  qed (use that in simp)
  moreover have "apart (x, x) r" if "r \<in> set bs" for r
  proof (cases bs)
    case (Cons r' bs')
    have "unat x + 1 < unat (fst r')" using assms(3,5) Cons by (auto simp: word_less_nat_alt)
    moreover have "r = r' \<or> apart r' r" "fst r' \<le> snd r'"
      using assms(1) that Cons by (auto simp: ranges_inv_def sorted_wrt_append)
    ultimately show ?thesis by (auto simp: apart_def word_le_nat_alt)
  qed (use that in simp)
  ultimately show ?thesis using assms(1) by (auto simp: ranges_inv_def sorted_wrt_append)
qed

lemma ranges_insert_set:
  assumes inv: "ranges_inv rs" and x: "x \<notin> ranges_set rs" and r: "ranges_insert rs x = (rs', True)"
  shows "ranges_inv rs'" "ranges_set rs' = insert x (ranges_set rs)"
proof -
  obtain as bs where ab: "rs = as @ bs" "length as = partition_point (\<lambda>r. snd r < x) rs"
      "\<forall>r \<in> set as. snd r < x" "\<forall>r \<in> set bs. x < fst r"
    using ranges_position [OF inv x] by blast
  note e = ranges_insert_split [OF x inv ab(1,2)]
  let ?prev = "as \<noteq> [] \<and> unat x = unat (snd (last as)) + 1" and ?succ = "bs \<noteq> [] \<and> unat (fst (hd bs)) = unat x + 1"
  have "ranges_inv rs' \<and> ranges_set rs' = insert x (ranges_set rs)"
  proof (cases ?prev)
    case True
    then obtain as' a b where as: "as = as' @ [(a, b)]" by (cases as rule: rev_cases) auto
    show ?thesis
    proof (cases ?succ)
      case s: True
      then obtain c d bs' where bs: "bs = (c, d) # bs'" by (cases bs) auto
      have "rs' = as' @ (a, d) # bs'" using e r True s by (simp add: Let_def as bs)
      moreover have "ranges_inv (as' @ (a, b) # (c, d) # bs')" using inv ab(1) as bs by simp
      ultimately show ?thesis using ranges_insert_both [of as' a b c d bs' x] True s ab(1) as bs by simp
    next
      case False
      then have "rs' = as' @ (a, x) # bs" using e r True by (auto simp: Let_def as split: if_splits)
      moreover have "ranges_inv (as' @ (a, b) # bs)" using inv ab(1) as by simp
      ultimately show ?thesis using ranges_insert_prev [of as' a b bs x] True False ab(1,4) as by simp
    qed
  next
    case p: False
    show ?thesis
    proof (cases ?succ)
      case s: True
      then obtain c d bs' where bs: "bs = (c, d) # bs'" by (cases bs) auto
      have "rs' = as @ (x, d) # bs'" using e r p s by (auto simp: Let_def bs split: if_splits)
      then show ?thesis using ranges_insert_next [of as c d bs' x] p s ab(1,3) inv bs by simp
    next
      case False
      have "rs' = as @ (x, x) # bs" using e r p False by (simp add: Let_def split: if_splits)
      then show ?thesis using ranges_insert_new [of as bs x] p False ab inv by simp
    qed
  qed
  then show "ranges_inv rs'" "ranges_set rs' = insert x (ranges_set rs)" by simp_all
qed


lemma ranges_insert_result:
  assumes inv: "ranges_inv rs" and l: "length rs \<le> MAX_COMMITTED_RANGES" and r: "ranges_insert rs x = (rs', ok)"
  shows "ranges_inv rs'" "length rs' \<le> MAX_COMMITTED_RANGES"
    "ranges_set rs' = (if ok then insert x (ranges_set rs) else ranges_set rs)"
    "\<not> ok \<Longrightarrow> rs' = rs \<and> x \<notin> ranges_set rs \<and> length rs = MAX_COMMITTED_RANGES"
proof -
  have "ranges_inv rs' \<and> length rs' \<le> MAX_COMMITTED_RANGES \<and>
      ranges_set rs' = (if ok then insert x (ranges_set rs) else ranges_set rs) \<and>
      (\<not> ok \<longrightarrow> rs' = rs \<and> x \<notin> ranges_set rs \<and> length rs = MAX_COMMITTED_RANGES)"
  proof (cases "x \<in> ranges_set rs")
    case True
    then have "rs' = rs \<and> ok" using r ranges_contains_set [OF inv] by (simp add: ranges_insert_def)
    with True inv l show ?thesis by auto
  next
    case x: False
    obtain as bs where ab: "rs = as @ bs" "length as = partition_point (\<lambda>r. snd r < x) rs"
      using ranges_position [OF inv x] by blast
    note e = ranges_insert_split [OF x inv ab, unfolded r]
    show ?thesis
    proof (cases ok)
      case True
      have "length rs' \<le> MAX_COMMITTED_RANGES"
        using e True l ab(1) by (cases as rule: rev_cases) (auto simp: Let_def split: if_splits)
      then show ?thesis using ranges_insert_set [OF inv x] r True by simp
    next
      case False
      then show ?thesis using e inv l x by (auto simp: Let_def split: if_splits)
    qed
  qed
  then show "ranges_inv rs'" "length rs' \<le> MAX_COMMITTED_RANGES"
    "ranges_set rs' = (if ok then insert x (ranges_set rs) else ranges_set rs)"
    "\<not> ok \<Longrightarrow> rs' = rs \<and> x \<notin> ranges_set rs \<and> length rs = MAX_COMMITTED_RANGES" by blast+
qed

text \<open>A sequence of insertions, with the transactions that were accepted.\<close>

fun insert_all :: "committed_ranges \<Rightarrow> u64 list \<Rightarrow> committed_ranges \<times> u64 set" where
  "insert_all rs [] = (rs, {})"
| "insert_all rs (x # xs) =
     (let (rs', ok) = ranges_insert rs x; (rs'', accepted) = insert_all rs' xs
      in (rs'', if ok then insert x accepted else accepted))"

lemma insert_all_result:
  assumes "ranges_inv rs" "length rs \<le> MAX_COMMITTED_RANGES" "insert_all rs xs = (rs', accepted)"
  shows "ranges_inv rs' \<and> length rs' \<le> MAX_COMMITTED_RANGES \<and> ranges_set rs' = ranges_set rs \<union> accepted"
  using assms
proof (induction xs arbitrary: rs rs' accepted)
  case (Cons x xs)
  obtain rs1 ok where i: "ranges_insert rs x = (rs1, ok)" by fastforce
  obtain rs2 acc where a: "insert_all rs1 xs = (rs2, acc)" by fastforce
  note r = ranges_insert_result [OF Cons.prems(1,2) i]
  from Cons.IH [OF r(1,2) a] show ?case using Cons.prems(3) i a r(3) by auto
qed simp



end
