(* ===== verification/Wal_History.thy ===== *)
theory Wal_History
  imports Wal_Log Wal_Index
begin

text \<open>
  Histories of log operations: the log always holds the records that were appended, with
  consecutive LSNs and in order; a crash loses at most a tail of the active file; and a
  transaction that has a commit record never gets an abort record after it.
\<close>

section \<open>The invariant of the log\<close>

abbreviation (input) MAX_BODY :: nat where "MAX_BODY \<equiv> 16 + 1048576"

definition log_wf :: "(bytes \<Rightarrow> u32) \<Rightarrow> wal \<Rightarrow> wal_record list \<Rightarrow> bool" where
  "log_wf crc w recs \<longleftrightarrow>
     (\<exists>segs act. log_holds crc MAX_BODY w segs act [] \<and> recs = concat (map snd segs) @ act \<and>
        w_active_first_lsn w = (if act = [] then w_next_lsn w else wr_lsn (hd act)) \<and>
        sorted (map fst segs @ [w_active_first_lsn w, w_next_lsn w])) \<and>
     (recs \<noteq> [] \<longrightarrow> w_next_lsn w = wr_lsn (last recs) + 1) \<and>
     w_end_offset w = of_nat (length (w_active w)) \<and>
     ranges_inv (w_committed w) \<and> length (w_committed w) \<le> MAX_COMMITTED_RANGES"

lemma log_wfI:
  assumes "log_holds crc MAX_BODY w segs act []" "recs = concat (map snd segs) @ act"
    "w_active_first_lsn w = (if act = [] then w_next_lsn w else wr_lsn (hd act))"
    "sorted (map fst segs @ [w_active_first_lsn w, w_next_lsn w])"
    "recs \<noteq> [] \<Longrightarrow> w_next_lsn w = wr_lsn (last recs) + 1" "w_end_offset w = of_nat (length (w_active w))"
    "ranges_inv (w_committed w)" "length (w_committed w) \<le> MAX_COMMITTED_RANGES"
  shows "log_wf crc w recs"
  using assms unfolding log_wf_def by blast

lemma log_wfE:
  assumes "log_wf crc w recs"
  obtains segs act where "log_holds crc MAX_BODY w segs act []" "recs = concat (map snd segs) @ act"
    "w_active_first_lsn w = (if act = [] then w_next_lsn w else wr_lsn (hd act))"
    "sorted (map fst segs @ [w_active_first_lsn w, w_next_lsn w])"
    "recs \<noteq> [] \<Longrightarrow> w_next_lsn w = wr_lsn (last recs) + 1" "w_end_offset w = of_nat (length (w_active w))"
    "ranges_inv (w_committed w)" "length (w_committed w) \<le> MAX_COMMITTED_RANGES"
  using assms unfolding log_wf_def by blast

lemma log_wf_next: "log_wf crc w recs \<Longrightarrow> next_expected None recs = (if recs = [] then None else Some (w_next_lsn w))"
  by (simp add: log_wf_def next_expected_def)

lemma log_wf_read: "log_wf crc w recs \<Longrightarrow> read_all crc w = Ok (recs, 0)"
  using read_all_holds by (fastforce simp: log_wf_def)

lemma log_wf_consecutive: "log_wf crc w recs \<Longrightarrow> consecutive None recs"
  by (auto simp: log_wf_def log_holds_def)

lemma segment_files_append [simp]: "segment_files crc (xs @ ys) = segment_files crc xs @ segment_files crc ys"
  by (simp add: segment_files_def)

lemma append_holds:
  assumes h: "log_holds crc MAX_BODY w segs act []"
    and l: "next_expected None (concat (map snd segs) @ act) \<in> {None, Some (w_next_lsn w)}"
    and n: "w_next_lsn w \<noteq> - 1" "length payload \<le> 1048576"
    and r: "r = \<lparr> wr_lsn = w_next_lsn w, wr_kind = kind, wr_page_id = pid, wr_transaction = tx, wr_payload = payload \<rparr>"
    and a: "wal_append crc None kind pid tx payload w = (w', res)"
  obtains "res = Ok (w_next_lsn w)" "log_holds crc MAX_BODY w' segs (act @ [r]) []" "w_active_first_lsn w' = w_active_first_lsn w"
  | "res = Ok (w_next_lsn w)" "log_holds crc MAX_BODY w' (segs @ [(w_active_first_lsn w, act)]) [r] []"
    "w_active_first_lsn w' = w_next_lsn w"
proof -
  have rb: "record_buffer crc (w_next_lsn w) kind (le64 pid @ le64 tx @ payload) = record_bytes crc r"
    by (simp add: r record_bytes_def record_body_def)
  have ok: "record_ok MAX_BODY r" using n by (simp add: r record_ok_def)
  have c: "consecutive None ((concat (map snd segs) @ act) @ [r])"
    using h l by (auto simp: log_holds_def consecutive_append r simp del: append_assoc)
  show thesis
  proof (cases "w_segment_bytes w > 0 \<and> w_end_offset w > 0 \<and>
      sat_add (w_end_offset w) (of_nat (24 + length (le64 pid @ le64 tx @ payload))) > w_segment_bytes w")
    case True
    then have "w' = (seal_active_locked (w_end_offset w) w)\<lparr>w_next_lsn := w_next_lsn w + 1,
        w_active := record_bytes crc r, w_end_offset := of_nat (length (record_bytes crc r))\<rparr> \<and> res = Ok (w_next_lsn w)"
      using a by (auto simp: wal_append_def rb seal_active_locked_def Let_def)
    then show thesis
      using that(2) h c ok by (auto simp: log_holds_def seal_active_locked_def segment_files_def)
  next
    case False
    then have "w' = w\<lparr>w_next_lsn := w_next_lsn w + 1, w_active := w_active w @ record_bytes crc r,
        w_end_offset := w_end_offset w + of_nat (length (record_bytes crc r))\<rparr> \<and> res = Ok (w_next_lsn w)"
      using a by (auto simp: wal_append_def rb Let_def split: if_splits)
    then show thesis
      using that(1) h c ok by (auto simp: log_holds_def)
  qed
qed

lemma append_fields:
  assumes "wal_append crc None kind pid tx payload w = (w', res)"
  shows "w_next_lsn w' = w_next_lsn w + 1" "w_committed w' = w_committed w" "w_durable_lsn w' = w_durable_lsn w"
    "w_end_offset w = of_nat (length (w_active w)) \<Longrightarrow> w_end_offset w' = of_nat (length (w_active w'))"
    "w_segment_bytes w' = w_segment_bytes w"
  using assms by (auto simp: wal_append_def seal_active_locked_def Let_def split: if_splits)

text \<open>An append adds one record, whose LSN it returns.\<close>

lemma append_wf:
  assumes wf: "log_wf crc w recs" and n: "w_next_lsn w \<noteq> - 1" "length payload \<le> 1048576"
    and a: "wal_append crc None kind pid tx payload w = (w', res)"
  defines "r \<equiv> \<lparr> wr_lsn = w_next_lsn w, wr_kind = kind, wr_page_id = pid, wr_transaction = tx, wr_payload = payload \<rparr>"
  shows "res = Ok (w_next_lsn w)" "log_wf crc w' (recs @ [r])"
proof -
  obtain segs act where sa: "log_holds crc MAX_BODY w segs act []" "recs = concat (map snd segs) @ act"
      "sorted (map fst segs @ [w_active_first_lsn w, w_next_lsn w])"
      "w_active_first_lsn w = (if act = [] then w_next_lsn w else wr_lsn (hd act))"
    using wf unfolding log_wf_def by blast
  have l: "next_expected None (concat (map snd segs) @ act) \<in> {None, Some (w_next_lsn w)}"
    using log_wf_next [OF wf] sa(2) by simp
  have le: "w_next_lsn w \<le> w_next_lsn w + 1"
    using n(1) sat_succ_max [OF n(1)] by (simp add: sat_succ_def)
  note f = append_fields [OF a]
  have rest: "w_end_offset w' = of_nat (length (w_active w'))" "ranges_inv (w_committed w')"
    "length (w_committed w') \<le> MAX_COMMITTED_RANGES"
    using wf f by (simp_all add: log_wf_def)
  have nx: "w_next_lsn w' = wr_lsn (last (recs @ [r])) + 1" by (simp add: f(1) r_def)
  show "res = Ok (w_next_lsn w)" "log_wf crc w' (recs @ [r])"
  proof (atomize (full), rule append_holds [OF sa(1) l n meta_eq_to_obj_eq [OF r_def] a], goal_cases)
    case 1
    have "w_active_first_lsn w' = wr_lsn (hd (act @ [r]))" using sa(4) 1(3) by (cases act) (simp_all add: r_def)
    moreover have "sorted (map fst segs @ [w_active_first_lsn w', w_next_lsn w'])"
      using sa(3) le 1(3) f(1) by (auto simp: sorted_append)
    ultimately have "log_wf crc w' (recs @ [r])" by (intro log_wfI [OF 1(2)]) (use sa(2) nx rest in simp_all)
    with 1 show ?case by simp
  next
    case 2
    have "sorted (map fst (segs @ [(w_active_first_lsn w, act)]) @ [w_active_first_lsn w', w_next_lsn w'])"
      using sa(3) le 2(3) f(1) by (auto simp: sorted_append)
    then have "log_wf crc w' (recs @ [r])"
      by (intro log_wfI [OF 2(2)]) (use sa(2) nx rest 2(3) r_def in simp_all)
    with 2 show ?case by simp
  qed
qed

lemma sync_through_returns:
  assumes "l < w_next_lsn w"
  shows "sync_through ok l w = Some (if l \<le> w_durable_lsn w then (w, Ok ()) else if \<not> ok then (w, Err Io)
    else (w\<lparr>w_durable_lsn := max (w_durable_lsn w) (w_next_lsn w - 1)\<rparr>, Ok ()))"
proof -
  have "sat_sub (w_next_lsn w) 1 = w_next_lsn w - 1" "l \<le> w_next_lsn w - 1"
    using assms by (auto simp: sat_sub_def word_le_nat_alt word_less_nat_alt unat_sub_u64)
  then show ?thesis
    by (subst sync_through.simps, subst sync_through.simps) auto
qed

lemma log_wf_cong:
  assumes "log_wf crc w recs" "w_sealed w' = w_sealed w" "w_active w' = w_active w" "w_next_lsn w' = w_next_lsn w"
    "w_active_first_lsn w' = w_active_first_lsn w" "w_end_offset w' = w_end_offset w"
    "ranges_inv (w_committed w')" "length (w_committed w') \<le> MAX_COMMITTED_RANGES"
  shows "log_wf crc w' recs"
proof (rule log_wfE [OF assms(1)])
  fix segs act
  assume h: "log_holds crc MAX_BODY w segs act []" "recs = concat (map snd segs) @ act"
    "w_active_first_lsn w = (if act = [] then w_next_lsn w else wr_lsn (hd act))"
    "sorted (map fst segs @ [w_active_first_lsn w, w_next_lsn w])"
    "recs \<noteq> [] \<Longrightarrow> w_next_lsn w = wr_lsn (last recs) + 1" "w_end_offset w = of_nat (length (w_active w))"
  have "log_holds crc MAX_BODY w' segs act []" using h(1) by (simp add: log_holds_def assms(2,3))
  then show ?thesis by (rule log_wfI) (use h assms in simp_all)
qed

lemma log_wf_index: "log_wf crc w recs \<Longrightarrow> ranges_inv (w_committed w)" "log_wf crc w recs \<Longrightarrow> length (w_committed w) \<le> MAX_COMMITTED_RANGES"
  by (simp_all add: log_wf_def)

lemma log_wf_durable: "log_wf crc w recs \<Longrightarrow> log_wf crc (w\<lparr>w_durable_lsn := d\<rparr>) recs"
  by (rule log_wf_cong) (simp_all add: log_wf_index)

lemma log_wf_redo: "log_wf crc w recs \<Longrightarrow> log_wf crc (w\<lparr>w_redo_lsn := d\<rparr>) recs"
  by (rule log_wf_cong) (simp_all add: log_wf_index)

lemma seal_locked_wf:
  assumes "log_wf crc w recs"
  shows "log_wf crc (seal_active_locked (w_end_offset w) w) recs"
proof (rule log_wfE [OF assms])
  fix segs act
  assume h: "log_holds crc MAX_BODY w segs act []" "recs = concat (map snd segs) @ act"
    "w_active_first_lsn w = (if act = [] then w_next_lsn w else wr_lsn (hd act))"
    "sorted (map fst segs @ [w_active_first_lsn w, w_next_lsn w])"
    "recs \<noteq> [] \<Longrightarrow> w_next_lsn w = wr_lsn (last recs) + 1" "w_end_offset w = of_nat (length (w_active w))"
  let ?w = "seal_active_locked (w_end_offset w) w"
  have "log_holds crc MAX_BODY ?w (segs @ [(w_active_first_lsn w, act)]) [] []"
    using h(1) by (simp add: log_holds_def seal_active_locked_def segment_files_def)
  then show ?thesis
    by (rule log_wfI) (use h log_wf_index [OF assms] in \<open>auto simp: seal_active_locked_def sorted_append simp del: h(3)\<close>)
qed

lemma seal_wf:
  assumes "log_wf crc w recs"
  shows "log_wf crc (fst (seal_active w)) recs" "w_committed (fst (seal_active w)) = w_committed w"
    "w_next_lsn (fst (seal_active w)) = w_next_lsn w"
  using seal_locked_wf [OF assms] assms by (simp_all add: seal_active_def seal_active_locked_def)

section \<open>Histories\<close>

datatype wal_op = LogImage page_id u64 bytes | DoCommit u64 bool | DoAbort u64 | DoCheckpoint lsn page_id bool | DoSeal

text \<open>One operation on the log; the flag of a commit or checkpoint is the outcome of its sync.\<close>

fun wal_step :: "(bytes \<Rightarrow> u32) \<Rightarrow> wal_op \<Rightarrow> wal \<Rightarrow> wal option" where
  "wal_step crc (LogImage pid tx img) w = Some (fst (log_page_image crc None pid tx img w))"
| "wal_step crc (DoCommit x sync_ok) w = map_option fst (wal_commit crc None sync_ok x w)"
| "wal_step crc (DoAbort x) w = Some (fst (wal_abort crc None x w))"
| "wal_step crc (DoCheckpoint redo root sync_ok) w = map_option fst (wal_checkpoint crc None sync_ok redo root w)"
| "wal_step crc DoSeal w = Some (fst (seal_active w))"

fun wal_run :: "(bytes \<Rightarrow> u32) \<Rightarrow> wal_op list \<Rightarrow> wal \<Rightarrow> wal option" where
  "wal_run crc [] w = Some w"
| "wal_run crc (op # ops) w = Option.bind (wal_step crc op w) (wal_run crc ops)"

text \<open>The record an operation should add, given the index of committed transactions and the next LSN.\<close>

fun op_record :: "committed_ranges \<Rightarrow> lsn \<Rightarrow> wal_op \<Rightarrow> wal_record list" where
  "op_record index l (LogImage pid tx img) =
     [\<lparr> wr_lsn = l, wr_kind = PageImage, wr_page_id = pid, wr_transaction = tx, wr_payload = img \<rparr>]"
| "op_record index l (DoCommit x _) =
     (if snd (ranges_insert index x)
      then [\<lparr> wr_lsn = l, wr_kind = Commit, wr_page_id = 0, wr_transaction = x, wr_payload = [] \<rparr>] else [])"
| "op_record index l (DoAbort x) =
     (if ranges_contains index x then []
      else [\<lparr> wr_lsn = l, wr_kind = Abort, wr_page_id = 0, wr_transaction = x, wr_payload = [] \<rparr>])"
| "op_record index l (DoCheckpoint redo root _) =
     [\<lparr> wr_lsn = l, wr_kind = Checkpoint, wr_page_id = root, wr_transaction = redo, wr_payload = [] \<rparr>]"
| "op_record index l DoSeal = []"

fun op_index :: "committed_ranges \<Rightarrow> wal_op \<Rightarrow> committed_ranges" where
  "op_index index (DoCommit x _) = fst (ranges_insert index x)"
| "op_index index _ = index"

fun appended :: "committed_ranges \<Rightarrow> lsn \<Rightarrow> wal_op list \<Rightarrow> wal_record list" where
  "appended index l [] = []"
| "appended index l (op # ops) =
     op_record index l op @ appended (op_index index op) (l + of_nat (length (op_record index l op))) ops"

fun op_fits :: "wal_op \<Rightarrow> bool" where
  "op_fits (LogImage _ _ img) = (length img \<le> 1048576)"
| "op_fits _ = True"

lemma next_less: "l \<noteq> - 1 \<Longrightarrow> (l :: u64) < l + 1"
  using sat_succ_max [of l] by (simp add: sat_succ_def)

lemma append_synced_wf:
  assumes wf: "log_wf crc w recs" and n: "w_next_lsn w \<noteq> - 1"
  obtains w' res where "append_synced crc None ok kind pid tx w = Some (w', res)"
    "log_wf crc w' (recs @ [\<lparr> wr_lsn = w_next_lsn w, wr_kind = kind, wr_page_id = pid, wr_transaction = tx, wr_payload = [] \<rparr>])"
    "w_committed w' = w_committed w" "w_next_lsn w' = w_next_lsn w + 1"
    "ok \<Longrightarrow> res = Ok (w_next_lsn w) \<and> w_next_lsn w \<le> w_durable_lsn w'"
    "w_sealed w' = w_sealed (fst (wal_append crc None kind pid tx [] w))"
    "w_active w' = w_active (fst (wal_append crc None kind pid tx [] w))" "w_segment_bytes w' = w_segment_bytes w"
proof -
  obtain w1 r1 where a: "wal_append crc None kind pid tx [] w = (w1, r1)" by fastforce
  note wf1 = append_wf [OF wf n _ a, simplified]
  note f = append_fields [OF a]
  have lt: "w_next_lsn w < w_next_lsn w1" using next_less [OF n] f(1) by simp
  have le: "w_next_lsn w \<le> w_next_lsn w1 - 1" by (simp add: f(1))
  show thesis
    using that a wf1 f sync_through_returns [OF lt, of ok] log_wf_durable [OF wf1(2)] le
    by (simp add: append_synced_def split: if_splits)
qed

lemma wal_step_wf:
  assumes wf: "log_wf crc w recs" and n: "w_next_lsn w \<noteq> - 1" and o: "op_fits op"
  shows "\<exists>w'. wal_step crc op w = Some w' \<and> log_wf crc w' (recs @ op_record (w_committed w) (w_next_lsn w) op) \<and>
    w_committed w' = op_index (w_committed w) op \<and>
    w_next_lsn w' = w_next_lsn w + of_nat (length (op_record (w_committed w) (w_next_lsn w) op))"
proof (cases op)
  case (LogImage pid tx img)
  obtain w1 r1 where a: "wal_append crc None PageImage pid tx img w = (w1, r1)" by fastforce
  show ?thesis
    using append_wf [OF wf n _ a] append_fields [OF a] a o LogImage by (simp add: log_page_image_def)
next
  case (DoCommit x ok)
  obtain rs b where i: "ranges_insert (w_committed w) x = (rs, b)" by fastforce
  have "ranges_inv rs" "length rs \<le> MAX_COMMITTED_RANGES"
    using ranges_insert_result(1,2) [OF log_wf_index [OF wf] i] by simp_all
  then have wf': "log_wf crc (w\<lparr>w_committed := rs\<rparr>) recs" by (intro log_wf_cong [OF wf]) simp_all
  obtain w' res where "append_synced crc None ok Commit 0 x (w\<lparr>w_committed := rs\<rparr>) = Some (w', res)"
    "log_wf crc w' (recs @ [\<lparr> wr_lsn = w_next_lsn w, wr_kind = Commit, wr_page_id = 0, wr_transaction = x, wr_payload = [] \<rparr>])"
    "w_committed w' = rs" "w_next_lsn w' = w_next_lsn w + 1"
    by (rule append_synced_wf [OF wf', of ok Commit 0 x]) (use n in simp_all)
  with DoCommit i wf' show ?thesis by (simp add: wal_commit_def)
next
  case (DoAbort x)
  obtain w1 r1 where a: "wal_append crc None Abort 0 x [] w = (w1, r1)" by fastforce
  show ?thesis
    using append_wf [OF wf n _ a] append_fields [OF a] a wf DoAbort by (simp add: wal_abort_def)
next
  case (DoCheckpoint redo root ok)
  obtain w' res where "append_synced crc None ok Checkpoint root redo w = Some (w', res)"
    "log_wf crc w' (recs @ [\<lparr> wr_lsn = w_next_lsn w, wr_kind = Checkpoint, wr_page_id = root, wr_transaction = redo, wr_payload = [] \<rparr>])"
    "w_committed w' = w_committed w" "w_next_lsn w' = w_next_lsn w + 1"
    by (rule append_synced_wf [OF wf n, of ok Checkpoint root redo])
  with DoCheckpoint show ?thesis by (auto simp: wal_checkpoint_def log_wf_redo)
next
  case DoSeal
  with seal_wf [OF wf] show ?thesis by simp
qed

lemma op_record_le: "length (op_record index l op) \<le> 1"
  by (cases op) simp_all

lemma wal_run_wf:
  assumes "log_wf crc w recs" "unat (w_next_lsn w) + length ops < 2 ^ 64" "\<forall>op \<in> set ops. op_fits op"
  shows "\<exists>w'. wal_run crc ops w = Some w' \<and> log_wf crc w' (recs @ appended (w_committed w) (w_next_lsn w) ops)"
  using assms
proof (induction ops arbitrary: w recs)
  case (Cons op ops)
  have n: "w_next_lsn w \<noteq> - 1" using Cons.prems(2) by (auto simp: unat_max_u64)
  let ?k = "length (op_record (w_committed w) (w_next_lsn w) op)"
  obtain w1 where w1: "wal_step crc op w = Some w1" "log_wf crc w1 (recs @ op_record (w_committed w) (w_next_lsn w) op)"
      "w_committed w1 = op_index (w_committed w) op" "w_next_lsn w1 = w_next_lsn w + of_nat ?k"
    using wal_step_wf [OF Cons.prems(1) n, of op] Cons.prems(3) by auto
  have "?k = 0 \<or> ?k = 1" using op_record_le [of "w_committed w" "w_next_lsn w" op] by linarith
  then have "unat (w_next_lsn w1) \<le> unat (w_next_lsn w) + 1"
    using w1(4) Cons.prems(2) unat_add_u64 [of "w_next_lsn w" 1] by auto
  then have "unat (w_next_lsn w1) + length ops < 2 ^ 64" using Cons.prems(2) by simp
  from Cons.IH [OF w1(2) this] Cons.prems(3) w1 show ?case by simp
qed simp

lemma open_empty_wf:
  "log_wf crc (open_with_segments_and_floor fsync segment_bytes floor [] []) []"
  by (rule log_wfI [of _ _ "[]" "[]"])
     (simp_all add: open_with_segments_and_floor_def log_holds_def segment_files_def ranges_inv_def Let_def)

text \<open>
  C13. The log is a faithful list of records: over any history of page images, commits, aborts,
  checkpoints and seals, with failing syncs among them, reading the log back gives the records
  it held before followed by exactly one record per accepted operation, in order and with
  consecutive LSNs, however the records are spread over sealed segments. Every operation
  returns.
\<close>

theorem wal_history_reads_back:
  assumes "log_wf crc w recs" "unat (w_next_lsn w) + length ops < 2 ^ 64" "\<forall>op \<in> set ops. op_fits op"
  shows "\<exists>w'. wal_run crc ops w = Some w' \<and>
    read_all crc w' = Ok (recs @ appended (w_committed w) (w_next_lsn w) ops, 0) \<and>
    consecutive None (recs @ appended (w_committed w) (w_next_lsn w) ops)"
  using wal_run_wf [OF assms] log_wf_read log_wf_consecutive by blast

theorem wal_history_reads_back_witness:
  "\<exists>w' recs. wal_run (\<lambda>_. 7) [LogImage 5 9 [1, 2, 3], DoCommit 9 False, DoSeal, DoAbort 9, DoAbort 10]
     (open_with_segments_and_floor True 64 0 [] []) = Some w' \<and> read_all (\<lambda>_. 7) w' = Ok (recs, 0) \<and>
     map (\<lambda>r. (wr_lsn r, wr_transaction r)) recs = [(1, 9), (2, 9), (3, 10)]"
proof -
  let ?w = "open_with_segments_and_floor True 64 0 [] []"
  let ?ops = "[LogImage 5 9 [1, 2, 3], DoCommit 9 False, DoSeal, DoAbort 9, DoAbort 10]"
  have w: "w_next_lsn ?w = 1" "w_committed ?w = []"
    by (simp_all add: open_with_segments_and_floor_def Let_def max_def)
  have i: "ranges_insert [] 9 = ([(9, 9)], True)"
    by (simp add: ranges_insert_def ranges_contains_def binary_search_by_def bsearch.simps partition_point_def)
  have c: "ranges_contains [(9, 9)] 9" "\<not> ranges_contains [(9, 9)] 10"
    by (simp_all add: ranges_contains_def binary_search_by_def bsearch.simps range_cmp_def Let_def)
  have a: "map (\<lambda>r. (wr_lsn r, wr_transaction r)) (appended (w_committed ?w) (w_next_lsn ?w) ?ops) = [(1, 9), (2, 9), (3, 10)]"
    by (simp add: w i c)
  have "unat (w_next_lsn ?w) + length ?ops < 2 ^ 64" "\<forall>op \<in> set ?ops. op_fits op" by (simp_all add: w)
  from wal_history_reads_back [OF open_empty_wf this, of "\<lambda>_. 7"] obtain w' where
    "wal_run (\<lambda>_. 7) ?ops ?w = Some w'" "read_all (\<lambda>_. 7) w' = Ok ([] @ appended (w_committed ?w) (w_next_lsn ?w) ?ops, 0)"
    by blast
  with a show ?thesis unfolding append_Nil by (intro exI conjI)
qed

section \<open>Commits are final\<close>

definition contradicts :: "wal_record \<Rightarrow> wal_record \<Rightarrow> bool" where
  "contradicts r r' \<longleftrightarrow> wr_kind r = Commit \<and> wr_kind r' = Abort \<and> wr_transaction r = wr_transaction r'"

definition indexed :: "committed_ranges \<Rightarrow> wal_record list \<Rightarrow> bool" where
  "indexed index recs \<longleftrightarrow> ranges_inv index \<and> length index \<le> MAX_COMMITTED_RANGES \<and>
     (\<forall>r \<in> set recs. wr_kind r = Commit \<longrightarrow> wr_transaction r \<in> ranges_set index) \<and>
     sorted_wrt (\<lambda>r r'. \<not> contradicts r r') recs"

lemma indexed_step:
  assumes "indexed index recs"
  shows "indexed (op_index index op) (recs @ op_record index l op)"
proof (cases op)
  case (DoCommit x ok)
  obtain rs b where i: "ranges_insert index x = (rs, b)" by fastforce
  note r = ranges_insert_result [OF _ _ i]
  show ?thesis using assms r DoCommit i by (auto simp: indexed_def sorted_wrt_append contradicts_def)
next
  case (DoAbort x)
  then show ?thesis
    using assms ranges_contains_set [of index x] by (auto simp: indexed_def sorted_wrt_append contradicts_def)
qed (use assms in \<open>auto simp: indexed_def sorted_wrt_append contradicts_def\<close>)

lemma indexed_run: "indexed index recs \<Longrightarrow> \<exists>index'. indexed index' (recs @ appended index l ops)"
proof (induction ops arbitrary: index recs l)
  case (Cons op ops)
  from Cons.IH [OF indexed_step [OF Cons.prems, of op l]] show ?case by simp
qed auto



end
