(* ===== verification/Wal_Crash.thy ===== *)
theory Wal_Crash
  imports Wal_History
begin

text \<open>
  Crashes and failures of the log. Every file of bytes splits into records and a tail that does
  not decode; so whatever a crash leaves behind the synced part of the active file, reopening
  finds all synced records. An append that fails consumes its LSN, and the records behind it
  are not found again.
\<close>

section \<open>Any file is a log with a tail\<close>

lemma slice_concat: "i + m + n \<le> length b \<Longrightarrow> slice_of b i m @ slice_of b (i + m) n = slice_of b i (m + n)"
  by (simp add: slice_of_def take_add add.commute)

lemma record_kind_inverse: "record_kind_from_u8 b = Some k \<Longrightarrow> b = record_kind_u8 k"
  by (auto simp: record_kind_from_u8_def split: if_splits)

lemma slice_single: "i < length b \<Longrightarrow> slice_of b i (Suc 0) = [b ! i]"
  by (simp add: slice_of_def take_Suc_conv_app_nth flip: Cons_nth_drop_Suc)

lemma decode_record_header:
  assumes "24 \<le> length rest" "slice_of rest 0 4 = RECORD_MAGIC" "slice_of rest 13 3 = replicate 3 0"
    "record_kind_from_u8 (rest ! 12) = Some k" "length body = unat (rd32 rest 16)"
  shows "record_header (rd64 rest 4) k body = slice_of rest 0 20"
proof -
  have "le64 (rd64 rest 4) = slice_of rest 4 8" "le32 (of_nat (length body)) = slice_of rest 16 4"
    using assms(1,5) by (simp_all add: rd64_def rd32_def le64_of_le_val le32_of_le_val)
  moreover have "[record_kind_u8 k] = slice_of rest 12 1"
    using record_kind_inverse [OF assms(4)] assms(1) by (simp add: slice_single)
  ultimately show ?thesis
    using assms(1,2,3) slice_concat [of 0 4 8 rest] slice_concat [of 0 12 1 rest] slice_concat [of 0 13 3 rest]
      slice_concat [of 0 16 4 rest]
    by (simp add: record_header_def flip: append_assoc)
qed

lemma decode_record_SomeD:
  assumes "decode_record crc mb e rest = Some (r, n)"
  defines "b \<equiv> slice_of rest 24 (unat (rd32 rest 16))"
  shows "24 \<le> length rest" "slice_of rest 0 4 = RECORD_MAGIC" "slice_of rest 13 3 = replicate 3 0"
    "\<exists>k. record_kind_from_u8 (rest ! 12) = Some k \<and>
       r = \<lparr> wr_lsn = rd64 rest 4, wr_kind = k, wr_page_id = rd64 b 0, wr_transaction = rd64 b 8, wr_payload = drop 16 b \<rparr>"
    "16 \<le> unat (rd32 rest 16)" "unat (rd32 rest 16) \<le> mb" "24 + unat (rd32 rest 16) \<le> length rest"
    "rd64 rest 4 \<noteq> - 1" "e = None \<or> e = Some (rd64 rest 4)" "crc (slice_of rest 0 20 @ b) = rd32 rest 20"
    "n = 24 + unat (rd32 rest 16)"
  using assms(1) unfolding b_def
  by (simp_all add: decode_record_def Let_def not_less split: if_split_asm option.split_asm)

lemma body_parts:
  assumes "16 \<le> length b"
  shows "le64 (rd64 b 0) @ le64 (rd64 b 8) @ drop 16 b = b"
proof -
  have "le64 (rd64 b 0) = slice_of b 0 8" "le64 (rd64 b 8) = slice_of b 8 8"
    using assms by (simp_all add: rd64_def le64_of_le_val)
  moreover have "slice_of b 0 8 @ slice_of b 8 8 = take 16 b"
    using slice_concat [of 0 8 8 b] assms by (simp add: slice_of_def)
  ultimately show ?thesis by (simp flip: append_assoc)
qed

lemma decode_record_exact:
  assumes d: "decode_record crc mb e rest = Some (r, n)" and mb: "mb \<le> MAX_BODY"
  shows "take n rest = record_bytes crc r" "record_ok mb r" "e = None \<or> e = Some (wr_lsn r)"
proof -
  let ?bl = "unat (rd32 rest 16)" and ?b = "slice_of rest 24 (unat (rd32 rest 16))"
  note k = decode_record_SomeD [OF d]
  obtain k where kk: "record_kind_from_u8 (rest ! 12) = Some k"
      "r = \<lparr> wr_lsn = rd64 rest 4, wr_kind = k, wr_page_id = rd64 ?b 0, wr_transaction = rd64 ?b 8, wr_payload = drop 16 ?b \<rparr>"
    using k(4) by blast
  have lb: "length ?b = ?bl" using k(7) by simp
  have body: "record_body r = ?b" using body_parts [of ?b] lb k(5) by (simp add: record_body_def kk(2))
  have h: "record_header (rd64 rest 4) k ?b = slice_of rest 0 20"
    by (rule decode_record_header [OF k(1-3) kk(1) lb])
  have c: "le32 (rd32 rest 20) = slice_of rest 20 4" using k(1) by (simp add: rd32_def le32_of_le_val)
  have "record_bytes crc r = slice_of rest 0 20 @ slice_of rest 20 4 @ ?b"
    using body h c k(10) by (simp add: record_bytes_def record_buffer_def kk(2))
  also have "\<dots> = slice_of rest 0 n"
    using slice_concat [of 0 20 4 rest] slice_concat [of 0 24 ?bl rest] k(1,7,11) by (simp flip: append_assoc)
  finally show "take n rest = record_bytes crc r" by (simp add: slice_of_def)
  show "record_ok mb r" "e = None \<or> e = Some (wr_lsn r)"
    using k(5-9) lb mb kk(2) by (auto simp: record_ok_def)
qed

lemma split_log:
  assumes "mb \<le> MAX_BODY"
  shows "\<exists>rs tail. rest = log_bytes crc rs @ tail \<and> consecutive e rs \<and> (\<forall>r \<in> set rs. record_ok mb r) \<and>
    decode_record crc mb (next_expected e rs) tail = None"
proof (induction "length rest" arbitrary: rest e rule: less_induct)
  case less
  show ?case
  proof (cases "decode_record crc mb e rest")
    case None
    then show ?thesis by (intro exI [of _ "[]"] exI [of _ rest]) simp
  next
    case (Some p)
    obtain r n where rn: "p = (r, n)" by fastforce
    note d = decode_record_exact [OF Some [unfolded rn] assms]
    have "length (drop n rest) < length rest" using decode_record_size [OF Some [unfolded rn]] by auto
    from less [OF this, of "Some (wr_lsn r + 1)"] obtain rs tail where
      rs: "drop n rest = log_bytes crc rs @ tail" "consecutive (Some (wr_lsn r + 1)) rs" "\<forall>r \<in> set rs. record_ok mb r"
        "decode_record crc mb (next_expected (Some (wr_lsn r + 1)) rs) tail = None" by blast
    have "rest = log_bytes crc (r # rs) @ tail"
      using append_take_drop_id [of n rest] d(1) rs(1) by simp
    with rs d show ?thesis by (intro exI [of _ "r # rs"] exI [of _ tail]) auto
  qed
qed

lemma consecutive_lower:
  "consecutive (Some l) rs \<Longrightarrow> \<forall>r \<in> set rs. wr_lsn r \<noteq> - 1 \<Longrightarrow> r \<in> set rs \<Longrightarrow> l \<le> wr_lsn r"
proof (induction rs arbitrary: l)
  case (Cons q rs)
  have "wr_lsn q < wr_lsn q + 1" using next_less Cons.prems(2) by simp
  then show ?case using Cons by (auto intro: order.trans [OF less_imp_le])
qed simp

section \<open>Reopening after a crash\<close>

lemma visit_unit: "visit_all (\<lambda>_ v. (v, Ok ())) rs v = (v, Ok ())"
  by (induction rs) (simp_all add: m_bind_def)

text \<open>The log reopened from its files with arbitrary bytes behind the active one.\<close>

definition reopened :: "bool \<Rightarrow> u64 \<Rightarrow> lsn \<Rightarrow> wal \<Rightarrow> bytes \<Rightarrow> wal" where
  "reopened fsync segment_bytes floor w garbage =
     open_with_segments_and_floor fsync segment_bytes floor (w_active w @ garbage) (w_sealed w)"

lemma reopened_fields:
  assumes "log_wf crc w recs"
  shows "w_sealed (reopened fsync seg floor w garbage) = w_sealed w" "w_active (reopened fsync seg floor w garbage) = w_active w @ garbage"
    "w_next_lsn (reopened fsync seg floor w garbage) = max floor 1" "w_committed (reopened fsync seg floor w garbage) = []"
proof -
  have "sorted (map fst (w_sealed w))"
    by (rule log_wfE [OF assms]) (auto simp: log_holds_def segment_files_def sorted_append comp_def case_prod_unfold)
  then show "w_sealed (reopened fsync seg floor w garbage) = w_sealed w"
    by (simp add: reopened_def open_with_segments_and_floor_def sort_key_id_if_sorted Let_def)
qed (simp_all add: reopened_def open_with_segments_and_floor_def Let_def)

lemma reopen_wf:
  assumes wf: "log_wf crc w recs" "recs \<noteq> []" and f: "floor \<le> wr_lsn (last recs) + 1" "wr_lsn (last recs) + 1 \<noteq> 0"
  obtains more tail w' where "truncate_torn_tail crc (reopened fsync seg floor w garbage) = (w', Ok (length tail))"
    "garbage = log_bytes crc more @ tail" "log_wf crc w' (recs @ more)"
proof (rule log_wfE [OF wf(1)])
  fix segs act
  assume h: "log_holds crc MAX_BODY w segs act []" "recs = concat (map snd segs) @ act"
    "w_active_first_lsn w = (if act = [] then w_next_lsn w else wr_lsn (hd act))"
    "sorted (map fst segs @ [w_active_first_lsn w, w_next_lsn w])"
    "recs \<noteq> [] \<Longrightarrow> w_next_lsn w = wr_lsn (last recs) + 1"
  let ?w = "reopened fsync seg floor w garbage"
  note rf = reopened_fields [OF wf(1), of fsync seg floor garbage]
  obtain more tail where m: "garbage = log_bytes crc more @ tail" "consecutive (next_expected None recs) more"
      "\<forall>r \<in> set more. record_ok MAX_BODY r" "decode_record crc MAX_BODY (next_expected (next_expected None recs) more) tail = None"
    using split_log [of MAX_BODY garbage crc "next_expected None recs"] by auto
  have hw: "log_holds crc MAX_BODY ?w segs (act @ more) tail"
    using h(1,2) m rf(1,2) by (auto simp: log_holds_def consecutive_append)
  have ne: "next_expected None recs = Some (w_next_lsn w)" using wf(2) h(5) by (simp add: next_expected_def)
  have lsn: "wr_lsn r \<noteq> - 1" if "r \<in> set (recs @ more)" for r
    using that h(1,2) m(3) by (auto simp: log_holds_def record_ok_def)
  have ge: "w_next_lsn w \<le> wr_lsn (last (recs @ more)) + 1"
  proof (cases "more = []")
    case False
    then have "w_next_lsn w \<le> wr_lsn (last more)"
      using consecutive_lower [OF m(2) [unfolded ne]] lsn by simp
    also have "\<dots> < wr_lsn (last more) + 1" using next_less lsn False by simp
    finally show ?thesis using False by simp
  qed (use h(5) wf(2) in simp)
  have fl: "max floor 1 \<le> w_next_lsn w"
  proof -
    have "1 \<le> w_next_lsn w" using f(2) h(5) [OF wf(2)] unat_gt_0 [of "w_next_lsn w"] by (simp add: word_le_nat_alt)
    then show ?thesis using f(1) h(5) [OF wf(2)] by simp
  qed
  have nx: "max (wr_lsn (last (recs @ more)) + 1) (max floor 1) = wr_lsn (last (recs @ more)) + 1"
    by (rule max.absorb1 [OF order.trans [OF fl ge]])
  let ?l = "wr_lsn (last (recs @ more)) + 1"
  let ?w' = "?w\<lparr>w_active := log_bytes crc (act @ more), w_end_offset := of_nat (length (log_bytes crc (act @ more))),
      w_next_lsn := ?l, w_active_first_lsn := (if act @ more = [] then ?l else wr_lsn (hd (act @ more)))\<rparr>"
  have rr: "concat (map snd segs) @ act @ more = recs @ more" and mb: "24 + 16 + 1048576 - 24 = (16 + 1048576 :: nat)"
    using h(2) by simp_all
  have ne': "(recs @ more = []) = False" using wf(2) by simp
  note sc = scan_records_run [OF hw visit_unit, of True "()", unfolded rr Let_def ne' if_False if_True rf(3) nx]
  have t: "truncate_torn_tail crc ?w = (?w', Ok (length tail))"
    unfolding truncate_torn_tail_def mb sc by simp
  have first: "w_active_first_lsn ?w' = w_active_first_lsn w"
    using h(2,3,5) wf(2) m(2) ne by (cases act; cases more) (auto simp: last_append)
  have "log_holds crc MAX_BODY ?w' segs (act @ more) []" using hw by (simp add: log_holds_def)
  then have "log_wf crc ?w' (recs @ more)"
  proof (rule log_wfI)
    show "sorted (map fst segs @ [w_active_first_lsn ?w', w_next_lsn ?w'])"
      using h(4) ge unfolding first by (auto simp: sorted_append)
  qed (use h(2) rf(4) in \<open>simp_all add: ranges_inv_def\<close>)
  then show thesis using that t m(1) by blast
qed

text \<open>
  C4. An acknowledged commit survives a crash: once a commit has returned, its LSN is durable, and
  whatever bytes the crash leaves behind the synced part of the active file (records of other
  transactions, a torn record, garbage), reopening the files and truncating the torn tail gives a
  well-formed log that starts with all earlier records and the commit record.
\<close>

theorem acknowledged_commit_survives_crash:
  assumes wf: "log_wf crc w recs" and n: "w_next_lsn w \<noteq> - 1" "floor \<le> w_next_lsn w + 1"
    and c: "wal_commit crc None True x w = Some (w', Ok lsn)"
  shows "lsn \<le> w_durable_lsn w' \<and>
    (\<exists>more torn w''. truncate_torn_tail crc
         (open_with_segments_and_floor fsync segment_bytes floor (w_active w' @ garbage) (w_sealed w')) = (w'', Ok torn) \<and>
       log_wf crc w'' (recs @ \<lparr> wr_lsn = lsn, wr_kind = Commit, wr_page_id = 0, wr_transaction = x, wr_payload = [] \<rparr> # more))"
proof -
  obtain rs b where i: "ranges_insert (w_committed w) x = (rs, b)" by fastforce
  then have b: "b" and ap: "append_synced crc None True Commit 0 x (w\<lparr>w_committed := rs\<rparr>) = Some (w', Ok lsn)"
    using c by (simp_all add: wal_commit_def Let_def split: if_splits)
  have wf1: "log_wf crc (w\<lparr>w_committed := rs\<rparr>) recs"
    by (rule log_wf_cong [OF wf]) (use ranges_insert_result(1,2) [OF log_wf_index [OF wf] i] in simp_all)
  let ?c = "\<lparr> wr_lsn = w_next_lsn w, wr_kind = Commit, wr_page_id = 0, wr_transaction = x, wr_payload = [] \<rparr>"
  have w': "log_wf crc w' (recs @ [?c])" "lsn = w_next_lsn w" "lsn \<le> w_durable_lsn w'"
    by (rule append_synced_wf [OF wf1, of True Commit 0 x]; use n(1) ap in simp)+
  have "w_next_lsn w + 1 \<noteq> 0" using next_less [OF n(1)] by auto
  then have f: "recs @ [?c] \<noteq> []" "floor \<le> wr_lsn (last (recs @ [?c])) + 1" "wr_lsn (last (recs @ [?c])) + 1 \<noteq> 0"
    using n(2) by simp_all
  obtain more torn w'' where
    "truncate_torn_tail crc (reopened fsync segment_bytes floor w' garbage) = (w'', Ok torn)"
    "log_wf crc w'' ((recs @ [?c]) @ more)"
    by (rule reopen_wf [OF w'(1) f, of fsync segment_bytes garbage]) blast
  then show ?thesis using w'(2,3) by (auto simp: reopened_def)
qed

definition sample_log :: "(bytes \<Rightarrow> u32) \<Rightarrow> wal" where
  "sample_log crc = the (wal_run crc [DoCommit 1 True] (open_with_segments_and_floor True 0 0 [] []))"

lemma sample_log_wf:
  "\<exists>r. log_wf crc (sample_log crc) [r]" "w_next_lsn (sample_log crc) = 2" "w_committed (sample_log crc) = [(1, 1)]"
  "w_segment_bytes (sample_log crc) = 0"
proof -
  let ?w = "open_with_segments_and_floor True 0 0 [] []"
  have w: "w_next_lsn ?w = 1" "w_committed ?w = []"
    by (simp_all add: open_with_segments_and_floor_def Let_def max_def)
  have i: "ranges_insert [] 1 = ([(1, 1)], True)"
    by (simp add: ranges_insert_def ranges_contains_def binary_search_by_def bsearch.simps partition_point_def)
  have wf: "log_wf crc (?w\<lparr>w_committed := [(1, 1)]\<rparr>) []"
    by (rule log_wf_cong [OF open_empty_wf]) (simp_all add: ranges_inv_def)
  let ?c = "\<lparr> wr_lsn = 1, wr_kind = Commit, wr_page_id = 0, wr_transaction = 1, wr_payload = [] \<rparr>"
  obtain w' res where w': "append_synced crc None True Commit 0 1 (?w\<lparr>w_committed := [(1, 1)]\<rparr>) = Some (w', res)"
    "log_wf crc w' [?c]" "w_committed w' = [(1, 1)]" "w_next_lsn w' = 2" "w_segment_bytes w' = w_segment_bytes ?w"
    by (rule append_synced_wf [OF wf, of True Commit 0 1]) (use w in simp_all)
  have "sample_log crc = w'" using w'(1) w(2) i by (simp add: sample_log_def wal_commit_def)
  then show "\<exists>r. log_wf crc (sample_log crc) [r]" "w_next_lsn (sample_log crc) = 2" "w_committed (sample_log crc) = [(1, 1)]"
    "w_segment_bytes (sample_log crc) = 0"
    using w' by (auto simp: open_with_segments_and_floor_def Let_def)
qed

lemma commit_returns:
  assumes "log_wf crc w recs" "w_next_lsn w \<noteq> - 1" "snd (ranges_insert (w_committed w) x)"
  obtains w' where "wal_commit crc None True x w = Some (w', Ok (w_next_lsn w))"
proof -
  obtain rs where i: "ranges_insert (w_committed w) x = (rs, True)" using assms(3) by (metis prod.collapse)
  have wf1: "log_wf crc (w\<lparr>w_committed := rs\<rparr>) recs"
    by (rule log_wf_cong [OF assms(1)]) (use ranges_insert_result(1,2) [OF log_wf_index [OF assms(1)] i] in simp_all)
  show thesis
    by (rule append_synced_wf [OF wf1, of True Commit 0 x]) (use that i assms(2) in \<open>simp_all add: wal_commit_def\<close>)
qed

lemma sample_insert: "ranges_insert [(1, 1)] 2 = ([(1, 2)], True)"
  by (simp add: ranges_insert_def ranges_contains_def binary_search_by_def bsearch.simps partition_point_def
      range_cmp_def checked_succ_def Let_def)

theorem acknowledged_commit_survives_crash_witness:
  "\<exists>w' more torn w''. wal_commit (\<lambda>_. 7) None True 2 (sample_log (\<lambda>_. 7)) = Some (w', Ok 2) \<and>
     truncate_torn_tail (\<lambda>_. 7) (open_with_segments_and_floor True 0 0 (w_active w' @ [66, 87]) (w_sealed w')) = (w'', Ok torn) \<and>
     read_all (\<lambda>_. 7) w'' = Ok (more, 0) \<and> 2 \<le> length more"
proof -
  obtain r where wf: "log_wf (\<lambda>_. 7) (sample_log (\<lambda>_. 7)) [r]" using sample_log_wf(1) by blast
  note s = sample_log_wf(2,3) [of "\<lambda>_. 7"]
  have n: "w_next_lsn (sample_log (\<lambda>_. 7)) \<noteq> - 1" "0 \<le> w_next_lsn (sample_log (\<lambda>_. 7)) + 1" using s by simp_all
  obtain w' where c: "wal_commit (\<lambda>_. 7) None True 2 (sample_log (\<lambda>_. 7)) = Some (w', Ok 2)"
    by (rule commit_returns [OF wf n(1), of 2]) (use s sample_insert in simp_all)
  from acknowledged_commit_survives_crash [OF wf n c, of True 0 "[66, 87]"] obtain more torn w'' where
    "truncate_torn_tail (\<lambda>_. 7) (open_with_segments_and_floor True 0 0 (w_active w' @ [66, 87]) (w_sealed w')) = (w'', Ok torn)"
    "log_wf (\<lambda>_. 7) w'' ([r] @ \<lparr> wr_lsn = 2, wr_kind = Commit, wr_page_id = 0, wr_transaction = 2, wr_payload = [] \<rparr> # more)"
    by blast
  with c log_wf_read show ?thesis by fastforce
qed

section \<open>A failed append\<close>

lemma decode_record_gap:
  assumes "l \<noteq> wr_lsn r"
  shows "decode_record crc mb (Some l) (record_bytes crc r @ rest) = None"
proof -
  have "rd64 (record_bytes crc r @ rest) 4 = wr_lsn r"
    using header_fields(4) [of "wr_lsn r" "wr_kind r" "record_body r"]
    by (simp add: record_bytes_def record_buffer_def rd64_def slice_append_left)
  then show ?thesis using assms by (simp add: decode_record_def Let_def split: option.splits)
qed



end
