(* ===== verification/Wal_Sync.thy ===== *)
theory Wal_Sync
  imports Wal
begin

text \<open>
  Group commit: \<open>sync_through\<close> of \<open>wal.rs\<close> as many threads run it. The critical sections under
  the mutex \<open>sync_state\<close> are the steps; appending takes the file lock and is a step of its own,
  as is the operating system's sync between releasing the mutex and taking it again. Waiting on
  the condition variable ends when another thread signals it.
\<close>

datatype sync_pc =
    Idle
  | Want lsn
  | Waiting lsn
  | Syncing lsn lsn
  | Synced lsn lsn bool
  | Done lsn bool

text \<open>
  \<open>gs_disk_lsn\<close> is no field of the code: it is the highest LSN whose record an fsync that
  succeeded has put on disk. \<open>Syncing l target\<close> is a thread between the two critical sections,
  \<open>Synced l target ok\<close> the same thread after the operating system has returned.
\<close>

record group_state =
  gs_next_lsn :: lsn
  gs_durable_lsn :: lsn
  gs_syncing :: bool
  gs_disk_lsn :: lsn
  gs_threads :: "nat \<Rightarrow> sync_pc"

fun wake :: "sync_pc \<Rightarrow> sync_pc" where
  "wake (Waiting l) = Want l"
| "wake pc = pc"

text \<open>A new record and the call for it; the LSN counter is not exhausted.\<close>

inductive append_step :: "nat \<Rightarrow> group_state \<Rightarrow> group_state \<Rightarrow> bool" where
  append: "gs_threads g t = Idle \<Longrightarrow> gs_next_lsn g \<noteq> - 1 \<Longrightarrow>
    append_step t g (g\<lparr>gs_next_lsn := gs_next_lsn g + 1,
      gs_threads := (gs_threads g)(t := Want (gs_next_lsn g))\<rparr>)"

inductive sync_step :: "nat \<Rightarrow> group_state \<Rightarrow> group_state \<Rightarrow> bool" where
  durable: "gs_threads g t = Want l \<Longrightarrow> l \<le> gs_durable_lsn g \<Longrightarrow>
    sync_step t g (g\<lparr>gs_threads := (gs_threads g)(t := Done l True)\<rparr>)"
| wait: "gs_threads g t = Want l \<Longrightarrow> gs_durable_lsn g < l \<Longrightarrow> gs_syncing g \<Longrightarrow>
    sync_step t g (g\<lparr>gs_threads := (gs_threads g)(t := Waiting l)\<rparr>)"
| start: "gs_threads g t = Want l \<Longrightarrow> gs_durable_lsn g < l \<Longrightarrow> \<not> gs_syncing g \<Longrightarrow>
    sync_step t g (g\<lparr>gs_syncing := True,
      gs_threads := (gs_threads g)(t := Syncing l (sat_sub (gs_next_lsn g) 1))\<rparr>)"
| fsync_ok: "gs_threads g t = Syncing l target \<Longrightarrow>
    sync_step t g (g\<lparr>gs_disk_lsn := sat_sub (gs_next_lsn g) 1,
      gs_threads := (gs_threads g)(t := Synced l target True)\<rparr>)"
| fsync_failed: "gs_threads g t = Syncing l target \<Longrightarrow>
    sync_step t g (g\<lparr>gs_threads := (gs_threads g)(t := Synced l target False)\<rparr>)"
| publish: "gs_threads g t = Synced l target True \<Longrightarrow>
    sync_step t g (g\<lparr>gs_syncing := False, gs_durable_lsn := max (gs_durable_lsn g) target,
      gs_threads := (\<lambda>u. wake (gs_threads g u))(t := Want l)\<rparr>)"
| fail: "gs_threads g t = Synced l target False \<Longrightarrow>
    sync_step t g (g\<lparr>gs_syncing := False,
      gs_threads := (\<lambda>u. wake (gs_threads g u))(t := Done l False)\<rparr>)"

definition group_start :: "lsn \<Rightarrow> group_state" where
  "group_start next_lsn = \<lparr> gs_next_lsn = next_lsn, gs_durable_lsn = 0, gs_syncing = False, gs_disk_lsn = 0,
     gs_threads = (\<lambda>_. Idle) \<rparr>"

inductive group_reachable :: "lsn \<Rightarrow> group_state \<Rightarrow> bool" for first where
  init: "group_reachable first (group_start first)"
| append: "group_reachable first g \<Longrightarrow> append_step t g g' \<Longrightarrow> group_reachable first g'"
| sync: "group_reachable first g \<Longrightarrow> sync_step t g g' \<Longrightarrow> group_reachable first g'"

inductive_cases append_stepE: "append_step t g g'"
inductive_cases sync_stepE: "sync_step t g g'"

section \<open>The invariant\<close>

fun busy :: "sync_pc \<Rightarrow> bool" where
  "busy (Syncing _ _) = True"
| "busy (Synced _ _ _) = True"
| "busy _ = False"

definition pc_ok :: "group_state \<Rightarrow> sync_pc \<Rightarrow> bool" where
  "pc_ok g pc = (case pc of
     Idle \<Rightarrow> True
   | Want l \<Rightarrow> l < gs_next_lsn g
   | Waiting l \<Rightarrow> l < gs_next_lsn g \<and> gs_syncing g
   | Syncing l target \<Rightarrow> l \<le> target \<and> target < gs_next_lsn g \<and> gs_syncing g \<and> gs_durable_lsn g < l
   | Synced l target ok \<Rightarrow> l \<le> target \<and> target < gs_next_lsn g \<and> gs_syncing g \<and> gs_durable_lsn g < l \<and> (ok \<longrightarrow> target \<le> gs_disk_lsn g)
   | Done l ok \<Rightarrow> ok \<longrightarrow> l \<le> gs_disk_lsn g)"

definition group_inv :: "group_state \<Rightarrow> bool" where
  "group_inv g \<longleftrightarrow> gs_durable_lsn g \<le> gs_disk_lsn g \<and> gs_disk_lsn g < gs_next_lsn g \<and>
     (\<forall>t. pc_ok g (gs_threads g t)) \<and>
     (\<forall>t u. busy (gs_threads g t) \<longrightarrow> busy (gs_threads g u) \<longrightarrow> t = u) \<and>
     (gs_syncing g \<longleftrightarrow> (\<exists>t. busy (gs_threads g t)))"

lemma sat_pred: "l < n \<Longrightarrow> l \<le> sat_sub n 1" "l < n \<Longrightarrow> sat_sub n 1 < n"
  by (auto simp: word_le_nat_alt word_less_nat_alt unat_sat_sub)

lemma group_invD:
  assumes "group_inv g"
  shows "gs_durable_lsn g \<le> gs_disk_lsn g" "gs_disk_lsn g < gs_next_lsn g" "pc_ok g (gs_threads g t)"
    "busy (gs_threads g t) \<Longrightarrow> busy (gs_threads g u) \<Longrightarrow> t = u" "gs_syncing g \<longleftrightarrow> (\<exists>t. busy (gs_threads g t))"
  using assms by (auto simp: group_inv_def)

lemma busy_wake [simp]: "busy (wake pc) \<longleftrightarrow> busy pc"
  by (cases pc) simp_all

lemma pc_ok_mono:
  assumes "pc_ok g pc" "gs_next_lsn g \<le> gs_next_lsn g'" "gs_disk_lsn g \<le> gs_disk_lsn g'"
    "gs_syncing g \<Longrightarrow> gs_syncing g'" "gs_durable_lsn g' = gs_durable_lsn g"
  shows "pc_ok g' pc"
  using assms by (cases pc) (auto simp: pc_ok_def dest: order.strict_trans2 order.trans)

text \<open>A thread moves and the shared state only grows.\<close>

lemma group_inv_move:
  assumes inv: "group_inv g" and n: "gs_next_lsn g \<le> gs_next_lsn g'" "gs_disk_lsn g \<le> gs_disk_lsn g'"
      "gs_durable_lsn g' = gs_durable_lsn g" "gs_disk_lsn g' < gs_next_lsn g'"
    and t: "gs_threads g' = (gs_threads g)(t := pc)" "pc_ok g' pc"
    and b: "gs_syncing g' \<longleftrightarrow> gs_syncing g \<or> busy pc" "busy pc \<Longrightarrow> gs_syncing g \<Longrightarrow> busy (gs_threads g t)"
      "busy (gs_threads g t) \<Longrightarrow> busy pc"
  shows "group_inv g'"
proof -
  note i = group_invD [OF inv]
  have "pc_ok g' (gs_threads g u)" for u
    by (rule pc_ok_mono [OF i(3) n(1,2) _ n(3)]) (use b(1) in simp)
  then have "pc_ok g' (gs_threads g' u)" for u using t by simp
  moreover have "gs_syncing g' \<longleftrightarrow> (\<exists>u. busy (gs_threads g' u))"
    using i(5) b unfolding t(1) fun_upd_def by (metis (full_types))
  moreover have "u = v" if "busy (gs_threads g' u)" "busy (gs_threads g' v)" for u v
    using that i(4) i(5) b t(1) by (auto split: if_splits)
  moreover have "gs_durable_lsn g' \<le> gs_disk_lsn g'" using order.trans [OF i(1) n(2)] n(3) by simp
  ultimately show ?thesis using n(4) unfolding group_inv_def by blast
qed

text \<open>The thread that syncs leaves, and wakes the others.\<close>

lemma group_inv_leave:
  assumes inv: "group_inv g" and t: "busy (gs_threads g t)" and pc: "\<not> busy pc"
    and d: "gs_durable_lsn g \<le> d" "d \<le> gs_disk_lsn g"
  defines "g' \<equiv> g\<lparr>gs_syncing := False, gs_durable_lsn := d, gs_threads := (\<lambda>u. wake (gs_threads g u))(t := pc)\<rparr>"
  assumes ok: "pc_ok g' pc"
  shows "group_inv g'"
proof -
  note i = group_invD [OF inv]
  have nb: "\<not> busy (gs_threads g u)" if "u \<noteq> t" for u using i(4) [OF t, of u] that by auto
  have "pc_ok g' (wake (gs_threads g u))" if "u \<noteq> t" for u
    using i(3) [of u] nb [OF that] by (cases "gs_threads g u") (simp_all add: pc_ok_def g'_def)
  then show ?thesis using i(1,2) d ok nb pc by (auto simp: group_inv_def g'_def)
qed

lemma sync_step_inv:
  assumes "sync_step t g g'" "group_inv g"
  shows "group_inv g'"
  using assms(1)
proof cases
  case (durable l)
  then show ?thesis
    by (intro group_inv_move [OF assms(2), of _ t "Done l True"])
       (use group_invD(1,2) [OF assms(2)] in \<open>auto simp: pc_ok_def\<close>)
next
  case (wait l)
  then show ?thesis
    by (intro group_inv_move [OF assms(2), of _ t "Waiting l"])
       (use group_invD(2) [OF assms(2)] group_invD(3) [OF assms(2), of t] in \<open>auto simp: pc_ok_def\<close>)
next
  case (start l)
  have "l < gs_next_lsn g" using group_invD(3) [OF assms(2), of t] start by (simp add: pc_ok_def)
  then have "l \<le> sat_sub (gs_next_lsn g) 1" "sat_sub (gs_next_lsn g) 1 < gs_next_lsn g"
    by (rule sat_pred)+
  with start show ?thesis
    by (intro group_inv_move [OF assms(2), of _ t "Syncing l (sat_sub (gs_next_lsn g) 1)"])
       (use group_invD(2) [OF assms(2)] in \<open>auto simp: pc_ok_def\<close>)
next
  case (fsync_ok l target)
  have p: "l \<le> target" "target < gs_next_lsn g" "gs_syncing g" "gs_durable_lsn g < l"
    using group_invD(3) [OF assms(2), of t] fsync_ok by (simp_all add: pc_ok_def)
  have "gs_disk_lsn g \<le> sat_sub (gs_next_lsn g) 1" "target \<le> sat_sub (gs_next_lsn g) 1" "sat_sub (gs_next_lsn g) 1 < gs_next_lsn g"
    by (rule sat_pred [OF group_invD(2) [OF assms(2)]] sat_pred [OF p(2)])+
  with fsync_ok p show ?thesis
    by (intro group_inv_move [OF assms(2), of _ t "Synced l target True"]) (auto simp: pc_ok_def)
next
  case (fsync_failed l target)
  then show ?thesis
    by (intro group_inv_move [OF assms(2), of _ t "Synced l target False"])
       (use group_invD(2) [OF assms(2)] group_invD(3) [OF assms(2), of t] in \<open>auto simp: pc_ok_def\<close>)
next
  case (publish l target)
  have "target \<le> gs_disk_lsn g" "l < gs_next_lsn g"
    using group_invD(3) [OF assms(2), of t] publish by (auto simp: pc_ok_def)
  then show ?thesis
    using group_inv_leave [OF assms(2), of t "Want l" "max (gs_durable_lsn g) target"] publish group_invD(1) [OF assms(2)]
    by (auto simp: pc_ok_def)
next
  case (fail l target)
  then show ?thesis
    using group_inv_leave [OF assms(2), of t "Done l False" "gs_durable_lsn g"] group_invD(1) [OF assms(2)]
    by (auto simp: pc_ok_def)
qed

lemma append_step_inv:
  assumes "append_step t g g'" "group_inv g"
  shows "group_inv g'"
  using assms(1)
proof cases
  case append
  have "gs_next_lsn g < gs_next_lsn g + 1" using append(3) sat_succ_max [of "gs_next_lsn g"] by (simp add: sat_succ_def)
  then show ?thesis
    by (intro group_inv_move [OF assms(2), of _ t "Want (gs_next_lsn g)"])
       (use append group_invD(2) [OF assms(2)] in \<open>auto simp: pc_ok_def dest: less_trans\<close>)
qed

lemma reachable_inv: "group_reachable first g \<Longrightarrow> 0 < first \<Longrightarrow> group_inv g"
proof (induction rule: group_reachable.induct)
  case init
  then show ?case by (simp add: group_inv_def group_start_def pc_ok_def)
qed (auto intro: append_step_inv sync_step_inv)

section \<open>Progress\<close>

fun active :: "sync_pc \<Rightarrow> bool" where
  "active Idle = False"
| "active (Done _ _) = False"
| "active _ = True"

fun wanted :: "sync_pc \<Rightarrow> lsn" where
  "wanted (Want l) = l"
| "wanted (Waiting l) = l"
| "wanted (Syncing l _) = l"
| "wanted (Synced l _ _) = l"
| "wanted _ = 0"

fun rank :: "sync_pc \<Rightarrow> nat" where
  "rank (Want _) = 3"
| "rank (Syncing _ _) = 2"
| "rank (Synced _ _ _) = 1"
| "rank _ = 0"

definition callers :: "group_state \<Rightarrow> nat set" where
  "callers g = {t. active (gs_threads g t)}"

definition unsatisfied :: "group_state \<Rightarrow> nat set" where
  "unsatisfied g = {t \<in> callers g. gs_durable_lsn g < wanted (gs_threads g t)}"

definition work :: "group_state \<Rightarrow> nat \<times> nat \<times> nat" where
  "work g = (card (callers g), card (unsatisfied g), \<Sum>t \<in> callers g. rank (gs_threads g t))"

abbreviation work_order :: "((nat \<times> nat \<times> nat) \<times> (nat \<times> nat \<times> nat)) set" where
  "work_order \<equiv> less_than <*lex*> less_than <*lex*> less_than"

lemma wake_simps [simp]: "active (wake pc) = active pc" "wanted (wake pc) = wanted pc"
  by (cases pc; simp)+

lemma work_return:
  assumes "finite (callers g)" "active (gs_threads g t)" "callers g' = callers g - {t}"
  shows "(work g', work g) \<in> work_order"
proof -
  have "t \<in> callers g" using assms(2) by (simp add: callers_def)
  then have "card (callers g') < card (callers g)" unfolding assms(3) by (rule card_Diff1_less [OF assms(1)])
  then show ?thesis by (simp add: work_def)
qed

lemma work_move:
  assumes f: "finite (callers g)" and t: "gs_threads g t = pc" "active pc" "active pc'" "wanted pc' = wanted pc" "rank pc' < rank pc"
    and g': "gs_threads g' = (gs_threads g)(t := pc')" "gs_durable_lsn g' = gs_durable_lsn g"
  shows "(work g', work g) \<in> work_order"
proof -
  have c: "callers g' = callers g" using t g'(1) by (auto simp: callers_def)
  have "unsatisfied g' = unsatisfied g" using c t g' by (auto simp: unsatisfied_def)
  moreover have "(\<Sum>u \<in> callers g. rank (gs_threads g' u)) < (\<Sum>u \<in> callers g. rank (gs_threads g u))"
    by (rule sum_strict_mono_ex1 [OF f]) (use t g'(1) in \<open>auto simp: callers_def intro!: bexI [of _ t]\<close>)
  ultimately show ?thesis using c by (simp add: work_def)
qed

lemma sync_step_work:
  assumes "sync_step t g g'" "group_inv g" "finite (callers g)"
  shows "(work g', work g) \<in> work_order \<and> finite (callers g')"
  using assms(1)
proof cases
  case (durable l)
  then have "callers g' = callers g - {t}" by (auto simp: callers_def)
  then show ?thesis using work_return [OF assms(3), of t g'] durable assms(3) by simp
next
  case (wait l)
  then have "callers g' = callers g" by (auto simp: callers_def)
  then show ?thesis using work_move [OF assms(3), of t "Want l" "Waiting l" g'] wait assms(3) by simp
next
  case (start l)
  then have "callers g' = callers g" by (auto simp: callers_def)
  then show ?thesis
    using work_move [OF assms(3), of t "Want l" "Syncing l (sat_sub (gs_next_lsn g) 1)" g'] start assms(3) by simp
next
  case (fsync_ok l target)
  then have "callers g' = callers g" by (auto simp: callers_def)
  then show ?thesis using work_move [OF assms(3), of t "Syncing l target" "Synced l target True" g'] fsync_ok assms(3) by simp
next
  case (fsync_failed l target)
  then have "callers g' = callers g" by (auto simp: callers_def)
  then show ?thesis using work_move [OF assms(3), of t "Syncing l target" "Synced l target False" g'] fsync_failed assms(3) by simp
next
  case (publish l target)
  then have c: "callers g' = callers g" by (auto simp: callers_def)
  have p: "l \<le> target" "gs_durable_lsn g < l"
    using group_invD(3) [OF assms(2), of t] publish by (simp_all add: pc_ok_def)
  have "unsatisfied g' \<subseteq> unsatisfied g" using publish c by (auto simp: unsatisfied_def split: if_splits)
  moreover have "t \<in> unsatisfied g" "t \<notin> unsatisfied g'"
    using publish p by (auto simp: unsatisfied_def callers_def not_less max.coboundedI2)
  moreover have "finite (unsatisfied g)" using assms(3) by (simp add: unsatisfied_def)
  ultimately have "card (unsatisfied g') < card (unsatisfied g)" by (intro psubset_card_mono) auto
  then show ?thesis using c assms(3) by (simp add: work_def)
next
  case (fail l target)
  then have "callers g' = callers g - {t}" by (auto simp: callers_def)
  then show ?thesis using work_return [OF assms(3), of t g'] fail assms(3) by simp
qed

lemma reachable_callers: "group_reachable first g \<Longrightarrow> 0 < first \<Longrightarrow> finite (callers g)"
proof (induction rule: group_reachable.induct)
  case init
  then show ?case by (simp add: callers_def group_start_def)
next
  case (append g t g')
  then have "callers g' \<subseteq> insert t (callers g)" by (auto simp: callers_def elim!: append_stepE split: if_splits)
  then show ?case using append finite_subset by blast
next
  case (sync g t g')
  then show ?case using sync_step_work reachable_inv by blast
qed

lemma not_stuck:
  assumes "group_inv g" "active (gs_threads g t)"
  shows "\<exists>u g'. sync_step u g g'"
proof (cases "gs_syncing g")
  case True
  then obtain u where "busy (gs_threads g u)" using group_invD(5) [OF assms(1)] by blast
  then show ?thesis
    by (cases "gs_threads g u") (auto intro: sync_step.intros, metis (full_types) sync_step.publish sync_step.fail)
next
  case False
  then obtain l where "gs_threads g t = Want l"
    using assms(2) group_invD(3) [OF assms(1), of t] by (cases "gs_threads g t") (auto simp: pc_ok_def)
  then show ?thesis using False by (metis sync_step.durable sync_step.start not_le)
qed

text \<open>
  C14. Sharing a sync does not weaken durability: in every reachable state of any number of
  threads, a call of \<open>sync_through\<close> that has returned success for an LSN returned it after that
  record was on disk.
\<close>

theorem group_commit_durable:
  assumes "group_reachable first g" "0 < first" "gs_threads g t = Done l True"
  shows "l \<le> gs_disk_lsn g"
  using group_invD(3) [OF reachable_inv [OF assms(1,2)], of t] assms(3) by (simp add: pc_ok_def)

text \<open>
  C16. Group commit makes progress: from every reachable state, if no more records are appended,
  there is no infinite run whatever syncs fail, and as long as the call of some thread has not
  returned, some thread can take a step. No wake-up is lost.
\<close>

theorem group_commit_progress:
  assumes "group_reachable first g" "0 < first"
  shows "(\<nexists>run. run 0 = g \<and> (\<forall>i. \<exists>t. sync_step t (run i) (run (Suc i)))) \<and>
    (\<forall>t. active (gs_threads g t) \<longrightarrow> (\<exists>u g'. sync_step u g g'))"
proof
  note r = reachable_inv [OF assms] reachable_callers [OF assms]
  show "\<nexists>run. run 0 = g \<and> (\<forall>i. \<exists>t. sync_step t (run i) (run (Suc i)))"
  proof
    assume "\<exists>run. run 0 = g \<and> (\<forall>i. \<exists>t. sync_step t (run i) (run (Suc i)))"
    then obtain run where run: "run 0 = g" "\<And>i. \<exists>t. sync_step t (run i) (run (Suc i))" by blast
    have "group_inv (run i) \<and> finite (callers (run i))" for i
      by (induction i) (use r run sync_step_inv sync_step_work in \<open>blast+\<close>)
    then have "(work (run (Suc i)), work (run i)) \<in> work_order" for i using run(2) sync_step_work by blast
    moreover have "wf work_order" by (intro wf_lex_prod wf_less_than)
    ultimately show False unfolding wf_iff_no_infinite_down_chain by fastforce
  qed
  show "\<forall>t. active (gs_threads g t) \<longrightarrow> (\<exists>u g'. sync_step u g g')" using not_stuck [OF r(1)] by blast
qed

text \<open>Two threads share the sync of one of them.\<close>

definition shared_sync :: group_state where
  "shared_sync = \<lparr> gs_next_lsn = 3, gs_durable_lsn = 2, gs_syncing = False, gs_disk_lsn = 2,
     gs_threads = (\<lambda>_. Idle)(0 := Done 1 True, 1 := Want 2) \<rparr>"

lemma shared_sync_reachable: "group_reachable 1 shared_sync"
proof -
  let ?t0 = "(\<lambda>_. Idle)(0 := Want 1) :: nat \<Rightarrow> sync_pc"
  let ?g = "\<lambda>n d b k f. \<lparr> gs_next_lsn = n, gs_durable_lsn = d, gs_syncing = b, gs_disk_lsn = k, gs_threads = f \<rparr>"
  have e: "a = b \<Longrightarrow> group_reachable 1 a \<Longrightarrow> group_reachable 1 b" for a b by simp
  have g1: "group_reachable 1 (?g 2 0 False 0 ?t0)"
    by (rule e [OF _ group_reachable.append [OF group_reachable.init append_step.append [of _ 0]]])
       (simp_all add: group_start_def)
  have g2: "group_reachable 1 (?g 3 0 False 0 (?t0(1 := Want 2)))"
    by (rule e [OF _ group_reachable.append [OF g1 append_step.append [of _ 1]]]) simp_all
  have g3: "group_reachable 1 (?g 3 0 True 0 (?t0(1 := Want 2, 0 := Syncing 1 2)))"
    by (rule e [OF _ group_reachable.sync [OF g2 sync_step.start [of _ 0 1]]]) (simp_all add: sat_sub_def word_le_nat_alt)
  have g4: "group_reachable 1 (?g 3 0 True 2 (?t0(1 := Want 2, 0 := Synced 1 2 True)))"
    by (rule e [OF _ group_reachable.sync [OF g3 sync_step.fsync_ok [of _ 0 1 2]]]) (simp_all add: sat_sub_def word_le_nat_alt)
  have g5: "group_reachable 1 (?g 3 2 False 2 (?t0(1 := Want 2, 0 := Want 1)))"
    by (rule e [OF _ group_reachable.sync [OF g4 sync_step.publish [of _ 0 1 2]]]) (simp_all add: max_def fun_eq_iff)
  show ?thesis
    by (rule e [OF _ group_reachable.sync [OF g5 sync_step.durable [of _ 0 1]]])
       (simp_all add: shared_sync_def fun_eq_iff word_le_nat_alt)
qed

theorem group_commit_durable_witness: "gs_threads shared_sync 0 = Done 1 True \<and> 1 \<le> gs_disk_lsn shared_sync"
  using group_commit_durable [OF shared_sync_reachable, of 0 1] by (simp add: shared_sync_def)

theorem group_commit_progress_witness: "\<exists>u g'. sync_step u shared_sync g'"
  using group_commit_progress [OF shared_sync_reachable] by (force simp: shared_sync_def)

end
