(* ===== verification/Wal_Recovery.thy ===== *)
theory Wal_Recovery
  imports Wal_Crash Store_Reserve
begin

text \<open>
  Crash recovery of \<open>wal.rs\<close>: \<open>recover_with_outcomes\<close> scans the log twice, first for the
  outcomes of transactions and the redo point, then to write the committed page images into the
  page store. Also here: the publication of a checkpoint by \<open>Checkpointer\<close>. Of the recovery
  report the durations, the memory use and the fields that only the caller fills are left out.
\<close>

section \<open>Recovery\<close>

record recovery_report =
  rr_records_scanned :: nat
  rr_pages_replayed :: nat
  rr_free_pages_detached :: u64
  rr_uncommitted_skipped :: nat
  rr_committed_transactions :: nat
  rr_truncated_bytes :: nat
  rr_wal_bytes_scanned :: u64
  rr_scan_passes :: nat
  rr_peak_record_bytes :: nat
  rr_transaction_outcomes :: nat
  rr_terminal_outcome_records :: nat
  rr_max_record_transaction :: u64
  rr_redo_lsn :: lsn
  rr_end_lsn :: lsn

text \<open>The first pass: the outcomes, the redo point and the largest transaction of the log.\<close>

record first_pass =
  fp_outcomes :: recovered_outcomes
  fp_terminal_outcome_records :: nat
  fp_redo_lsn :: lsn
  fp_max_record_transaction :: u64

definition first_pass_default :: first_pass where
  "first_pass_default = \<lparr> fp_outcomes = outcomes_default, fp_terminal_outcome_records = 0, fp_redo_lsn = 0,
     fp_max_record_transaction = 0 \<rparr>"

definition note_outcome :: "wal_record \<Rightarrow> tx_status \<Rightarrow> (first_pass, page_error, unit) sm" where
  "note_outcome r status p =
     (if wr_transaction r = - 1 then (p, Err (WalCorruption (wr_lsn r)))
      else (p\<lparr>fp_outcomes := fst (outcomes_push (fp_outcomes p) (wr_transaction r) status),
              fp_terminal_outcome_records := fp_terminal_outcome_records p + 1\<rparr>, Ok ()))"

definition first_visitor :: "first_pass visitor" where
  "first_visitor r p =
     (let p = (if wr_kind r \<noteq> Checkpoint
               then p\<lparr>fp_max_record_transaction := max (fp_max_record_transaction p) (wr_transaction r)\<rparr> else p)
      in case wr_kind r of
           Commit \<Rightarrow> note_outcome r Committed p
         | Abort \<Rightarrow> note_outcome r Aborted p
         | Checkpoint \<Rightarrow> (p\<lparr>fp_redo_lsn := wr_transaction r\<rparr>, Ok ())
         | PageImage \<Rightarrow> (p, Ok ()))"

text \<open>The second pass: the store, whether its free list has been detached, and the report.\<close>

type_synonym second_pass = "page_store \<times> bool \<times> recovery_report"

definition detach_once :: "(bytes \<Rightarrow> u32) \<Rightarrow> (second_pass, page_error, unit) sm" where
  "detach_once crc p =
     (case p of (s, detached, report) \<Rightarrow>
        if detached then (p, Ok ())
        else (case detach_free_list_for_recovery crc s of
                (s, Ok n) \<Rightarrow> ((s, True, report\<lparr>rr_free_pages_detached := n\<rparr>), Ok ())
              | (s, Err e) \<Rightarrow> ((s, detached, report), Err e)
              | (s, Panic) \<Rightarrow> ((s, detached, report), Panic)))"

definition on_store :: "(page_store, page_error, 'a) sm \<Rightarrow> (second_pass, page_error, 'a) sm" where
  "on_store m p = (case p of (s, detached, report) \<Rightarrow> case m s of (s, r) \<Rightarrow> ((s, detached, report), r))"

definition replay_image :: "(bytes \<Rightarrow> u32) \<Rightarrow> wal_record \<Rightarrow> (second_pass, page_error, unit) sm" where
  "replay_image crc r =
     m_then (detach_once crc)
       (if wr_page_id r = - 1 then m_err (WalCorruption (wr_lsn r))
        else m_then (on_store (store_reserve (wr_page_id r + 1)))
            (m_then (on_store (write_page crc (wr_page_id r) (wr_payload r)))
              (m_modify (\<lambda>(s, detached, report). (s, detached, report\<lparr>rr_pages_replayed := rr_pages_replayed report + 1\<rparr>)))))"

definition second_visitor :: "(bytes \<Rightarrow> u32) \<Rightarrow> lsn \<Rightarrow> recovered_outcomes \<Rightarrow> second_pass visitor" where
  "second_visitor crc redo_lsn outcomes r p =
     (case p of (s, detached, report) \<Rightarrow>
        if wr_kind r \<noteq> PageImage then (p, Ok ())
        else if wr_lsn r < redo_lsn then (p, Ok ())
        else if wr_transaction r \<noteq> 0 \<and> outcomes_status outcomes (wr_transaction r) \<noteq> Some Committed
        then ((s, detached, report\<lparr>rr_uncommitted_skipped := rr_uncommitted_skipped report + 1\<rparr>), Ok ())
        else if length (wr_payload r) \<noteq> ps_page_size s
        then (p, Err (ShortRead (wr_page_id r) (length (wr_payload r)) (ps_page_size s)))
        else replay_image crc r p)"

definition second_scan ::
  "(bytes \<Rightarrow> u32) \<Rightarrow> nat \<Rightarrow> lsn \<Rightarrow> recovered_outcomes \<Rightarrow> wal_scan_report \<Rightarrow> recovery_report \<Rightarrow>
     wal \<Rightarrow> page_store \<Rightarrow> (wal \<times> page_store) \<times> (recovery_report \<times> recovered_outcomes) res" where
  "second_scan crc max_body_bytes redo_lsn outcomes first report w s =
     (case scan_records crc max_body_bytes False (second_visitor crc redo_lsn outcomes) (s, False, report) w of
        (w, (s, _, report), Ok second) \<Rightarrow>
          if sr_truncated_bytes second \<noteq> 0 \<or> sr_records second \<noteq> sr_records first \<or> sr_last_lsn second \<noteq> sr_last_lsn first
          then ((w, s), Err (WalCorruption (case sr_last_lsn first of None \<Rightarrow> 0 | Some l \<Rightarrow> l)))
          else let report = report\<lparr>rr_peak_record_bytes := max (rr_peak_record_bytes report) (sr_peak_record_bytes second)\<rparr>
               in (case store_flush crc s of
                     (s, Ok _) \<Rightarrow> ((w\<lparr>w_redo_lsn := redo_lsn\<rparr>, s), Ok (report, outcomes))
                   | (s, Err e) \<Rightarrow> ((w, s), Err e)
                   | (s, Panic) \<Rightarrow> ((w, s), Panic))
      | (w, (s, _, _), Err e) \<Rightarrow> ((w, s), Err e)
      | (w, (s, _, _), Panic) \<Rightarrow> ((w, s), Panic))"

definition recover_with_outcomes ::
  "(bytes \<Rightarrow> u32) \<Rightarrow> wal \<Rightarrow> page_store \<Rightarrow> (wal \<times> page_store) \<times> (recovery_report \<times> recovered_outcomes) res" where
  "recover_with_outcomes crc w s =
     (let wal_bytes_scanned = wal_size_bytes w;
          max_body_bytes = RECORD_FIXED_BODY_BYTES + ps_page_size s
      in case scan_records crc max_body_bytes True first_visitor first_pass_default w of
           (w, p, Ok first) \<Rightarrow>
             (case normalize (fp_outcomes p) of
                (_, Some _) \<Rightarrow> ((w, s), Err (WalCorruption (case sr_last_lsn first of None \<Rightarrow> 0 | Some l \<Rightarrow> l)))
              | (outcomes, None) \<Rightarrow>
                  let redo_lsn = (if sb_checkpoint_lsn (ps_meta s) \<ge> fp_redo_lsn p then fp_redo_lsn p else 0);
                      report = \<lparr> rr_records_scanned = sr_records first, rr_pages_replayed = 0, rr_free_pages_detached = 0,
                        rr_uncommitted_skipped = 0, rr_committed_transactions = committed_count outcomes,
                        rr_truncated_bytes = sr_truncated_bytes first, rr_wal_bytes_scanned = wal_bytes_scanned,
                        rr_scan_passes = 2, rr_peak_record_bytes = sr_peak_record_bytes first,
                        rr_transaction_outcomes = outcomes_len outcomes,
                        rr_terminal_outcome_records = fp_terminal_outcome_records p,
                        rr_max_record_transaction = fp_max_record_transaction p, rr_redo_lsn = redo_lsn,
                        rr_end_lsn = (case sr_last_lsn first of None \<Rightarrow> 0 | Some l \<Rightarrow> l) \<rparr>
                  in second_scan crc max_body_bytes redo_lsn outcomes first report w s)
         | (w, _, Err e) \<Rightarrow> ((w, s), Err e)
         | (w, _, Panic) \<Rightarrow> ((w, s), Panic))"

definition recover :: "(bytes \<Rightarrow> u32) \<Rightarrow> wal \<Rightarrow> page_store \<Rightarrow> (wal \<times> page_store) \<times> recovery_report res" where
  "recover crc w s = (case recover_with_outcomes crc w s of (ws, r) \<Rightarrow> (ws, rmap fst r))"

section \<open>Checkpoints\<close>

record checkpoint_report =
  cr_redo_lsn :: lsn
  cr_checkpoint_lsn :: lsn
  cr_pages_flushed :: u64
  cr_wal_bytes_before :: u64
  cr_wal_truncated :: bool

text \<open>
  \<open>finish_checkpoint\<close> on the log and the store: \<open>sync_ok\<close> and \<open>fault\<close> are the outcomes of the
  syncs and of the append; \<open>None\<close> is a sync that does not return.
\<close>

definition finish_checkpoint ::
  "(bytes \<Rightarrow> u32) \<Rightarrow> nat option \<Rightarrow> bool \<Rightarrow> page_id \<Rightarrow> lsn \<Rightarrow> u64 \<Rightarrow> bool \<Rightarrow> wal \<Rightarrow> page_store \<Rightarrow>
     ((wal \<times> page_store) \<times> checkpoint_report res) option" where
  "finish_checkpoint crc fault sync_ok root_page redo_lsn pages_flushed do_truncate w s =
     (case wal_sync sync_ok w of
        None \<Rightarrow> None
      | Some (w, Err e) \<Rightarrow> Some ((w, s), Err e)
      | Some (w, Panic) \<Rightarrow> Some ((w, s), Panic)
      | Some (w, Ok _) \<Rightarrow>
          (case store_flush crc s of
             (s, Err e) \<Rightarrow> Some ((w, s), Err e)
           | (s, Panic) \<Rightarrow> Some ((w, s), Panic)
           | (s, Ok _) \<Rightarrow>
               let wal_bytes_before = wal_size_bytes w in
               (case wal_checkpoint crc fault sync_ok redo_lsn root_page w of
                  None \<Rightarrow> None
                | Some (w, Err e) \<Rightarrow> Some ((w, s), Err e)
                | Some (w, Panic) \<Rightarrow> Some ((w, s), Panic)
                | Some (w, Ok checkpoint_lsn) \<Rightarrow>
                    (case publish_root crc root_page (w_next_lsn w) s of
                       (s, Err e) \<Rightarrow> Some ((w, s), Err e)
                     | (s, Panic) \<Rightarrow> Some ((w, s), Panic)
                     | (s, Ok _) \<Rightarrow>
                         (case (if do_truncate then wal_reset w else (w, Ok False)) of
                            (w, r) \<Rightarrow> Some ((w, s), rmap (\<lambda>wal_truncated.
                              \<lparr> cr_redo_lsn = redo_lsn, cr_checkpoint_lsn = checkpoint_lsn, cr_pages_flushed = pages_flushed,
                                cr_wal_bytes_before = wal_bytes_before, cr_wal_truncated = wal_truncated \<rparr>) r)))))) "

section \<open>What the first pass collects\<close>

definition committed_in :: "wal_record list \<Rightarrow> u64 \<Rightarrow> bool" where
  "committed_in recs x \<longleftrightarrow> (\<exists>r \<in> set recs. wr_kind r = Commit \<and> wr_transaction r = x)"

definition aborted_in :: "wal_record list \<Rightarrow> u64 \<Rightarrow> bool" where
  "aborted_in recs x \<longleftrightarrow> (\<exists>r \<in> set recs. wr_kind r = Abort \<and> wr_transaction r = x)"

fun checkpoint_redo :: "lsn \<Rightarrow> wal_record list \<Rightarrow> lsn" where
  "checkpoint_redo l [] = l"
| "checkpoint_redo l (r # rs) = checkpoint_redo (if wr_kind r = Checkpoint then wr_transaction r else l) rs"

fun outcome_entries :: "wal_record list \<Rightarrow> recovered_outcome list" where
  "outcome_entries [] = []"
| "outcome_entries (r # rs) =
     (if wr_kind r = Commit then outcome_committed (wr_transaction r) # outcome_entries rs
      else if wr_kind r = Abort then outcome_aborted (wr_transaction r) # outcome_entries rs
      else outcome_entries rs)"

definition decided_ids_ok :: "wal_record list \<Rightarrow> bool" where
  "decided_ids_ok recs \<longleftrightarrow> (\<forall>r \<in> set recs. wr_kind r = Commit \<or> wr_kind r = Abort \<longrightarrow> wr_transaction r \<noteq> - 1)"

lemma first_pass_run:
  assumes "decided_ids_ok recs"
  obtains p' where "visit_all first_visitor recs p = (p', Ok ())"
    "fp_redo_lsn p' = checkpoint_redo (fp_redo_lsn p) recs"
    "fp_outcomes p' = (fp_outcomes p)\<lparr>ro_entries := ro_entries (fp_outcomes p) @ outcome_entries recs\<rparr>"
  using assms
proof (induction recs arbitrary: p thesis)
  case Nil
  from Nil(1) [of p] show ?case by simp
next
  case (Cons r rs)
  have ok: "wr_kind r = Commit \<or> wr_kind r = Abort \<Longrightarrow> wr_transaction r \<noteq> - 1" "decided_ids_ok rs"
    using Cons.prems(2) by (auto simp: decided_ids_ok_def)
  obtain p1 where p1: "first_visitor r p = (p1, Ok ())"
    "fp_redo_lsn p1 = (if wr_kind r = Checkpoint then wr_transaction r else fp_redo_lsn p)"
    "\<And>es. (fp_outcomes p1)\<lparr>ro_entries := es\<rparr> = (fp_outcomes p)\<lparr>ro_entries := es\<rparr>"
    "ro_entries (fp_outcomes p1) @ outcome_entries rs = ro_entries (fp_outcomes p) @ outcome_entries (r # rs)"
    using ok(1) by (cases "wr_kind r")
      (auto simp: first_visitor_def note_outcome_def outcomes_push_def outcome_new_def Let_def)
  show ?case
    by (rule Cons.IH [of p1, OF _ ok(2)], rule Cons.prems(1))
      (use p1 in \<open>simp_all add: m_bind_def\<close>)
qed

lemma outcome_entries_set:
  "outcome_committed x \<in> set (outcome_entries recs) \<longleftrightarrow> committed_in recs x"
  "outcome_aborted x \<in> set (outcome_entries recs) \<longleftrightarrow> aborted_in recs x"
proof -
  have "outcome_committed a \<noteq> outcome_aborted b" "outcome_aborted b \<noteq> outcome_committed a" for a b
    by (metis outcome_status_new tx_status.distinct)+
  moreover have "outcome_committed a = outcome_committed b \<longleftrightarrow> a = b" "outcome_aborted a = outcome_aborted b \<longleftrightarrow> a = b" for a b
    by (metis outcome_xid_new)+
  ultimately show "outcome_committed x \<in> set (outcome_entries recs) \<longleftrightarrow> committed_in recs x"
    "outcome_aborted x \<in> set (outcome_entries recs) \<longleftrightarrow> aborted_in recs x"
    by (induction recs) (auto simp: committed_in_def aborted_in_def)
qed

lemma normalize_consistent:
  assumes "\<And>x. \<not> (outcome_committed x \<in> set (ro_entries r) \<and> outcome_aborted x \<in> set (ro_entries r))" "ro_start r = 0"
  obtains r' where "normalize r = (r', None)" "outcomes_wf r'" "set (live_entries r') = set (ro_entries r)"
proof -
  let ?d = "dedup [] (sort (ro_entries r))"
  obtain r' res where n: "normalize r = (r', res)" by fastforce
  note d = normalize_dedup [OF n]
  note ok = dedup_correct [of "sort (ro_entries r)" "[]", simplified]
  have "res = None"
  proof (rule ccontr)
    assume "res \<noteq> None"
    then obtain x where "?d = (fst ?d, Some x)" using d by (metis option.exhaust prod.collapse)
    from ok(2) [OF this] obtain a b where ab: "a \<in> set (ro_entries r)" "b \<in> set (ro_entries r)"
      "outcome_xid a = x" "outcome_xid b = x" "outcome_status a \<noteq> outcome_status b" by auto
    then have "{a, b} = {outcome_committed x, outcome_aborted x}"
      using outcome_status_cases [of a] outcome_status_cases [of b]
      by (metis doubleton_eq_iff outcome_eqI outcome_status_new outcome_xid_new)
    with ab assms(1) [of x] show False by (auto simp: doubleton_eq_iff)
  qed
  moreover have "?d = (fst ?d, None)" using d calculation by (metis prod.collapse)
  note ok(1) [OF this]
  ultimately show thesis using that [of r'] n d assms(2) by (simp add: outcomes_wf_def live_entries_def)
qed

lemma outcomes_status_committed:
  assumes "outcomes_wf r" "set (live_entries r) = set (outcome_entries recs)"
  shows "outcomes_status r x = Some Committed \<longleftrightarrow> committed_in recs x"
    "outcomes_status r x = Some Aborted \<longleftrightarrow> aborted_in recs x"
proof -
  have "(\<exists>a \<in> S. outcome_xid a = x \<and> outcome_status a = Committed) \<longleftrightarrow> outcome_committed x \<in> S"
    "(\<exists>a \<in> S. outcome_xid a = x \<and> outcome_status a = Aborted) \<longleftrightarrow> outcome_aborted x \<in> S" for S
    by (metis outcome_eqI outcome_status_new outcome_xid_new)+
  then show "outcomes_status r x = Some Committed \<longleftrightarrow> committed_in recs x"
    "outcomes_status r x = Some Aborted \<longleftrightarrow> aborted_in recs x"
    using assms by (simp_all add: outcomes_status_map outcomes_map_Some outcome_entries_set)
qed

section \<open>What the second pass writes\<close>

definition replays :: "lsn \<Rightarrow> (u64 \<Rightarrow> bool) \<Rightarrow> wal_record \<Rightarrow> bool" where
  "replays redo committed r \<longleftrightarrow>
     wr_kind r = PageImage \<and> redo \<le> wr_lsn r \<and> (wr_transaction r = 0 \<or> committed (wr_transaction r))"

fun last_image :: "lsn \<Rightarrow> (u64 \<Rightarrow> bool) \<Rightarrow> page_id \<Rightarrow> wal_record list \<Rightarrow> bytes option" where
  "last_image redo committed q [] = None"
| "last_image redo committed q (r # rs) =
     (case last_image redo committed q rs of
        Some img \<Rightarrow> Some img
      | None \<Rightarrow> if replays redo committed r \<and> wr_page_id r = q then Some (wr_payload r) else None)"

definition replayable :: "nat \<Rightarrow> wal_record \<Rightarrow> bool" where
  "replayable page_size r \<longleftrightarrow> length (wr_payload r) = page_size \<and> (unat (wr_page_id r) + 1) * page_size < 2 ^ 64"

definition replayed :: "(bytes \<Rightarrow> u32) \<Rightarrow> (page_id \<Rightarrow> bytes option) \<Rightarrow> page_store \<Rightarrow> page_store \<Rightarrow> bool" where
  "replayed crc img s s' \<longleftrightarrow>
     (\<forall>q. q \<noteq> 0 \<longrightarrow> (case img q of
        Some b \<Rightarrow> q < sb_page_count (ps_meta s') \<and> (\<exists>g. page_image s' q = Some (finalize crc b g))
      | None \<Rightarrow> q < sb_page_count (ps_meta s) \<longrightarrow> page_image s q \<noteq> None \<longrightarrow> page_image s' q = page_image s q))"

lemma replay_image_run:
  assumes s: "store_ok s" "dirty_ok s" and d: "if d then free_empty s else validate_free_list_metadata (ps_meta s) = Ok ()"
    and r: "replayable (ps_page_size s) r"
  obtains s' rep' where "replay_image crc r (s, d, rep) = ((s', True, rep'), Ok ())" "moves_on s s'" "free_empty s'"
    "replayed crc ((\<lambda>_. None)(wr_page_id r := Some (wr_payload r))) s s'"
proof -
  let ?pid = "wr_page_id r"
  obtain s1 rep1 where s1: "detach_once crc (s, d, rep) = ((s1, True, rep1), Ok ())" "moves_on s s1" "free_empty s1"
    "\<And>q. q \<noteq> 0 \<Longrightarrow> q < sb_page_count (ps_meta s) \<Longrightarrow> page_image s q \<noteq> None \<Longrightarrow> page_image s1 q = page_image s q"
  proof (cases d)
    case True
    with that [of s rep] s d show thesis by (simp add: detach_once_def moves_on_def)
  next
    case False
    with d have v: "validate_free_list_metadata (ps_meta s) = Ok ()" by simp
    obtain s' n where "detach_free_list_for_recovery crc s = (s', Ok n)" "moves_on s s'" "free_empty s'"
      "\<And>q. q \<noteq> 0 \<Longrightarrow> q < sb_page_count (ps_meta s) \<Longrightarrow> page_image s q \<noteq> None \<Longrightarrow> page_image s' q = page_image s q"
      by (rule detach_moves_on [OF s v, of crc]) blast
    with False show thesis by (intro that [of s' "rep\<lparr>rr_free_pages_detached := n\<rparr>"]) (simp_all add: detach_once_def)
  qed
  have ps: "MIN_PAGE_SIZE \<le> ps_page_size s" using s(1) by (simp add: store_ok_def layout_ok_def)
  have pid: "unat ?pid + 1 < 2 ^ 64"
  proof -
    have "(unat ?pid + 1) * 1 \<le> (unat ?pid + 1) * ps_page_size s" using ps by (intro mult_le_mono2) simp
    then show ?thesis using r by (simp add: replayable_def)
  qed
  then have up: "unat (?pid + 1) = unat ?pid + 1" by (subst unat_add_u64) simp_all
  then have m1: "?pid \<noteq> - 1" using pid by auto
  have o1: "store_ok s1" "dirty_ok s1" "ps_page_size s1 = ps_page_size s" using s1(2) by (simp_all add: moves_on_def)
  have n: "unat (?pid + 1) * ps_page_size s1 < 2 ^ 64" using r o1(3) up by (simp add: replayable_def)
  obtain s2 where s2: "store_reserve (?pid + 1) s1 = (s2, Ok ())" "moves_on s1 s2" "?pid + 1 \<le> sb_page_count (ps_meta s2)"
    "free_empty s2 = free_empty s1"
    "\<And>q. q < sb_page_count (ps_meta s1) \<Longrightarrow> page_image s1 q \<noteq> None \<Longrightarrow> page_image s2 q = page_image s1 q"
    by (rule reserve_moves_on [OF o1(1,2) n]) blast
  have o2: "store_ok s2" "dirty_ok s2" "length (wr_payload r) = ps_page_size s2"
    using s2(2) o1(3) r by (simp_all add: moves_on_def replayable_def)
  have lt: "?pid < sb_page_count (ps_meta s2)" using s2(3) up by (simp add: word_le_nat_alt word_less_nat_alt)
  obtain s3 g where s3: "write_page crc ?pid (wr_payload r) s2 = (s3, Ok ())" "moves_on s2 s3" "free_empty s3 = free_empty s2"
    "page_image s3 ?pid = Some (stamped crc s2 ?pid (wr_payload r) g)"
    "\<And>q. q < sb_page_count (ps_meta s2) \<Longrightarrow> q \<noteq> ?pid \<Longrightarrow> page_image s2 q \<noteq> None \<Longrightarrow> page_image s3 q = page_image s2 q"
    by (rule write_page_moves_on [OF o2(1,2,3) lt, of crc]) blast
  have mo: "moves_on s s3" using moves_on_trans s1(2) s2(2) s3(2) by blast
  have le: "sb_page_count (ps_meta s) \<le> sb_page_count (ps_meta s1)" "sb_page_count (ps_meta s1) \<le> sb_page_count (ps_meta s2)"
    "sb_page_count (ps_meta s2) \<le> sb_page_count (ps_meta s3)" using s1(2) s2(2) s3(2) by (simp_all add: moves_on_def)
  have "page_image s3 q = page_image s q" if "q \<noteq> 0" "q \<noteq> ?pid" "q < sb_page_count (ps_meta s)" "page_image s q \<noteq> None" for q
    using s1(4) [of q] s2(5) [of q] s3(5) [of q] that le by (metis less_le_trans)
  moreover have "?pid \<noteq> 0 \<Longrightarrow> page_image s3 ?pid = Some (finalize crc (wr_payload r) g)" using s3(4) by (simp add: stamped_def)
  ultimately have "replayed crc ((\<lambda>_. None)(?pid := Some (wr_payload r))) s s3"
    using lt le(3) by (auto simp: replayed_def)
  moreover have "replay_image crc r (s, d, rep) = ((s3, True, rep1\<lparr>rr_pages_replayed := rr_pages_replayed rep1 + 1\<rparr>), Ok ())"
    using s1(1) s2(1) s3(1) m1 by (simp add: replay_image_def m_then_def m_bind_def on_store_def m_modify_def)
  ultimately show thesis using that mo s1(3) s2(4) s3(3) by blast
qed

lemma replayed_step:
  assumes "replayed crc f s s1" "replayed crc g s1 s2" "moves_on s s1" "moves_on s1 s2"
  shows "replayed crc (\<lambda>q. case g q of Some b \<Rightarrow> Some b | None \<Rightarrow> f q) s s2"
  unfolding replayed_def
proof (intro allI impI)
  fix q :: page_id assume q: "q \<noteq> 0"
  have le: "sb_page_count (ps_meta s) \<le> sb_page_count (ps_meta s1)" "sb_page_count (ps_meta s1) \<le> sb_page_count (ps_meta s2)"
    using assms(3,4) by (simp_all add: moves_on_def)
  from q assms(1,2) have "case f q of
        Some b \<Rightarrow> q < sb_page_count (ps_meta s1) \<and> (\<exists>g. page_image s1 q = Some (finalize crc b g))
      | None \<Rightarrow> q < sb_page_count (ps_meta s) \<longrightarrow> page_image s q \<noteq> None \<longrightarrow> page_image s1 q = page_image s q"
    "case g q of
        Some b \<Rightarrow> q < sb_page_count (ps_meta s2) \<and> (\<exists>g. page_image s2 q = Some (finalize crc b g))
      | None \<Rightarrow> q < sb_page_count (ps_meta s1) \<longrightarrow> page_image s1 q \<noteq> None \<longrightarrow> page_image s2 q = page_image s1 q"
    by (simp_all add: replayed_def)
  with le show "case (case g q of Some b \<Rightarrow> Some b | None \<Rightarrow> f q) of
        Some b \<Rightarrow> q < sb_page_count (ps_meta s2) \<and> (\<exists>g. page_image s2 q = Some (finalize crc b g))
      | None \<Rightarrow> q < sb_page_count (ps_meta s) \<longrightarrow> page_image s q \<noteq> None \<longrightarrow> page_image s2 q = page_image s q"
    by (cases "g q"; cases "f q") (auto dest: less_le_trans)
qed

lemma second_pass_run:
  assumes "store_ok s" "dirty_ok s" "if d then free_empty s else validate_free_list_metadata (ps_meta s) = Ok ()"
    "\<forall>r \<in> set recs. replays redo committed r \<longrightarrow> replayable (ps_page_size s) r"
    "\<And>x. outcomes_status outs x = Some Committed \<longleftrightarrow> committed x"
  obtains s' rep' where "visit_all (second_visitor crc redo outs) recs (s, d, rep) =
      ((s', d \<or> (\<exists>r \<in> set recs. replays redo committed r), rep'), Ok ())" "moves_on s s'"
    "d \<or> (\<exists>r \<in> set recs. replays redo committed r) \<Longrightarrow> free_empty s'"
    "replayed crc (\<lambda>q. last_image redo committed q recs) s s'"
  using assms(1-4)
proof (induction recs arbitrary: s d rep thesis)
  case Nil
  from Nil(1) [of s rep] Nil(2-) show ?case by (auto simp: moves_on_def replayed_def)
next
  case (Cons r rs)
  show ?case
  proof (cases "replays redo committed r")
    case True
    have ra: "replayable (ps_page_size s) r" using Cons.prems(5) True by simp
    obtain s1 rep1 where s1: "replay_image crc r (s, d, rep) = ((s1, True, rep1), Ok ())" "moves_on s s1" "free_empty s1"
      "replayed crc ((\<lambda>_. None)(wr_page_id r := Some (wr_payload r))) s s1"
      by (rule replay_image_run [OF Cons.prems(2-4) ra, of crc rep]) blast
    have v: "second_visitor crc redo outs r (s, d, rep) = ((s1, True, rep1), Ok ())"
      using True ra s1(1) assms(5) by (auto simp: second_visitor_def replays_def replayable_def)
    have p: "store_ok s1" "dirty_ok s1" "if True then free_empty s1 else validate_free_list_metadata (ps_meta s1) = Ok ()"
      "\<forall>r \<in> set rs. replays redo committed r \<longrightarrow> replayable (ps_page_size s1) r"
      using s1(2,3) Cons.prems(5) by (simp_all add: moves_on_def)
    show ?thesis
    proof (rule Cons.IH [OF _ p, of rep1])
      fix s' rep' assume i: "visit_all (second_visitor crc redo outs) rs (s1, True, rep1) =
          ((s', True \<or> (\<exists>r \<in> set rs. replays redo committed r), rep'), Ok ())" "moves_on s1 s'"
        "True \<or> (\<exists>r \<in> set rs. replays redo committed r) \<Longrightarrow> free_empty s'"
        "replayed crc (\<lambda>q. last_image redo committed q rs) s1 s'"
      have "(\<lambda>q. last_image redo committed q (r # rs)) = (\<lambda>q. case last_image redo committed q rs of
          Some b \<Rightarrow> Some b | None \<Rightarrow> ((\<lambda>_. None)(wr_page_id r := Some (wr_payload r))) q)"
        using True by (auto simp: fun_eq_iff split: option.split)
      with replayed_step [OF s1(4) i(4) s1(2) i(2)]
      have "replayed crc (\<lambda>q. last_image redo committed q (r # rs)) s s'" by simp
      then show thesis
        using Cons.prems(1) [of s' rep'] i v True moves_on_trans [OF s1(2) i(2)] by (simp add: m_bind_def)
    qed
  next
    case False
    have "\<exists>rep1. second_visitor crc redo outs r (s, d, rep) = ((s, d, rep1), Ok ())"
      using False assms(5) by (auto simp: second_visitor_def replays_def not_le)
    then obtain rep1 where v: "second_visitor crc redo outs r (s, d, rep) = ((s, d, rep1), Ok ())" by blast
    have p: "\<forall>r \<in> set rs. replays redo committed r \<longrightarrow> replayable (ps_page_size s) r" using Cons.prems(5) by simp
    have li: "last_image redo committed q (r # rs) = last_image redo committed q rs" for q
      using False by (simp split: option.split)
    show ?thesis
      by (rule Cons.IH [OF _ Cons.prems(2-4) p, of rep1], rule Cons.prems(1))
        (use v False in \<open>simp_all add: m_bind_def li del: last_image.simps\<close>)
  qed
qed

section \<open>Recovery replays the committed images\<close>

definition recovery_redo :: "page_store \<Rightarrow> wal_record list \<Rightarrow> lsn" where
  "recovery_redo s recs =
     (if sb_checkpoint_lsn (ps_meta s) \<ge> checkpoint_redo 0 recs then checkpoint_redo 0 recs else 0)"

lemma log_holds_truncated:
  assumes "log_holds crc mb w segs act tail"
  shows "log_holds crc mb (w\<lparr>w_active := log_bytes crc act, w_end_offset := e, w_next_lsn := l, w_active_first_lsn := f\<rparr>) segs act []"
  using assms by (simp add: log_holds_def)

lemma recover_run:
  assumes h: "log_holds crc (16 + ps_page_size s) w segs act tail" and recs: "recs = concat (map snd segs) @ act"
    and ids: "decided_ids_ok recs" "\<And>x. \<not> (committed_in recs x \<and> aborted_in recs x)"
    and im: "\<forall>r \<in> set recs. replays (recovery_redo s recs) (committed_in recs) r \<longrightarrow> replayable (ps_page_size s) r"
    and s: "store_ok s" "dirty_ok s" "validate_free_list_metadata (ps_meta s) = Ok ()"
  obtains w' s' rep outs where "recover_with_outcomes crc w s = ((w', s'), Ok (rep, outs))"
    "log_holds crc (16 + ps_page_size s) w' segs act []" "store_ok s'" "dirty_ok s'" "ps_page_size s' = ps_page_size s"
    "replayed crc (\<lambda>q. last_image (recovery_redo s recs) (committed_in recs) q recs) s s'"
    "(\<exists>r \<in> set recs. replays (recovery_redo s recs) (committed_in recs) r) \<Longrightarrow> free_empty s'"
    "\<And>x. outcomes_status outs x = Some Committed \<longleftrightarrow> committed_in recs x"
    "\<And>x. outcomes_status outs x = Some Aborted \<longleftrightarrow> aborted_in recs x"
proof -
  let ?mb = "16 + ps_page_size s" and ?redo = "recovery_redo s recs"
  obtain p where p: "visit_all first_visitor recs first_pass_default = (p, Ok ())" "fp_redo_lsn p = checkpoint_redo 0 recs"
      "fp_outcomes p = outcomes_default\<lparr>ro_entries := outcome_entries recs\<rparr>"
    by (rule first_pass_run [OF ids(1), of first_pass_default]) (auto simp: first_pass_default_def outcomes_default_def)
  have en: "ro_entries (fp_outcomes p) = outcome_entries recs" "ro_start (fp_outcomes p) = 0"
    using p(3) by (simp_all add: outcomes_default_def)
  obtain outs where outs: "normalize (fp_outcomes p) = (outs, None)" "outcomes_wf outs"
      "set (live_entries outs) = set (outcome_entries recs)"
    by (rule normalize_consistent [of "fp_outcomes p"]) (use ids(2) en in \<open>auto simp: outcome_entries_set\<close>)
  note st = outcomes_status_committed [OF outs(2,3)]
  note v1 = p(1) [unfolded recs]
  obtain w1 first where sc1: "scan_records crc ?mb True first_visitor first_pass_default w = (w1, p, Ok first)"
      "log_holds crc ?mb w1 segs act []" "sr_records first = length recs"
      "sr_last_lsn first = (if recs = [] then None else Some (wr_lsn (last recs)))"
    using scan_records_run [OF h v1, of True] log_holds_truncated [OF h]
    by (simp add: Let_def recs note_all_fields scan_report_default_def)
  define rep where "rep = \<lparr> rr_records_scanned = sr_records first, rr_pages_replayed = 0, rr_free_pages_detached = 0,
    rr_uncommitted_skipped = 0, rr_committed_transactions = committed_count outs,
    rr_truncated_bytes = sr_truncated_bytes first, rr_wal_bytes_scanned = wal_size_bytes w,
    rr_scan_passes = 2, rr_peak_record_bytes = sr_peak_record_bytes first, rr_transaction_outcomes = outcomes_len outs,
    rr_terminal_outcome_records = fp_terminal_outcome_records p, rr_max_record_transaction = fp_max_record_transaction p,
    rr_redo_lsn = ?redo, rr_end_lsn = (case sr_last_lsn first of None \<Rightarrow> 0 | Some l \<Rightarrow> l) \<rparr>"
  have r: "recover_with_outcomes crc w s = second_scan crc ?mb ?redo outs first rep w1 s"
    using sc1(1) outs(1) p(2) by (simp add: recover_with_outcomes_def Let_def recovery_redo_def rep_def)
  obtain s1 rep1 d where s1: "visit_all (second_visitor crc ?redo outs) recs (s, False, rep) = ((s1, d, rep1), Ok ())"
      "moves_on s s1" "(\<exists>r \<in> set recs. replays ?redo (committed_in recs) r) \<Longrightarrow> free_empty s1"
      "replayed crc (\<lambda>q. last_image ?redo (committed_in recs) q recs) s s1"
    by (rule second_pass_run [OF s(1,2) _ im st(1), of False crc rep]) (use s(3) in auto)
  have o1: "store_ok s1" "dirty_ok s1" using s1(2) by (simp_all add: moves_on_def)
  obtain s2 where s2: "store_flush crc s1 = (s2, Ok ())" "moves_on s1 s2" "ps_meta s2 = ps_meta s1"
    "\<And>q. q \<noteq> 0 \<Longrightarrow> q < sb_page_count (ps_meta s1) \<Longrightarrow> page_image s1 q \<noteq> None \<Longrightarrow> page_image s2 q = page_image s1 q"
    by (rule flush_moves_on [OF o1, of crc]) blast
  have "replayed crc (\<lambda>_. None) s1 s2" using s2(4) by (simp add: replayed_def)
  from replayed_step [OF s1(4) this s1(2) s2(2)]
  have rp: "replayed crc (\<lambda>q. last_image ?redo (committed_in recs) q recs) s s2" by simp
  note v2 = s1(1) [unfolded recs]
  have "\<exists>w2 rep2. second_scan crc ?mb ?redo outs first rep w1 s = ((w2, s2), Ok (rep2, outs)) \<and> log_holds crc ?mb w2 segs act []"
    using scan_records_run [OF sc1(2) v2, of False] sc1 s2(1)
    by (simp add: second_scan_def Let_def note_all_fields scan_report_default_def recs log_holds_def)
  then obtain w2 rep2 where w2: "recover_with_outcomes crc w s = ((w2, s2), Ok (rep2, outs))" "log_holds crc ?mb w2 segs act []"
    using r by auto
  show thesis
    by (rule that [OF w2 _ _ _ rp _ st]) (use s1(2,3) s2(2,3) in \<open>auto simp: moves_on_def free_empty_def\<close>)
qed

text \<open>
  C3. Recovery redoes exactly the committed work. From a log of records with a torn tail it
  returns with the tail cut off. Every page then holds the last image that the log has for it at
  or after the redo point from a committed (or untracked) transaction, stamped with a generation
  and a checksum; a page without such an image keeps its bytes, so no image of an uncommitted or
  aborted transaction reaches the store. The outcomes are the commits and aborts of the log. If
  anything was replayed the free list has been detached.
\<close>

theorem recovery_replays_committed:
  assumes h: "log_holds crc (16 + ps_page_size s) w segs act tail" "recs = concat (map snd segs) @ act"
    and ids: "decided_ids_ok recs" "\<forall>x. \<not> (committed_in recs x \<and> aborted_in recs x)"
    and im: "\<forall>r \<in> set recs. replays (recovery_redo s recs) (committed_in recs) r \<longrightarrow> replayable (ps_page_size s) r"
    and s: "store_ok s" "dirty_ok s" "validate_free_list_metadata (ps_meta s) = Ok ()"
  shows "\<exists>w' s' rep outs. recover_with_outcomes crc w s = ((w', s'), Ok (rep, outs)) \<and>
    w_active w' = log_bytes crc act \<and> w_sealed w' = w_sealed w \<and> store_ok s' \<and>
    (\<forall>x. (outcomes_status outs x = Some Committed) = committed_in recs x \<and>
         (outcomes_status outs x = Some Aborted) = aborted_in recs x) \<and>
    (\<forall>q. q \<noteq> 0 \<longrightarrow> (case last_image (recovery_redo s recs) (committed_in recs) q recs of
        Some img \<Rightarrow> q < sb_page_count (ps_meta s') \<and> (\<exists>g. page_image s' q = Some (finalize crc img g))
      | None \<Rightarrow> q < sb_page_count (ps_meta s) \<longrightarrow> page_image s q \<noteq> None \<longrightarrow> page_image s' q = page_image s q)) \<and>
    ((\<exists>r \<in> set recs. replays (recovery_redo s recs) (committed_in recs) r) \<longrightarrow>
       sb_free_list_head (ps_meta s') = 0 \<and> sb_free_page_count (ps_meta s') = 0)"
proof -
  have c: "\<not> (committed_in recs x \<and> aborted_in recs x)" for x using ids(2) by blast
  obtain w' s' rep outs where r: "recover_with_outcomes crc w s = ((w', s'), Ok (rep, outs))"
    "log_holds crc (16 + ps_page_size s) w' segs act []" "store_ok s'"
    "replayed crc (\<lambda>q. last_image (recovery_redo s recs) (committed_in recs) q recs) s s'"
    "(\<exists>r \<in> set recs. replays (recovery_redo s recs) (committed_in recs) r) \<Longrightarrow> free_empty s'"
    "\<And>x. outcomes_status outs x = Some Committed \<longleftrightarrow> committed_in recs x"
    "\<And>x. outcomes_status outs x = Some Aborted \<longleftrightarrow> aborted_in recs x"
    by (rule recover_run [OF h ids(1) c im s]) blast
  have "w_active w' = log_bytes crc act" "w_sealed w' = w_sealed w"
    using r(2) h(1) by (simp_all add: log_holds_def)
  with r show ?thesis unfolding replayed_def free_empty_def by blast
qed

text \<open>A page written by two transactions, of which the later one never committed.\<close>

definition sample_images :: "wal_record list" where
  "sample_images =
     [\<lparr> wr_lsn = 1, wr_kind = PageImage, wr_page_id = 5, wr_transaction = 9, wr_payload = replicate 512 3 \<rparr>,
      \<lparr> wr_lsn = 2, wr_kind = Commit, wr_page_id = 0, wr_transaction = 9, wr_payload = [] \<rparr>,
      \<lparr> wr_lsn = 3, wr_kind = PageImage, wr_page_id = 5, wr_transaction = 10, wr_payload = replicate 512 4 \<rparr>]"

theorem recovery_replays_committed_witness:
  "\<exists>w' s' rep outs g. recover_with_outcomes (\<lambda>_. 7)
       (open_with_segments_and_floor True 0 0 (log_bytes (\<lambda>_. 7) sample_images) []) (reserved_store (\<lambda>_. 7)) =
     ((w', s'), Ok (rep, outs)) \<and> page_image s' 5 = Some (finalize (\<lambda>_. 7) (replicate 512 3) g)"
proof -
  let ?s = "reserved_store (\<lambda>_. 7)"
  let ?w = "open_with_segments_and_floor True 0 0 (log_bytes (\<lambda>_. 7) sample_images) []"
  note st = reserved_store_ok [of "\<lambda>_. 7"]
  have redo: "recovery_redo ?s sample_images = 0" by (simp add: recovery_redo_def sample_images_def)
  have h: "log_holds (\<lambda>_. 7) (16 + ps_page_size ?s) ?w [] sample_images []" "sample_images = concat (map snd []) @ sample_images"
    using st(5) by (simp_all add: log_holds_def segment_files_def open_with_segments_and_floor_def decode_record_def
        sample_images_def record_ok_def Let_def)
  have ok: "decided_ids_ok sample_images" "\<forall>x. \<not> (committed_in sample_images x \<and> aborted_in sample_images x)"
    by (simp_all add: decided_ids_ok_def committed_in_def aborted_in_def sample_images_def)
  have im: "\<forall>r \<in> set sample_images. replays (recovery_redo ?s sample_images) (committed_in sample_images) r \<longrightarrow>
      replayable (ps_page_size ?s) r"
    unfolding redo st(5) by (simp add: sample_images_def replayable_def replays_def)
  have v: "validate_free_list_metadata (ps_meta ?s) = Ok ()" using st by (simp add: validate_free_list_metadata_def)
  have li: "last_image (recovery_redo ?s sample_images) (committed_in sample_images) 5 sample_images = Some (replicate 512 3)"
    unfolding redo by (simp add: sample_images_def replays_def committed_in_def)
  from recovery_replays_committed [OF h ok im st(1,2) v] obtain w' s' rep outs where
    r: "recover_with_outcomes (\<lambda>_. 7) ?w ?s = ((w', s'), Ok (rep, outs))" and
    "\<forall>q. q \<noteq> 0 \<longrightarrow> (case last_image (recovery_redo ?s sample_images) (committed_in sample_images) q sample_images of
        Some img \<Rightarrow> q < sb_page_count (ps_meta s') \<and> (\<exists>g. page_image s' q = Some (finalize (\<lambda>_. 7) img g))
      | None \<Rightarrow> q < sb_page_count (ps_meta ?s) \<longrightarrow> page_image ?s q \<noteq> None \<longrightarrow> page_image s' q = page_image ?s q)"
    by blast
  from this(2) [rule_format, of 5] have "\<exists>g. page_image s' 5 = Some (finalize (\<lambda>_. 7) (replicate 512 3) g)"
    unfolding li by simp
  with r show ?thesis by blast
qed

section \<open>A reset that is cut short\<close>

text \<open>
  C35. A crash inside \<open>reset\<close> can undo committed work. The active file is emptied before the
  sealed segments are removed. If the process stops in between, the reopened log consists of the
  sealed records alone: the checkpoint record is gone, so recovery replays them from the start
  and puts back the image the sealed records have for a page, whatever newer image of it the page
  file held and the active file had recorded.
\<close>

theorem interrupted_reset_reverts_pages:
  assumes h: "log_holds crc (16 + ps_page_size s) w segs act []" "\<not> w_archive_retention w" "sorted (map fst segs)"
    and recs: "recs = concat (map snd segs)" "decided_ids_ok recs" "\<forall>x. \<not> (committed_in recs x \<and> aborted_in recs x)"
      "\<forall>r \<in> set recs. wr_kind r \<noteq> Checkpoint"
      "\<forall>r \<in> set recs. replays 0 (committed_in recs) r \<longrightarrow> replayable (ps_page_size s) r"
    and s: "store_ok s" "dirty_ok s" "validate_free_list_metadata (ps_meta s) = Ok ()"
    and q: "q \<noteq> 0" "last_image 0 (committed_in recs) q recs = Some old"
    and w1: "w1 = open_with_segments_and_floor fsync segment_bytes floor (w_active (reset_truncate w)) (w_sealed (reset_truncate w))"
  shows "\<exists>w' s' rep outs g. recover_with_outcomes crc w1 s = ((w', s'), Ok (rep, outs)) \<and>
    page_image s' q = Some (finalize crc old g)"
proof -
  have c: "\<not> (committed_in recs x \<and> aborted_in recs x)" for x using recs(3) by blast
  have "checkpoint_redo 0 rs = 0" if "\<forall>r \<in> set rs. wr_kind r \<noteq> Checkpoint" for rs
    using that by (induction rs) simp_all
  with recs(4) have redo: "recovery_redo s recs = 0" by (simp add: recovery_redo_def)
  have "sorted (map fst (w_sealed w))" using h by (simp add: log_holds_def segment_files_def comp_def case_prod_unfold)
  then have "w_sealed w1 = w_sealed w" "w_active w1 = []"
    using w1 h(2) by (simp_all add: reset_truncate_def open_with_segments_and_floor_def sort_key_id_if_sorted Let_def)
  then have l: "log_holds crc (16 + ps_page_size s) w1 segs [] []" "recs = concat (map snd segs) @ []"
    using h(1) recs(1) by (auto simp: log_holds_def consecutive_append decode_record_def Let_def)
  have im: "\<forall>r \<in> set recs. replays (recovery_redo s recs) (committed_in recs) r \<longrightarrow> replayable (ps_page_size s) r"
    using recs(5) redo by simp
  obtain w' s' rep outs where r: "recover_with_outcomes crc w1 s = ((w', s'), Ok (rep, outs))"
    "replayed crc (\<lambda>q. last_image (recovery_redo s recs) (committed_in recs) q recs) s s'"
    by (rule recover_run [OF l recs(2) c im s]) blast
  with q redo have "\<exists>g. page_image s' q = Some (finalize crc old g)" unfolding replayed_def by fastforce
  with r(1) show ?thesis by blast
qed

text \<open>The log of the witness: an old image in a sealed segment, the new one in the active file.\<close>

definition sample_sealed :: wal_record where
  "sample_sealed = \<lparr> wr_lsn = 1, wr_kind = PageImage, wr_page_id = 5, wr_transaction = 0, wr_payload = replicate 512 3 \<rparr>"

definition sample_active :: wal_record where
  "sample_active = \<lparr> wr_lsn = 2, wr_kind = PageImage, wr_page_id = 5, wr_transaction = 0, wr_payload = replicate 512 4 \<rparr>"

theorem interrupted_reset_reverts_pages_witness:
  "\<exists>w1 w' s' rep outs g.
     w1 = (let w = open_with_segments_and_floor True 600 0 (log_bytes (\<lambda>_. 7) [sample_active]) [(1, log_bytes (\<lambda>_. 7) [sample_sealed])]
           in open_with_segments_and_floor True 600 0 (w_active (reset_truncate w)) (w_sealed (reset_truncate w))) \<and>
     recover_with_outcomes (\<lambda>_. 7) w1 (reserved_store (\<lambda>_. 7)) = ((w', s'), Ok (rep, outs)) \<and>
     page_image s' 5 = Some (finalize (\<lambda>_. 7) (replicate 512 3) g)"
proof -
  let ?s = "reserved_store (\<lambda>_. 7)"
  let ?w = "open_with_segments_and_floor True 600 0 (log_bytes (\<lambda>_. 7) [sample_active]) [(1, log_bytes (\<lambda>_. 7) [sample_sealed])]"
  note st = reserved_store_ok [of "\<lambda>_. 7"]
  have h: "log_holds (\<lambda>_. 7) (16 + ps_page_size ?s) ?w [(1, [sample_sealed])] [sample_active] []" "\<not> w_archive_retention ?w"
    using st(5) by (simp_all add: log_holds_def segment_files_def open_with_segments_and_floor_def decode_record_def
        sample_active_def sample_sealed_def record_ok_def Let_def)
  have "decided_ids_ok [sample_sealed]" "\<forall>x. \<not> (committed_in [sample_sealed] x \<and> aborted_in [sample_sealed] x)"
    "\<forall>r \<in> set [sample_sealed]. wr_kind r \<noteq> Checkpoint"
    "\<forall>r \<in> set [sample_sealed]. replays 0 (committed_in [sample_sealed]) r \<longrightarrow> replayable (ps_page_size ?s) r"
    "last_image 0 (committed_in [sample_sealed]) 5 [sample_sealed] = Some (replicate 512 3)"
    using st(5) by (simp_all add: decided_ids_ok_def committed_in_def aborted_in_def sample_sealed_def replayable_def replays_def)
  moreover have "validate_free_list_metadata (ps_meta ?s) = Ok ()" using st by (simp add: validate_free_list_metadata_def)
  ultimately show ?thesis
    using interrupted_reset_reverts_pages [OF h _ _ _ _ _ _ st(1,2), of "[sample_sealed]" 5 "replicate 512 3" _ True 600 0]
    by (simp add: Let_def)
qed

end
