(* ===== verification/Pool.thy ===== *)
theory Pool
  imports Store_Reserve "HOL-Library.AList"
begin

text \<open>
  The buffer pool of \<open>crates/bicdb-page/src/pool.rs\<close>: frames in lock-striped shards, the 2Q
  replacement with its four queues, pins, dirty tracking with the write-back barrier, bounded
  write-back and read-ahead. Each call runs alone: the locks of a call are taken and released
  within it, so \<open>loading\<close> is empty between calls and is left out, as are metrics and clocks. A
  guard is a pin; its drop is \<open>unpin\<close> or \<open>release_mut\<close>. The hash map of resident frames is an
  association list whose order stands for the iteration order of the map; a free buffer is
  overwritten before it is used, so only the number of free buffers is kept. Pages are read from
  the store the pool writes to. The barrier is a parameter with a state of its own.
\<close>

section \<open>Frames, shards and the pool\<close>

datatype cache_class = Metadata | Search | Streaming

record frame =
  fr_data :: bytes
  fr_pins :: nat
  fr_dirty :: bool
  fr_referenced :: bool
  fr_protected :: bool
  fr_streaming :: bool
  fr_metadata :: bool
  fr_dirtied_by :: u64
  fr_needs_log :: bool
  fr_prefetched :: bool
  fr_foreground_touched :: bool

record shard =
  sh_resident :: "(page_id \<times> frame) list"
  sh_probationary :: "page_id list"
  sh_protected :: "page_id list"
  sh_streaming :: "page_id list"
  sh_metadata :: "page_id list"
  sh_free :: nat
  sh_protected_capacity :: nat
  sh_streaming_capacity :: nat
  sh_metadata_capacity :: nat
  sh_capacity :: nat

text \<open>The pending requests of the read-ahead queue in the order of their sequence numbers.\<close>

record read_ahead_queue =
  ra_pending :: "page_id list"
  ra_capacity :: nat

record 'b pool =
  bp_store :: page_store
  bp_read_only :: bool
  bp_shards :: "shard list"
  bp_barrier :: "'b option"
  bp_dirty_index :: "page_id btree_set"
  bp_current_transaction :: u64
  bp_wal_managed_frees :: bool
  bp_pending_frees :: "(u64, page_id list) btree_map"
  bp_read_ahead :: read_ahead_queue
  bp_read_ahead_drivers :: nat
  bp_read_ahead_saturated :: bool

text \<open>The barrier: \<open>before_writeback\<close> on its state.\<close>

type_synonym 'b barrier = "page_id \<Rightarrow> u64 \<Rightarrow> bytes \<Rightarrow> 'b \<Rightarrow> 'b \<times> unit res"

type_synonym ('b, 'a) pool_m = "('b pool, page_error, 'a) sm"

text \<open>A step under the lock of one shard; the shard is taken out of the pool while it is locked.\<close>

type_synonym ('b, 'a) shard_m = "(shard \<times> 'b pool, page_error, 'a) sm"

definition shard_for :: "'b pool \<Rightarrow> page_id \<Rightarrow> nat" where
  "shard_for p page_id = unat (drop_bit 32 (page_id * 0x9E3779B97F4A7C15)) mod length (bp_shards p)"

definition lock_shard :: "page_id \<Rightarrow> ('b, 'a) shard_m \<Rightarrow> ('b, 'a) pool_m" where
  "lock_shard page_id m p =
     (let i = shard_for p page_id in
      case m (bp_shards p ! i, p) of ((shard, p), r) \<Rightarrow> (p\<lparr>bp_shards := (bp_shards p)[i := shard]\<rparr>, r))"

definition set_frame :: "page_id \<Rightarrow> frame \<Rightarrow> shard \<Rightarrow> shard" where
  "set_frame page_id frame shard = shard\<lparr>sh_resident := AList.update page_id frame (sh_resident shard)\<rparr>"

definition drop_frame :: "page_id \<Rightarrow> shard \<Rightarrow> shard" where
  "drop_frame page_id shard = shard\<lparr>sh_resident := AList.delete page_id (sh_resident shard)\<rparr>"

definition remove_from :: "page_id \<Rightarrow> page_id list \<Rightarrow> page_id list" where
  "remove_from page_id queue = remove1 page_id queue"

section \<open>Opening\<close>

text \<open>
  \<open>protected_share\<close>, \<open>streaming_share\<close> and \<open>metadata_share\<close> are the fractions of the options
  applied to a number of frames, floating-point arithmetic rounded down.
\<close>

definition clamp :: "nat \<Rightarrow> nat \<Rightarrow> nat \<Rightarrow> nat" where
  "clamp x lo hi = (if x < lo then lo else if hi < x then hi else x)"

definition shard_new :: "(nat \<Rightarrow> nat) \<Rightarrow> (nat \<Rightarrow> nat) \<Rightarrow> (nat \<Rightarrow> nat) \<Rightarrow> nat \<Rightarrow> shard" where
  "shard_new protected_share streaming_share metadata_share capacity =
     \<lparr> sh_resident = [], sh_probationary = [], sh_protected = [], sh_streaming = [], sh_metadata = [],
       sh_free = capacity,
       sh_protected_capacity = clamp (protected_share capacity) (of_bool (capacity > 1)) (capacity - of_bool (capacity > 1)),
       sh_streaming_capacity = clamp (streaming_share capacity) (of_bool (capacity > 1)) (capacity - 1),
       sh_metadata_capacity = (if capacity < 8 then 0 else clamp (metadata_share capacity) 1 (capacity div 4)),
       sh_capacity = capacity \<rparr>"

abbreviation (input) MAX_READ_AHEAD_QUEUE_PAGES :: nat where "MAX_READ_AHEAD_QUEUE_PAGES \<equiv> 65536"

definition pool_new ::
  "(nat \<Rightarrow> nat) \<Rightarrow> (nat \<Rightarrow> nat) \<Rightarrow> (nat \<Rightarrow> nat) \<Rightarrow> u64 \<Rightarrow> nat \<Rightarrow> nat \<Rightarrow> bool \<Rightarrow> page_store \<Rightarrow> 'b pool res" where
  "pool_new protected_share streaming_share metadata_share budget_bytes shards read_ahead_queue_pages read_only store =
     (if read_ahead_queue_pages > MAX_READ_AHEAD_QUEUE_PAGES then Err InvalidMaintenanceLimits
      else if sb_page_count (ps_meta store) = 0 then Err (OutOfBounds 0 0)
      else let total_frames = unat (budget_bytes div of_nat (ps_page_size store)) in
        if total_frames = 0 then Err (BudgetTooSmall budget_bytes (ps_page_size store))
        else let shard_count = min (max shards 1) total_frames;
                 per_shard = total_frames div shard_count;
                 remainder = total_frames mod shard_count
             in Ok \<lparr> bp_store = store, bp_read_only = read_only,
                  bp_shards = map (\<lambda>index. shard_new protected_share streaming_share metadata_share
                    (per_shard + of_bool (index < remainder))) [0..<shard_count],
                  bp_barrier = None, bp_dirty_index = [], bp_current_transaction = 0, bp_wal_managed_frees = False,
                  bp_pending_frees = [], bp_read_ahead = \<lparr> ra_pending = [], ra_capacity = read_ahead_queue_pages \<rparr>,
                  bp_read_ahead_drivers = 0, bp_read_ahead_saturated = False \<rparr>)"

section \<open>Write-back\<close>

definition barrier_for :: "'b barrier \<Rightarrow> page_id \<Rightarrow> u64 \<Rightarrow> bytes \<Rightarrow> ('b, unit) pool_m" where
  "barrier_for before_writeback page_id transaction data p =
     (case bp_barrier p of
        None \<Rightarrow> (p, Ok ())
      | Some b \<Rightarrow> (case before_writeback page_id transaction data b of (b, r) \<Rightarrow> (p\<lparr>bp_barrier := Some b\<rparr>, r)))"

text \<open>\<open>write_page\<close> stamps the buffer it is given, which is the buffer of the frame.\<close>

definition write_frame ::
  "(bytes \<Rightarrow> u32) \<Rightarrow> page_id \<Rightarrow> frame \<Rightarrow> 'b pool \<Rightarrow> (frame \<times> 'b pool) \<times> bool res" where
  "write_frame crc page_id frame p =
     (let s = bp_store p;
          stamped_frame = frame\<lparr>fr_data := stamped crc s page_id (fr_data frame) (sb_generation (ps_meta s) + 1)\<rparr>
      in case write_page crc page_id (fr_data frame) s of
           (s, Ok _) \<Rightarrow> ((stamped_frame\<lparr>fr_needs_log := False, fr_dirty := False\<rparr>,
                         p\<lparr>bp_store := s, bp_dirty_index := bs_remove page_id (bp_dirty_index p)\<rparr>), Ok True)
         | (s, Err e) \<Rightarrow> ((stamped_frame, p\<lparr>bp_store := s\<rparr>), Err e)
         | (s, Panic) \<Rightarrow> ((stamped_frame, p\<lparr>bp_store := s\<rparr>), Panic))"

definition write_back_frame ::
  "(bytes \<Rightarrow> u32) \<Rightarrow> 'b barrier \<Rightarrow> page_id \<Rightarrow> frame \<Rightarrow> 'b pool \<Rightarrow> (frame \<times> 'b pool) \<times> bool res" where
  "write_back_frame crc before_writeback page_id frame p =
     (if \<not> fr_dirty frame then ((frame, p), Ok False)
      else case (if fr_needs_log frame
                 then barrier_for before_writeback page_id (fr_dirtied_by frame) (fr_data frame) p else (p, Ok ())) of
             (p, Ok _) \<Rightarrow> write_frame crc page_id frame p
           | (p, Err e) \<Rightarrow> ((frame, p), Err e)
           | (p, Panic) \<Rightarrow> ((frame, p), Panic))"

section \<open>Eviction\<close>

text \<open>\<open>True\<close>: the frame is gone and its buffer is the result. \<open>False\<close>: pinned or not resident.\<close>

definition try_reclaim :: "(bytes \<Rightarrow> u32) \<Rightarrow> 'b barrier \<Rightarrow> page_id \<Rightarrow> ('b, bool) shard_m" where
  "try_reclaim crc before_writeback page_id = (\<lambda>(shard, p).
     case map_of (sh_resident shard) page_id of
       None \<Rightarrow> ((shard, p), Ok False)
     | Some frame \<Rightarrow>
         if fr_pins frame > 0 then ((shard, p), Ok False)
         else (case write_back_frame crc before_writeback page_id frame p of
                 ((frame, p), Ok _) \<Rightarrow> ((drop_frame page_id shard, p), Ok True)
               | ((frame, p), Err e) \<Rightarrow> ((set_frame page_id frame shard, p), Err e)
               | ((frame, p), Panic) \<Rightarrow> ((set_frame page_id frame shard, p), Panic)))"

text \<open>
  The loop of \<open>evict_from_metadata\<close>, \<open>evict_from_streaming\<close> and \<open>evict_from_probationary\<close>, over
  the queue that \<open>queue\<close> reads and \<open>put_queue\<close> writes: at most \<open>n\<close> candidates from the front, a
  candidate that is not reclaimed goes to the back.
\<close>

fun evict_from_queue ::
  "(bytes \<Rightarrow> u32) \<Rightarrow> 'b barrier \<Rightarrow> (shard \<Rightarrow> page_id list) \<Rightarrow> (page_id list \<Rightarrow> shard \<Rightarrow> shard) \<Rightarrow> nat \<Rightarrow>
     ('b, bool) shard_m" where
  "evict_from_queue crc before_writeback queue put_queue 0 = m_return False"
| "evict_from_queue crc before_writeback queue put_queue (Suc n) = (\<lambda>(shard, p).
     case queue shard of
       [] \<Rightarrow> ((shard, p), Ok False)
     | candidate # rest \<Rightarrow>
         m_bind (try_reclaim crc before_writeback candidate)
           (\<lambda>reclaimed (shard, p).
              if reclaimed then ((shard, p), Ok True)
              else evict_from_queue crc before_writeback queue put_queue n (put_queue (queue shard @ [candidate]) shard, p))
           (put_queue rest shard, p))"

definition evict_from_metadata :: "(bytes \<Rightarrow> u32) \<Rightarrow> 'b barrier \<Rightarrow> ('b, bool) shard_m" where
  "evict_from_metadata crc before_writeback = (\<lambda>(shard, p).
     evict_from_queue crc before_writeback sh_metadata (\<lambda>q sh. sh\<lparr>sh_metadata := q\<rparr>) (length (sh_metadata shard)) (shard, p))"

definition evict_from_streaming :: "(bytes \<Rightarrow> u32) \<Rightarrow> 'b barrier \<Rightarrow> ('b, bool) shard_m" where
  "evict_from_streaming crc before_writeback = (\<lambda>(shard, p).
     evict_from_queue crc before_writeback sh_streaming (\<lambda>q sh. sh\<lparr>sh_streaming := q\<rparr>) (length (sh_streaming shard)) (shard, p))"

definition evict_from_probationary :: "(bytes \<Rightarrow> u32) \<Rightarrow> 'b barrier \<Rightarrow> ('b, bool) shard_m" where
  "evict_from_probationary crc before_writeback = (\<lambda>(shard, p).
     evict_from_queue crc before_writeback sh_probationary (\<lambda>q sh. sh\<lparr>sh_probationary := q\<rparr>) (length (sh_probationary shard)) (shard, p))"

text \<open>The CLOCK sweep over the protected queue.\<close>

fun clock_sweep :: "(bytes \<Rightarrow> u32) \<Rightarrow> 'b barrier \<Rightarrow> nat \<Rightarrow> ('b, bool) shard_m" where
  "clock_sweep crc before_writeback 0 = m_return False"
| "clock_sweep crc before_writeback (Suc n) = (\<lambda>(shard, p).
     case sh_protected shard of
       [] \<Rightarrow> ((shard, p), Ok False)
     | candidate # rest \<Rightarrow>
         let popped = shard\<lparr>sh_protected := rest\<rparr>; back = shard\<lparr>sh_protected := rest @ [candidate]\<rparr> in
         (case map_of (sh_resident shard) candidate of
            None \<Rightarrow> clock_sweep crc before_writeback n (popped, p)
          | Some frame \<Rightarrow>
              if fr_pins frame > 0 then clock_sweep crc before_writeback n (back, p)
              else if fr_referenced frame
              then clock_sweep crc before_writeback n (set_frame candidate (frame\<lparr>fr_referenced := False\<rparr>) back, p)
              else m_bind (try_reclaim crc before_writeback candidate)
                (\<lambda>reclaimed (shard, p).
                   if reclaimed then ((shard, p), Ok True)
                   else clock_sweep crc before_writeback n (shard\<lparr>sh_protected := sh_protected shard @ [candidate]\<rparr>, p))
                (popped, p)))"

definition evict_from_protected :: "(bytes \<Rightarrow> u32) \<Rightarrow> 'b barrier \<Rightarrow> ('b, bool) shard_m" where
  "evict_from_protected crc before_writeback = (\<lambda>(shard, p).
     clock_sweep crc before_writeback (length (sh_protected shard) * 2) (shard, p))"

fun first_success :: "('b, bool) shard_m list \<Rightarrow> ('b, bool) shard_m" where
  "first_success [] = m_return False"
| "first_success (m # ms) = m_bind m (\<lambda>reclaimed. if reclaimed then m_return True else first_success ms)"

definition evict_one :: "(bytes \<Rightarrow> u32) \<Rightarrow> 'b barrier \<Rightarrow> page_id \<Rightarrow> cache_class \<Rightarrow> ('b, unit) shard_m" where
  "evict_one crc before_writeback wanted cls =
     m_bind (first_success
       (case cls of
          Metadata \<Rightarrow> [evict_from_metadata crc before_writeback, evict_from_probationary crc before_writeback,
                       evict_from_streaming crc before_writeback, evict_from_protected crc before_writeback]
        | Streaming \<Rightarrow> [evict_from_streaming crc before_writeback, evict_from_probationary crc before_writeback]
        | Search \<Rightarrow> [evict_from_probationary crc before_writeback, evict_from_protected crc before_writeback,
                     evict_from_streaming crc before_writeback]))
       (\<lambda>reclaimed (shard, p).
          ((shard, p), if reclaimed then Ok () else Err (PoolExhausted wanted (sh_capacity shard))))"

text \<open>
  Keeping a queue inside its budget: the loop of \<open>enforce_metadata_capacity\<close> and
  \<open>enforce_streaming_capacity\<close>. Errors of the write-back are swallowed. Every round shortens the
  queue or ends, so its length bounds the rounds.
\<close>

fun enforce_capacity ::
  "(bytes \<Rightarrow> u32) \<Rightarrow> 'b barrier \<Rightarrow> (shard \<Rightarrow> page_id list) \<Rightarrow> (page_id list \<Rightarrow> shard \<Rightarrow> shard) \<Rightarrow> nat \<Rightarrow> nat \<Rightarrow>
     shard \<times> 'b pool \<Rightarrow> shard \<times> 'b pool" where
  "enforce_capacity crc before_writeback queue put_queue capacity 0 x = x"
| "enforce_capacity crc before_writeback queue put_queue capacity (Suc n) (shard, p) =
     (if length (queue shard) \<le> capacity then (shard, p)
      else case queue shard of
             [] \<Rightarrow> (shard, p)
           | candidate # rest \<Rightarrow>
               (case try_reclaim crc before_writeback candidate (put_queue rest shard, p) of
                  ((shard, p), Ok True) \<Rightarrow>
                    enforce_capacity crc before_writeback queue put_queue capacity n (shard\<lparr>sh_free := sh_free shard + 1\<rparr>, p)
                | ((shard, p), _) \<Rightarrow> (put_queue (queue shard @ [candidate]) shard, p)))"

definition enforce_metadata_capacity :: "(bytes \<Rightarrow> u32) \<Rightarrow> 'b barrier \<Rightarrow> shard \<times> 'b pool \<Rightarrow> shard \<times> 'b pool" where
  "enforce_metadata_capacity crc before_writeback = (\<lambda>(shard, p).
     enforce_capacity crc before_writeback sh_metadata (\<lambda>q sh. sh\<lparr>sh_metadata := q\<rparr>) (sh_metadata_capacity shard)
       (length (sh_metadata shard)) (shard, p))"

definition enforce_streaming_capacity :: "(bytes \<Rightarrow> u32) \<Rightarrow> 'b barrier \<Rightarrow> shard \<times> 'b pool \<Rightarrow> shard \<times> 'b pool" where
  "enforce_streaming_capacity crc before_writeback = (\<lambda>(shard, p).
     enforce_capacity crc before_writeback sh_streaming (\<lambda>q sh. sh\<lparr>sh_streaming := q\<rparr>) (sh_streaming_capacity shard)
       (length (sh_streaming shard)) (shard, p))"

fun demote :: "nat \<Rightarrow> shard \<Rightarrow> shard" where
  "demote 0 shard = shard"
| "demote (Suc n) shard =
     (if length (sh_protected shard) \<le> sh_protected_capacity shard then shard
      else case sh_protected shard of
             [] \<Rightarrow> shard
           | demoted # rest \<Rightarrow>
               let shard = shard\<lparr>sh_protected := rest\<rparr>;
                   shard = (case map_of (sh_resident shard) demoted of
                              None \<Rightarrow> shard
                            | Some frame \<Rightarrow> set_frame demoted (frame\<lparr>fr_protected := False\<rparr>) shard)
               in demote n (shard\<lparr>sh_probationary := sh_probationary shard @ [demoted]\<rparr>))"

definition enforce_protected_capacity :: "shard \<Rightarrow> shard" where
  "enforce_protected_capacity shard = demote (length (sh_protected shard)) shard"

section \<open>Read-ahead queue\<close>

definition ra_push :: "page_id \<Rightarrow> read_ahead_queue \<Rightarrow> read_ahead_queue" where
  "ra_push page_id q = q\<lparr>ra_pending := ra_pending q @ [page_id]\<rparr>"

definition ra_cancel :: "page_id \<Rightarrow> read_ahead_queue \<Rightarrow> read_ahead_queue \<times> bool" where
  "ra_cancel page_id q =
     (if page_id \<in> set (ra_pending q) then (q\<lparr>ra_pending := remove1 page_id (ra_pending q)\<rparr>, True) else (q, False))"

definition cancel_read_ahead :: "page_id \<Rightarrow> 'b pool \<Rightarrow> 'b pool" where
  "cancel_read_ahead page_id p =
     (case ra_cancel page_id (bp_read_ahead p) of
        (q, True) \<Rightarrow> p\<lparr>bp_read_ahead := q, bp_read_ahead_saturated := False\<rparr>
      | (_, False) \<Rightarrow> p)"

section \<open>Access\<close>

definition frame_new :: "cache_class \<Rightarrow> u64 \<Rightarrow> bytes \<Rightarrow> frame" where
  "frame_new cls transaction data =
     \<lparr> fr_data = data, fr_pins = 1, fr_dirty = False, fr_referenced = True, fr_protected = False,
       fr_streaming = (cls = Streaming), fr_metadata = (cls = Metadata), fr_dirtied_by = transaction,
       fr_needs_log = False, fr_prefetched = False, fr_foreground_touched = True \<rparr>"

definition frame_hit :: "page_id \<Rightarrow> frame \<Rightarrow> u64 \<Rightarrow> shard \<Rightarrow> shard" where
  "frame_hit page_id frame transaction shard =
     (let promote = fr_foreground_touched frame \<and> \<not> fr_metadata frame \<and> \<not> fr_streaming frame \<and> \<not> fr_protected frame;
          frame = frame\<lparr>fr_prefetched := False, fr_foreground_touched := True, fr_dirtied_by := transaction,
                    fr_pins := fr_pins frame + 1, fr_referenced := True, fr_protected := fr_protected frame \<or> promote\<rparr>;
          shard = set_frame page_id frame shard
      in if promote
         then enforce_protected_capacity
                (shard\<lparr>sh_probationary := remove_from page_id (sh_probationary shard), sh_protected := sh_protected shard @ [page_id]\<rparr>)
         else shard)"

text \<open>The new frame enters the queue of its class.\<close>

definition admit :: "(bytes \<Rightarrow> u32) \<Rightarrow> 'b barrier \<Rightarrow> page_id \<Rightarrow> cache_class \<Rightarrow> bytes \<Rightarrow> shard \<times> 'b pool \<Rightarrow> shard \<times> 'b pool" where
  "admit crc before_writeback page_id cls data = (\<lambda>(shard, p).
     let frame = frame_new cls (bp_current_transaction p) data; shard = set_frame page_id frame shard in
     case cls of
       Streaming \<Rightarrow> enforce_streaming_capacity crc before_writeback (shard\<lparr>sh_streaming := sh_streaming shard @ [page_id]\<rparr>, p)
     | Metadata \<Rightarrow>
         if sh_metadata_capacity shard = 0
         then ((set_frame page_id (frame\<lparr>fr_metadata := False\<rparr>) shard)\<lparr>sh_probationary := sh_probationary shard @ [page_id]\<rparr>, p)
         else enforce_metadata_capacity crc before_writeback (shard\<lparr>sh_metadata := sh_metadata shard @ [page_id]\<rparr>, p)
     | Search \<Rightarrow> (shard\<lparr>sh_probationary := sh_probationary shard @ [page_id]\<rparr>, p))"

definition take_buffer :: "(bytes \<Rightarrow> u32) \<Rightarrow> 'b barrier \<Rightarrow> page_id \<Rightarrow> cache_class \<Rightarrow> ('b, unit) shard_m" where
  "take_buffer crc before_writeback page_id cls = (\<lambda>(shard, p).
     if sh_free shard > 0 then ((shard\<lparr>sh_free := sh_free shard - 1\<rparr>, p), Ok ())
     else evict_one crc before_writeback page_id cls (shard, p))"

definition load_page :: "(bytes \<Rightarrow> u32) \<Rightarrow> 'b barrier \<Rightarrow> page_id \<Rightarrow> cache_class \<Rightarrow> ('b, unit) shard_m" where
  "load_page crc before_writeback page_id cls = (\<lambda>(shard, p).
     case read_page crc (bp_store p) page_id of
       Ok (_, data) \<Rightarrow> (admit crc before_writeback page_id cls data (shard, p), Ok ())
     | Err e \<Rightarrow> ((shard\<lparr>sh_free := sh_free shard + 1\<rparr>, p), Err e)
     | Panic \<Rightarrow> ((shard, p), Panic))"

definition acquire_in_class :: "(bytes \<Rightarrow> u32) \<Rightarrow> 'b barrier \<Rightarrow> page_id \<Rightarrow> cache_class \<Rightarrow> ('b, unit) pool_m" where
  "acquire_in_class crc before_writeback page_id cls p =
     lock_shard page_id (\<lambda>(shard, p).
       case map_of (sh_resident shard) page_id of
         Some frame \<Rightarrow> ((frame_hit page_id frame (bp_current_transaction p) shard, p), Ok ())
       | None \<Rightarrow> m_then (take_buffer crc before_writeback page_id cls) (load_page crc before_writeback page_id cls) (shard, p))
       (cancel_read_ahead page_id p)"

definition frame_of :: "'b pool \<Rightarrow> page_id \<Rightarrow> frame option" where
  "frame_of p page_id = map_of (sh_resident (bp_shards p ! shard_for p page_id)) page_id"

text \<open>The bytes behind a guard; a guard without a frame does not exist.\<close>

definition guard_bytes :: "'b pool \<Rightarrow> page_id \<Rightarrow> bytes res" where
  "guard_bytes p page_id = (case frame_of p page_id of Some frame \<Rightarrow> Ok (fr_data frame) | None \<Rightarrow> Panic)"

definition get_in_class :: "(bytes \<Rightarrow> u32) \<Rightarrow> 'b barrier \<Rightarrow> page_id \<Rightarrow> cache_class \<Rightarrow> ('b, bytes) pool_m" where
  "get_in_class crc before_writeback page_id cls =
     m_then (acquire_in_class crc before_writeback page_id cls) (m_read (\<lambda>p. guard_bytes p page_id))"

definition get_mut :: "(bytes \<Rightarrow> u32) \<Rightarrow> 'b barrier \<Rightarrow> page_id \<Rightarrow> ('b, bytes) pool_m" where
  "get_mut crc before_writeback page_id p =
     (if bp_read_only p then (p, Err (ReadOnlyPageSource page_id))
      else get_in_class crc before_writeback page_id Search p)"

definition update_frame :: "page_id \<Rightarrow> (frame \<Rightarrow> frame) \<Rightarrow> 'b pool \<Rightarrow> 'b pool" where
  "update_frame page_id f p =
     (let i = shard_for p page_id; shard = bp_shards p ! i in
      case map_of (sh_resident shard) page_id of
        None \<Rightarrow> p
      | Some frame \<Rightarrow> p\<lparr>bp_shards := (bp_shards p)[i := set_frame page_id (f frame) shard]\<rparr>)"

text \<open>The drop of a \<open>PageGuard\<close>, and of a \<open>PageGuardMut\<close> through which \<open>data\<close> was written.\<close>

definition unpin :: "page_id \<Rightarrow> 'b pool \<Rightarrow> 'b pool" where
  "unpin page_id = update_frame page_id (\<lambda>frame. frame\<lparr>fr_pins := fr_pins frame - 1\<rparr>)"

definition release_mut :: "page_id \<Rightarrow> bytes \<Rightarrow> 'b pool \<Rightarrow> 'b pool" where
  "release_mut page_id data p =
     (let p = update_frame page_id (\<lambda>frame. frame\<lparr>fr_data := data, fr_dirty := True, fr_needs_log := True,
                fr_pins := fr_pins frame - 1\<rparr>) p
      in p\<lparr>bp_dirty_index := bs_insert page_id (bp_dirty_index p)\<rparr>)"

definition set_current_transaction :: "u64 \<Rightarrow> 'b pool \<Rightarrow> 'b pool" where
  "set_current_transaction transaction p = p\<lparr>bp_current_transaction := transaction\<rparr>"

end
