(* ===== verification/Pool_Maintain.thy ===== *)
theory Pool_Maintain
  imports Pool
begin

text \<open>
  The maintenance operations of the buffer pool (\<open>pool.rs\<close>): freeing a page, flushing, bounded
  write-back, speculative reads. A time limit is the argument \<open>expired\<close>, which tells whether the
  duration is over when a number of candidates has been examined.
\<close>

section \<open>Freeing pages\<close>

definition on_bp_store :: "'a store_m \<Rightarrow> ('b, 'a) pool_m" where
  "on_bp_store m p = (case m (bp_store p) of (s, r) \<Rightarrow> (p\<lparr>bp_store := s\<rparr>, r))"

definition free_page_immediate :: "(bytes \<Rightarrow> u32) \<Rightarrow> page_id \<Rightarrow> ('b, unit) pool_m" where
  "free_page_immediate crc page_id p =
     (if bp_read_only p then (p, Err (ReadOnlyPageSource page_id))
      else lock_shard page_id (\<lambda>(shard, p).
        case map_of (sh_resident shard) page_id of
          None \<Rightarrow> (case on_bp_store (page_free crc page_id) p of (p, r) \<Rightarrow> ((shard, p), r))
        | Some frame \<Rightarrow>
            if fr_pins frame \<noteq> 0 then ((shard, p), Err (EvictedWhilePinned page_id (of_nat (fr_pins frame))))
            else (case on_bp_store (page_free crc page_id) p of
                    (p, Ok _) \<Rightarrow>
                      (((drop_frame page_id shard)\<lparr>sh_probationary := remove_from page_id (sh_probationary shard),
                          sh_protected := remove_from page_id (sh_protected shard), sh_free := sh_free shard + 1\<rparr>,
                        p\<lparr>bp_dirty_index := bs_remove page_id (bp_dirty_index p)\<rparr>), Ok ())
                  | (p, Err e) \<Rightarrow> ((shard, p), Err e)
                  | (p, Panic) \<Rightarrow> ((shard, p), Panic)))
        (cancel_read_ahead page_id p))"

definition freed_bytes :: "page_store \<Rightarrow> page_id \<Rightarrow> page_header \<Rightarrow> bytes" where
  "freed_bytes s page_id existing =
     header_encode ((header_new page_id Free (ps_page_size s))\<lparr>ph_generation := sat_succ (ph_generation existing)\<rparr>)
       (replicate (ps_page_size s) 0)"

definition free_page_for_transaction ::
  "(bytes \<Rightarrow> u32) \<Rightarrow> 'b barrier \<Rightarrow> page_id \<Rightarrow> u64 \<Rightarrow> ('b, unit) pool_m" where
  "free_page_for_transaction crc before_writeback page_id transaction p =
     (let meta = ps_meta (bp_store p) in
      if bp_read_only p then (p, Err (ReadOnlyPageSource page_id))
      else if page_id = SUPERBLOCK_PAGE_ID \<or> page_id = sb_root_page meta then (p, Err (CannotFreeRootPage page_id))
      else if page_id \<ge> sb_page_count meta then (p, Err (OutOfBounds page_id (sb_page_count meta)))
      else if \<exists>e \<in> set (bp_pending_frees p). page_id \<in> set (snd e) then (p, Err (PageAlreadyFree page_id))
      else m_bind (get_mut crc before_writeback page_id) (\<lambda>data p.
        case header_decode data of
          Err e \<Rightarrow> (release_mut page_id data p, Err e)
        | Panic \<Rightarrow> (p, Panic)
        | Ok existing \<Rightarrow>
            if ph_page_type existing = Free then (release_mut page_id data p, Err (PageAlreadyFree page_id))
            else let p = release_mut page_id (freed_bytes (bp_store p) page_id existing) p;
                     staged = (case bt_get (bp_pending_frees p) transaction of None \<Rightarrow> [] | Some pages \<Rightarrow> pages)
                 in (p\<lparr>bp_pending_frees := bt_insert transaction (staged @ [page_id]) (bp_pending_frees p)\<rparr>, Ok ())) p)"

definition pool_free_page :: "(bytes \<Rightarrow> u32) \<Rightarrow> 'b barrier \<Rightarrow> page_id \<Rightarrow> ('b, unit) pool_m" where
  "pool_free_page crc before_writeback page_id p =
     (if \<not> bp_wal_managed_frees p then free_page_immediate crc page_id p
      else free_page_for_transaction crc before_writeback page_id (bp_current_transaction p) p)"

definition take_pending_frees :: "u64 \<Rightarrow> 'b pool \<Rightarrow> 'b pool \<times> page_id list" where
  "take_pending_frees transaction p =
     (p\<lparr>bp_pending_frees := bt_remove transaction (bp_pending_frees p)\<rparr>,
      case bt_get (bp_pending_frees p) transaction of None \<Rightarrow> [] | Some pages \<Rightarrow> pages)"

section \<open>Flushing\<close>

definition write_back_page :: "(bytes \<Rightarrow> u32) \<Rightarrow> 'b barrier \<Rightarrow> page_id \<Rightarrow> frame \<Rightarrow> ('b, bool) pool_m" where
  "write_back_page crc before_writeback page_id frame p =
     (case write_back_frame crc before_writeback page_id frame p of
        ((frame, p), r) \<Rightarrow> (update_frame page_id (\<lambda>_. frame) p, r))"

definition dirty_frames :: "shard \<Rightarrow> page_id list" where
  "dirty_frames shard = map fst (filter (\<lambda>(_, frame). fr_dirty frame) (sh_resident shard))"

fun flush_pages :: "(bytes \<Rightarrow> u32) \<Rightarrow> 'b barrier \<Rightarrow> page_id list \<Rightarrow> nat \<Rightarrow> ('b, nat) pool_m" where
  "flush_pages crc before_writeback [] flushed p = (p, Ok flushed)"
| "flush_pages crc before_writeback (page_id # page_ids) flushed p =
     (case frame_of p page_id of
        None \<Rightarrow> flush_pages crc before_writeback page_ids flushed p
      | Some frame \<Rightarrow>
          m_bind (write_back_page crc before_writeback page_id frame)
            (\<lambda>written. flush_pages crc before_writeback page_ids (flushed + of_bool written)) p)"

fun flush_shards :: "(bytes \<Rightarrow> u32) \<Rightarrow> 'b barrier \<Rightarrow> nat list \<Rightarrow> nat \<Rightarrow> ('b, nat) pool_m" where
  "flush_shards crc before_writeback [] flushed p = (p, Ok flushed)"
| "flush_shards crc before_writeback (i # is) flushed p =
     m_bind (flush_pages crc before_writeback (dirty_frames (bp_shards p ! i)) flushed)
       (flush_shards crc before_writeback is) p"

definition flush_all :: "(bytes \<Rightarrow> u32) \<Rightarrow> 'b barrier \<Rightarrow> ('b, nat) pool_m" where
  "flush_all crc before_writeback p =
     m_bind (flush_shards crc before_writeback [0..<length (bp_shards p)] 0)
       (\<lambda>flushed. m_bind (on_bp_store (store_flush crc)) (\<lambda>_. m_return flushed)) p"

definition dirty_page_ids :: "'b pool \<Rightarrow> page_id list" where
  "dirty_page_ids p = sort (concat (map dirty_frames (bp_shards p)))"

definition take_pages_needing_log :: "'b pool \<Rightarrow> 'b pool \<times> page_id list" where
  "take_pages_needing_log p =
     (p\<lparr>bp_shards := map (\<lambda>shard. shard\<lparr>sh_resident :=
          map (\<lambda>(page_id, frame). (page_id, frame\<lparr>fr_needs_log := False\<rparr>)) (sh_resident shard)\<rparr>) (bp_shards p)\<rparr>,
      sort (concat (map (\<lambda>shard. map fst (filter (\<lambda>(_, frame). fr_needs_log frame) (sh_resident shard))) (bp_shards p))))"

section \<open>Bounded write-back\<close>

record maintenance_limits =
  ml_max_candidates :: u64
  ml_max_io_bytes :: u64
  ml_max_duration_millis :: u64

definition validate_writeback_limits :: "maintenance_limits \<Rightarrow> nat \<Rightarrow> unit res" where
  "validate_writeback_limits limits page_size =
     rbind (validate_page_size page_size) (\<lambda>_.
       let io_per_page = of_nat page_size * 2 in
       if ml_max_candidates limits = 0 \<or> ml_max_candidates limits > 8192 \<or> ml_max_io_bytes limits < io_per_page \<or>
          ml_max_io_bytes limits > 134217728 \<or> ml_max_duration_millis limits = 0 \<or> ml_max_duration_millis limits > 60000
       then Err InvalidMaintenanceLimits else Ok ())"

datatype stop_reason = Complete | CandidateLimit | IoLimit | DurationLimit

record writeback_report =
  wb_next_page :: "page_id option"
  wb_candidates_examined :: u64
  wb_pages_written :: u64
  wb_page_bytes_written :: u64
  wb_logical_io_bytes :: u64
  wb_pinned_pages_skipped :: u64
  wb_stale_candidates_removed :: u64
  wb_dirty_pages_remaining :: u64
  wb_complete :: bool
  wb_stop_reason :: stop_reason

definition validate_writeback_report :: "writeback_report \<Rightarrow> maintenance_limits \<Rightarrow> nat \<Rightarrow> unit res" where
  "validate_writeback_report report limits page_size =
     rbind (validate_writeback_limits limits page_size) (\<lambda>_.
       if unat (wb_pages_written report) * page_size \<ge> 2 ^ 64 then Err InvalidMaintenanceLimits
       else let page_bytes = wb_pages_written report * of_nat page_size in
         if unat page_bytes * 2 \<ge> 2 ^ 64 then Err InvalidMaintenanceLimits
         else let logical_io_bytes = page_bytes * 2;
                  classified = sat_add (sat_add (wb_pages_written report) (wb_pinned_pages_skipped report))
                                 (wb_stale_candidates_removed report);
                  terminal_agrees = (if wb_stop_reason report = Complete
                    then wb_complete report \<and> wb_next_page report = None
                    else \<not> wb_complete report \<and> wb_next_page report \<noteq> None)
              in if wb_candidates_examined report > ml_max_candidates limits \<or>
                    wb_pages_written report > wb_candidates_examined report \<or>
                    classified > wb_candidates_examined report \<or> wb_page_bytes_written report \<noteq> page_bytes \<or>
                    wb_logical_io_bytes report \<noteq> logical_io_bytes \<or>
                    wb_logical_io_bytes report > ml_max_io_bytes limits \<or> \<not> terminal_agrees
                 then Err InvalidMaintenanceLimits else Ok ())"

text \<open>One candidate of the step: stale, pinned, already clean, or written.\<close>

definition writeback_candidate ::
  "(bytes \<Rightarrow> u32) \<Rightarrow> 'b barrier \<Rightarrow> page_id \<Rightarrow> writeback_report \<Rightarrow> ('b, writeback_report) pool_m" where
  "writeback_candidate crc before_writeback page_id report p =
     (let stale = report\<lparr>wb_stale_candidates_removed := sat_succ (wb_stale_candidates_removed report)\<rparr>;
          unlisted = p\<lparr>bp_dirty_index := bs_remove page_id (bp_dirty_index p)\<rparr>;
          page_size = of_nat (ps_page_size (bp_store p)) :: u64
      in case frame_of p page_id of
           None \<Rightarrow> (unlisted, Ok stale)
         | Some frame \<Rightarrow>
             if \<not> fr_dirty frame then (unlisted, Ok stale)
             else if fr_pins frame \<noteq> 0
             then (p, Ok (report\<lparr>wb_pinned_pages_skipped := sat_succ (wb_pinned_pages_skipped report)\<rparr>))
             else m_bind (write_back_page crc before_writeback page_id frame) (\<lambda>written. m_return
               (if written
                then report\<lparr>wb_pages_written := sat_succ (wb_pages_written report),
                            wb_page_bytes_written := sat_add (wb_page_bytes_written report) page_size,
                            wb_logical_io_bytes := sat_add (wb_logical_io_bytes report) (page_size * 2)\<rparr>
                else stale)) p)"

fun writeback_loop ::
  "(bytes \<Rightarrow> u32) \<Rightarrow> 'b barrier \<Rightarrow> (nat \<Rightarrow> bool) \<Rightarrow> page_id list \<Rightarrow> writeback_report \<Rightarrow> ('b, writeback_report) pool_m" where
  "writeback_loop crc before_writeback expired [] report p = (p, Ok report)"
| "writeback_loop crc before_writeback expired (page_id # candidates) report p =
     (if wb_candidates_examined report \<noteq> 0 \<and> expired (unat (wb_candidates_examined report))
      then (p, Ok (report\<lparr>wb_next_page := Some page_id, wb_stop_reason := DurationLimit\<rparr>))
      else m_bind (writeback_candidate crc before_writeback page_id
               (report\<lparr>wb_candidates_examined := sat_succ (wb_candidates_examined report)\<rparr>))
             (writeback_loop crc before_writeback expired candidates) p)"

definition writeback_step ::
  "(bytes \<Rightarrow> u32) \<Rightarrow> 'b barrier \<Rightarrow> (nat \<Rightarrow> bool) \<Rightarrow> page_id option \<Rightarrow> maintenance_limits \<Rightarrow> ('b, writeback_report) pool_m" where
  "writeback_step crc before_writeback expired cursor limits =
     m_bind m_get (\<lambda>p. let page_size = ps_page_size (bp_store p) in
     m_bind (m_lift (validate_writeback_limits limits page_size)) (\<lambda>_.
       let start_page = (case cursor of None \<Rightarrow> 0 | Some page \<Rightarrow> page);
           io_candidates = ml_max_io_bytes limits div (of_nat page_size * 2);
           candidate_limit = min (ml_max_candidates limits) io_candidates;
           in_range = filter (\<lambda>q. start_page \<le> q) (bp_dirty_index p);
           candidates = take (unat candidate_limit) in_range;
           following = (case drop (unat candidate_limit) in_range of [] \<Rightarrow> None | q # _ \<Rightarrow> Some q);
           report = \<lparr> wb_next_page = None, wb_candidates_examined = 0, wb_pages_written = 0, wb_page_bytes_written = 0,
             wb_logical_io_bytes = 0, wb_pinned_pages_skipped = 0, wb_stale_candidates_removed = 0,
             wb_dirty_pages_remaining = 0, wb_complete = False, wb_stop_reason = Complete \<rparr>
       in m_bind (writeback_loop crc before_writeback expired candidates report) (\<lambda>report.
          m_then (if wb_pages_written report \<noteq> 0 then on_bp_store store_sync else m_return ())
         (m_bind (m_gets (\<lambda>p. of_nat (length (bp_dirty_index p)))) (\<lambda>remaining.
            let report = (if wb_next_page report = None
                  then case following of
                         Some next_page \<Rightarrow> report\<lparr>wb_next_page := Some next_page,
                           wb_stop_reason := (if ml_max_candidates limits \<le> io_candidates then CandidateLimit else IoLimit)\<rparr>
                       | None \<Rightarrow> report\<lparr>wb_complete := True, wb_stop_reason := Complete\<rparr>
                  else report);
                report = report\<lparr>wb_dirty_pages_remaining := remaining\<rparr>
            in m_bind (m_lift (validate_writeback_report report limits page_size)) (\<lambda>_. m_return report))))))"

section \<open>Read-ahead\<close>

record submit_report =
  su_requested :: u64
  su_enqueued :: u64
  su_already_resident :: u64
  su_already_queued :: u64
  su_out_of_bounds :: u64
  su_queue_full :: u64
  su_queue_depth :: u64
  su_undriven :: u64

definition submit_one :: "page_id \<Rightarrow> 'b pool \<times> submit_report \<Rightarrow> 'b pool \<times> submit_report" where
  "submit_one page_id = (\<lambda>(p, report).
     let report = report\<lparr>su_requested := sat_succ (su_requested report)\<rparr> in
     if page_id = 0 \<or> page_id \<ge> sb_page_count (ps_meta (bp_store p))
     then (p, report\<lparr>su_out_of_bounds := sat_succ (su_out_of_bounds report)\<rparr>)
     else if frame_of p page_id \<noteq> None
     then (p, report\<lparr>su_already_resident := sat_succ (su_already_resident report)\<rparr>)
     else if page_id \<in> set (ra_pending (bp_read_ahead p))
     then (p, report\<lparr>su_already_queued := sat_succ (su_already_queued report)\<rparr>)
     else if length (ra_pending (bp_read_ahead p)) \<ge> ra_capacity (bp_read_ahead p)
     then (p\<lparr>bp_read_ahead_saturated := True\<rparr>, report\<lparr>su_queue_full := sat_succ (su_queue_full report)\<rparr>)
     else (p\<lparr>bp_read_ahead := ra_push page_id (bp_read_ahead p)\<rparr>, report\<lparr>su_enqueued := sat_succ (su_enqueued report)\<rparr>))"

definition request_read_ahead :: "page_id list \<Rightarrow> 'b pool \<Rightarrow> 'b pool \<times> submit_report" where
  "request_read_ahead page_ids p =
     (let report = \<lparr> su_requested = 0, su_enqueued = 0, su_already_resident = 0, su_already_queued = 0,
            su_out_of_bounds = 0, su_queue_full = 0, su_queue_depth = 0, su_undriven = 0 \<rparr>;
          depth = \<lambda>p :: 'b pool. of_nat (length (ra_pending (bp_read_ahead p))) :: u64;
          requested = foldl (\<lambda>n _. sat_succ n) 0 page_ids
      in if bp_read_ahead_drivers p = 0
         then (p, report\<lparr>su_requested := requested, su_undriven := requested, su_queue_depth := depth p\<rparr>)
         else if bp_read_ahead_saturated p
         then (p, report\<lparr>su_requested := requested, su_queue_full := requested, su_queue_depth := depth p\<rparr>)
         else case fold submit_one page_ids (p, report) of
                (p, report) \<Rightarrow> (p, report\<lparr>su_queue_depth := depth p\<rparr>))"

text \<open>Only a clean, unpinned, probationary frame makes room for a speculative read.\<close>

fun evict_clean_probationary :: "nat \<Rightarrow> shard \<Rightarrow> shard \<times> bool" where
  "evict_clean_probationary 0 shard = (shard, False)"
| "evict_clean_probationary (Suc n) shard =
     (case sh_probationary shard of
        [] \<Rightarrow> (shard, False)
      | candidate # rest \<Rightarrow>
          let popped = shard\<lparr>sh_probationary := rest\<rparr> in
          (case map_of (sh_resident shard) candidate of
             None \<Rightarrow> evict_clean_probationary n popped
           | Some frame \<Rightarrow>
               if fr_pins frame \<noteq> 0 \<or> fr_dirty frame
               then evict_clean_probationary n (shard\<lparr>sh_probationary := rest @ [candidate]\<rparr>)
               else (drop_frame candidate popped, True)))"

datatype prefetch_outcome = Loaded | AlreadyResident | AdmissionDeclined | ReadError

definition frame_prefetched :: "bytes \<Rightarrow> frame" where
  "frame_prefetched data =
     \<lparr> fr_data = data, fr_pins = 0, fr_dirty = False, fr_referenced = False, fr_protected = False, fr_streaming = False,
       fr_metadata = False, fr_dirtied_by = 0, fr_needs_log = False, fr_prefetched = True, fr_foreground_touched = False \<rparr>"

definition prefetch_one :: "(bytes \<Rightarrow> u32) \<Rightarrow> page_id \<Rightarrow> ('b, prefetch_outcome) pool_m" where
  "prefetch_one crc page_id = lock_shard page_id (\<lambda>(shard, p).
     if map_of (sh_resident shard) page_id \<noteq> None then ((shard, p), Ok AlreadyResident)
     else case (if sh_free shard > 0 then (shard\<lparr>sh_free := sh_free shard - 1\<rparr>, True)
                else evict_clean_probationary (length (sh_probationary shard)) shard) of
            (shard, False) \<Rightarrow> ((shard, p), Ok AdmissionDeclined)
          | (shard, True) \<Rightarrow>
              (case read_page crc (bp_store p) page_id of
                 Ok (_, data) \<Rightarrow>
                   (((set_frame page_id (frame_prefetched data) shard)\<lparr>sh_probationary := sh_probationary shard @ [page_id]\<rparr>, p),
                    Ok Loaded)
               | Err _ \<Rightarrow> ((shard\<lparr>sh_free := sh_free shard + 1\<rparr>, p), Ok ReadError)
               | Panic \<Rightarrow> ((shard, p), Panic)))"

record read_ahead_report =
  rs_candidates_examined :: u64
  rs_pages_loaded :: u64
  rs_already_resident :: u64
  rs_admission_declines :: u64
  rs_read_errors :: u64
  rs_logical_io_bytes :: u64
  rs_queue_depth_remaining :: u64
  rs_complete :: bool
  rs_stop_reason :: stop_reason

definition validate_read_ahead_limits :: "maintenance_limits \<Rightarrow> nat \<Rightarrow> unit res" where
  "validate_read_ahead_limits limits page_size =
     rbind (validate_page_size page_size) (\<lambda>_.
       if ml_max_candidates limits = 0 \<or> ml_max_candidates limits > 8192 \<or> ml_max_io_bytes limits < of_nat page_size \<or>
          ml_max_io_bytes limits > 134217728 \<or> ml_max_duration_millis limits = 0 \<or> ml_max_duration_millis limits > 60000
       then Err InvalidMaintenanceLimits else Ok ())"

definition validate_read_ahead_report :: "read_ahead_report \<Rightarrow> maintenance_limits \<Rightarrow> nat \<Rightarrow> unit res" where
  "validate_read_ahead_report report limits page_size =
     rbind (validate_read_ahead_limits limits page_size) (\<lambda>_.
       let attempted_reads = sat_add (rs_pages_loaded report) (rs_read_errors report) in
       if unat attempted_reads * page_size \<ge> 2 ^ 64 then Err InvalidMaintenanceLimits
       else let logical_io_bytes = attempted_reads * of_nat page_size;
                classified = sat_add (sat_add attempted_reads (rs_already_resident report)) (rs_admission_declines report);
                terminal_agrees = (if rs_stop_reason report = Complete
                  then rs_complete report \<and> rs_queue_depth_remaining report = 0
                  else \<not> rs_complete report \<and> rs_queue_depth_remaining report \<noteq> 0)
            in if rs_candidates_examined report > ml_max_candidates limits \<or> classified \<noteq> rs_candidates_examined report \<or>
                  rs_logical_io_bytes report \<noteq> logical_io_bytes \<or> rs_logical_io_bytes report > ml_max_io_bytes limits \<or>
                  \<not> terminal_agrees
               then Err InvalidMaintenanceLimits else Ok ())"

definition count_prefetch :: "nat \<Rightarrow> prefetch_outcome \<Rightarrow> read_ahead_report \<Rightarrow> read_ahead_report" where
  "count_prefetch page_size outcome report =
     (case outcome of
        Loaded \<Rightarrow> report\<lparr>rs_pages_loaded := sat_succ (rs_pages_loaded report),
                     rs_logical_io_bytes := sat_add (rs_logical_io_bytes report) (of_nat page_size)\<rparr>
      | AlreadyResident \<Rightarrow> report\<lparr>rs_already_resident := sat_succ (rs_already_resident report)\<rparr>
      | AdmissionDeclined \<Rightarrow> report\<lparr>rs_admission_declines := sat_succ (rs_admission_declines report)\<rparr>
      | ReadError \<Rightarrow> report\<lparr>rs_read_errors := sat_succ (rs_read_errors report),
                        rs_logical_io_bytes := sat_add (rs_logical_io_bytes report) (of_nat page_size)\<rparr>)"

text \<open>The loop; \<open>fuel\<close> is the number of candidates that may still be examined. The second result tells whether the queue was seen empty.\<close>

fun read_ahead_loop ::
  "(bytes \<Rightarrow> u32) \<Rightarrow> (nat \<Rightarrow> bool) \<Rightarrow> nat \<Rightarrow> read_ahead_report \<Rightarrow> ('b, read_ahead_report \<times> bool) pool_m" where
  "read_ahead_loop crc expired 0 report p = (p, Ok (report, False))"
| "read_ahead_loop crc expired (Suc fuel) report p =
     (if rs_candidates_examined report \<noteq> 0 \<and> expired (unat (rs_candidates_examined report))
      then (p, Ok (report\<lparr>rs_stop_reason := DurationLimit\<rparr>, False))
      else case ra_pending (bp_read_ahead p) of
             [] \<Rightarrow> (p, Ok (report, True))
           | page_id # rest \<Rightarrow>
               m_bind (prefetch_one crc page_id)
                 (\<lambda>outcome. read_ahead_loop crc expired fuel (count_prefetch (ps_page_size (bp_store p)) outcome
                    (report\<lparr>rs_candidates_examined := sat_succ (rs_candidates_examined report)\<rparr>)))
                 (p\<lparr>bp_read_ahead := (bp_read_ahead p)\<lparr>ra_pending := rest\<rparr>, bp_read_ahead_saturated := False\<rparr>))"

definition finish_read_ahead :: "maintenance_limits \<Rightarrow> u64 \<Rightarrow> u64 \<Rightarrow> bool \<Rightarrow> read_ahead_report \<Rightarrow> read_ahead_report" where
  "finish_read_ahead limits io_candidates queue_depth observed_queue_empty report =
     (let remaining = (if observed_queue_empty then 0 else queue_depth); report = report\<lparr>rs_queue_depth_remaining := remaining\<rparr> in
      if observed_queue_empty \<or> remaining = 0 then report\<lparr>rs_complete := True, rs_stop_reason := Complete\<rparr>
      else if rs_stop_reason report \<noteq> DurationLimit
      then report\<lparr>rs_stop_reason := (if ml_max_candidates limits \<le> io_candidates then CandidateLimit else IoLimit)\<rparr>
      else report)"

definition read_ahead_step ::
  "(bytes \<Rightarrow> u32) \<Rightarrow> (nat \<Rightarrow> bool) \<Rightarrow> maintenance_limits \<Rightarrow> ('b, read_ahead_report) pool_m" where
  "read_ahead_step crc expired limits =
     m_bind (m_gets (\<lambda>p. ps_page_size (bp_store p))) (\<lambda>page_size.
     m_bind (m_lift (validate_read_ahead_limits limits page_size)) (\<lambda>_.
       let io_candidates = ml_max_io_bytes limits div of_nat page_size;
           candidate_limit = min (ml_max_candidates limits) io_candidates;
           report = \<lparr> rs_candidates_examined = 0, rs_pages_loaded = 0, rs_already_resident = 0, rs_admission_declines = 0,
             rs_read_errors = 0, rs_logical_io_bytes = 0, rs_queue_depth_remaining = 0, rs_complete = False,
             rs_stop_reason = Complete \<rparr>
       in m_bind (read_ahead_loop crc expired (unat candidate_limit) report) (\<lambda>(report, observed_queue_empty).
          m_bind (m_gets (\<lambda>p. of_nat (length (ra_pending (bp_read_ahead p))))) (\<lambda>queue_depth.
            let report = finish_read_ahead limits io_candidates queue_depth observed_queue_empty report
            in m_bind (m_lift (validate_read_ahead_report report limits page_size)) (\<lambda>_. m_return report)))))"

definition pool_warm :: "(bytes \<Rightarrow> u32) \<Rightarrow> 'b barrier \<Rightarrow> page_id \<Rightarrow> ('b, bool) pool_m" where
  "pool_warm crc before_writeback page_id p =
     (case get_in_class crc before_writeback page_id Search p of
        (p, Ok _) \<Rightarrow> (unpin page_id p, Ok True)
      | (p, Err (PoolExhausted _ _)) \<Rightarrow> (p, Ok False)
      | (p, Err e) \<Rightarrow> (p, Err e)
      | (p, Panic) \<Rightarrow> (p, Panic))"

end
