(* ===== verification/Pool_Inv.thy ===== *)
theory Pool_Inv
  imports Pool_Maintain
begin

text \<open>
  Coherence of the buffer pool: what a client sees of a page, whether it is in a frame or on
  disk, changes only when the client writes it. Loading, hitting, evicting and writing back keep
  it, whether the barrier succeeds or fails. What is seen of a page is its \<open>content\<close>, the bytes
  apart from the generation stamps and the checksum that a page write sets.
\<close>

section \<open>Content of a page\<close>

definition content :: "bytes \<Rightarrow> bytes" where
  "content b = finalize (\<lambda>_. 0) b 0"

lemma content_finalize: "72 \<le> length b \<Longrightarrow> content (finalize crc b g) = content b"
  unfolding content_def finalize_def compute_checksum_def Let_def
  by (intro nth_equalityI) (simp_all add: nth_put)

lemma length_content [simp]: "72 \<le> length b \<Longrightarrow> length (content b) = length b"
  by (simp add: content_def)

section \<open>Frames and views\<close>

definition page_decodes :: "bytes \<Rightarrow> bool" where
  "page_decodes b \<longleftrightarrow> (\<exists>h. header_decode b = Ok h)"

definition frame_ok :: "(bytes \<Rightarrow> u32) \<Rightarrow> page_store \<Rightarrow> page_id \<Rightarrow> frame \<Rightarrow> bool" where
  "frame_ok crc s q fr \<longleftrightarrow> q \<noteq> 0 \<and> q < sb_page_count (ps_meta s) \<and> length (fr_data fr) = ps_page_size s \<and>
     page_decodes (fr_data fr) \<and> (\<not> fr_dirty fr \<longrightarrow> (\<exists>h. read_page crc s q = Ok (h, fr_data fr)))"

definition store_view :: "(bytes \<Rightarrow> u32) \<Rightarrow> page_store \<Rightarrow> page_id \<Rightarrow> bytes option" where
  "store_view crc s q =
     (if q = 0 then None else case read_page crc s q of Ok (_, b) \<Rightarrow> Some (content b) | _ \<Rightarrow> None)"

definition pool_view :: "(bytes \<Rightarrow> u32) \<Rightarrow> 'b pool \<Rightarrow> page_id \<Rightarrow> bytes option" where
  "pool_view crc p q = (case frame_of p q of Some fr \<Rightarrow> Some (content (fr_data fr)) | None \<Rightarrow> store_view crc (bp_store p) q)"

definition pins :: "'b pool \<Rightarrow> page_id \<Rightarrow> nat" where
  "pins p q = (case frame_of p q of Some fr \<Rightarrow> fr_pins fr | None \<Rightarrow> 0)"

definition placed :: "'b pool \<Rightarrow> bool" where
  "placed p \<longleftrightarrow> bp_shards p \<noteq> [] \<and> (\<forall>i < length (bp_shards p). distinct (map fst (sh_resident (bp_shards p ! i))) \<and>
     (\<forall>q \<in> fst ` set (sh_resident (bp_shards p ! i)). shard_for p q = i))"

definition dirty_listed :: "'b pool \<Rightarrow> bool" where
  "dirty_listed p \<longleftrightarrow> bs_inv (bp_dirty_index p) \<and>
     (\<forall>q. q \<in> set (bp_dirty_index p) \<longleftrightarrow> (\<exists>fr. frame_of p q = Some fr \<and> fr_dirty fr))"

definition coherent :: "(bytes \<Rightarrow> u32) \<Rightarrow> 'b pool \<Rightarrow> bool" where
  "coherent crc p \<longleftrightarrow> store_ok (bp_store p) \<and> dirty_ok (bp_store p) \<and> placed p \<and> dirty_listed p \<and>
     (\<forall>q fr. frame_of p q = Some fr \<longrightarrow> frame_ok crc (bp_store p) q fr)"

lemma coherentD:
  assumes "coherent crc p"
  shows "store_ok (bp_store p)" "dirty_ok (bp_store p)" "placed p" "dirty_listed p"
    "frame_of p q = Some fr \<Longrightarrow> frame_ok crc (bp_store p) q fr"
  using assms by (simp_all add: coherent_def)

definition queued :: "'b pool \<Rightarrow> page_id set" where
  "queued p = set (ra_pending (bp_read_ahead p))"

text \<open>
  \<open>keeps crc p p' f\<close>: the pool stays coherent, shows the same pages over the same store geometry,
  and its pins are \<open>f\<close>.
\<close>

definition keeps :: "(bytes \<Rightarrow> u32) \<Rightarrow> 'b pool \<Rightarrow> 'b pool \<Rightarrow> (page_id \<Rightarrow> nat) \<Rightarrow> bool" where
  "keeps crc p p' f \<longleftrightarrow> coherent crc p' \<and> pool_view crc p \<subseteq>\<^sub>m pool_view crc p' \<and> pins p' = f \<and>
     length (bp_shards p') = length (bp_shards p) \<and> ps_page_size (bp_store p') = ps_page_size (bp_store p) \<and>
     sb_page_count (ps_meta (bp_store p')) = sb_page_count (ps_meta (bp_store p)) \<and>
     free_empty (bp_store p') = free_empty (bp_store p) \<and>
     bp_read_only p' = bp_read_only p \<and> bp_current_transaction p' = bp_current_transaction p \<and> queued p' \<subseteq> queued p"

lemma keeps_refl: "coherent crc p \<Longrightarrow> keeps crc p p (pins p)"
  by (simp add: keeps_def)

lemma keeps_trans: "keeps crc p p' f \<Longrightarrow> keeps crc p' p'' g \<Longrightarrow> keeps crc p p'' g"
  by (auto simp: keeps_def intro: map_le_trans)

lemma keepsD:
  assumes "keeps crc p p' f"
  shows "coherent crc p'" "pins p' = f" "pool_view crc p \<subseteq>\<^sub>m pool_view crc p'" "length (bp_shards p') = length (bp_shards p)"
  using assms by (simp_all add: keeps_def)

lemma shard_for_cong: "length (bp_shards p') = length (bp_shards p) \<Longrightarrow> shard_for p' = shard_for p"
  by (rule ext) (simp add: shard_for_def)

lemma shard_for_less: "bp_shards p \<noteq> [] \<Longrightarrow> shard_for p q < length (bp_shards p)"
  by (simp add: shard_for_def)

section \<open>Changes that no client sees\<close>

text \<open>What coherence and views depend on: bytes, dirty bit and pins of the frames.\<close>

definition frame_key :: "frame \<Rightarrow> bytes \<times> bool \<times> nat" where
  "frame_key fr = (fr_data fr, fr_dirty fr, fr_pins fr)"

definition same_frames :: "'b pool \<Rightarrow> 'b pool \<Rightarrow> bool" where
  "same_frames p p' \<longleftrightarrow> bp_store p' = bp_store p \<and> bp_dirty_index p' = bp_dirty_index p \<and>
     bp_read_only p' = bp_read_only p \<and> bp_current_transaction p' = bp_current_transaction p \<and> queued p' \<subseteq> queued p \<and>
     length (bp_shards p') = length (bp_shards p) \<and> placed p' \<and>
     (\<forall>q. map_option frame_key (frame_of p' q) = map_option frame_key (frame_of p q))"

lemma same_frames_keeps:
  assumes "coherent crc p" "same_frames p p'"
  shows "keeps crc p p' (pins p)"
proof -
  note [simp] = frame_key_def
  have k: "map_option frame_key (frame_of p' q) = map_option frame_key (frame_of p q)" for q
    using assms(2) by (simp add: same_frames_def)
  have s: "bp_store p' = bp_store p" "placed p'" "bp_dirty_index p' = bp_dirty_index p"
    using assms(2) by (simp_all add: same_frames_def)
  have v: "pool_view crc p' q = pool_view crc p q" "pins p' q = pins p q" for q
    using k [of q] s(1) by (auto simp: pool_view_def pins_def split: option.splits)
  have "frame_ok crc (bp_store p) q fr" if "frame_of p' q = Some fr" for q fr
    using k [of q] that coherentD(5) [OF assms(1), of q] by (cases "frame_of p q") (auto simp: frame_ok_def)
  moreover have "(\<exists>fr. frame_of p' q = Some fr \<and> fr_dirty fr) \<longleftrightarrow> (\<exists>fr. frame_of p q = Some fr \<and> fr_dirty fr)" for q
    using k [of q] by (cases "frame_of p q") auto
  ultimately have "coherent crc p'"
    using assms(1) s unfolding coherent_def dirty_listed_def by simp
  moreover have "pool_view crc p' = pool_view crc p" "pins p' = pins p" using v by (simp_all add: fun_eq_iff)
  ultimately show ?thesis using assms(2) by (simp add: keeps_def same_frames_def)
qed

text \<open>The pool with a locked shard put back.\<close>

definition unlock :: "nat \<Rightarrow> shard \<times> 'b pool \<Rightarrow> 'b pool" where
  "unlock i = (\<lambda>(shard, p). p\<lparr>bp_shards := (bp_shards p)[i := shard]\<rparr>)"

lemma lock_shard_unlock:
  "lock_shard q m p = (let i = shard_for p q; r = m (bp_shards p ! i, p) in (unlock i (fst r), snd r))"
  by (simp add: lock_shard_def unlock_def Let_def split: prod.splits)

lemma unlock_same [simp]: "unlock i (bp_shards p ! i, p) = p"
  by (simp add: unlock_def)

lemma unlock_simps [simp]:
  "bp_store (unlock i (sh, p)) = bp_store p" "bp_dirty_index (unlock i (sh, p)) = bp_dirty_index p"
  "length (bp_shards (unlock i (sh, p))) = length (bp_shards p)" "bp_read_only (unlock i (sh, p)) = bp_read_only p"
  "queued (unlock i (sh, p)) = queued p"
  "bp_current_transaction (unlock i (sh, p)) = bp_current_transaction p" "shard_for (unlock i (sh, p)) = shard_for p"
  "bp_shards (unlock i (sh, p)) = (bp_shards p)[i := sh]"
  by (simp_all add: unlock_def fun_eq_iff shard_for_def queued_def)

lemma frame_of_unlock:
  "i < length (bp_shards p) \<Longrightarrow> frame_of (unlock i (sh, p)) q =
     (if shard_for p q = i then map_of (sh_resident sh) q else frame_of p q)"
  by (simp add: frame_of_def)

lemma placed_unlock:
  assumes "placed (unlock i (sh, p))" "length (bp_shards p') = length (bp_shards p)"
    "\<And>j. j \<noteq> i \<Longrightarrow> bp_shards p' ! j = bp_shards p ! j" "distinct (map fst (sh_resident sh'))"
    "\<And>q. q \<in> fst ` set (sh_resident sh') \<Longrightarrow> shard_for p q = i"
  shows "placed (unlock i (sh', p'))"
  unfolding placed_def
proof (intro conjI allI impI)
  show "bp_shards (unlock i (sh', p')) \<noteq> []" using assms(1,2) by (auto simp: placed_def)
  fix j assume j: "j < length (bp_shards (unlock i (sh', p')))"
  have sf: "shard_for p' = shard_for p" by (rule shard_for_cong) (use assms(2) in simp)
  have "j < length (bp_shards p)" using j assms(2) by simp
  then have o: "distinct (map fst (sh_resident ((bp_shards p)[i := sh] ! j)))"
    "\<forall>q \<in> fst ` set (sh_resident ((bp_shards p)[i := sh] ! j)). shard_for p q = j"
    using assms(1) by (auto simp: placed_def)
  then show "distinct (map fst (sh_resident (bp_shards (unlock i (sh', p')) ! j)))"
    "\<forall>q \<in> fst ` set (sh_resident (bp_shards (unlock i (sh', p')) ! j)). shard_for (unlock i (sh', p')) q = j"
    using j assms(2-5) by (cases "j = i"; auto simp: sf)+
qed

lemma frame_of_update:
  assumes "placed p" "frame_of p q = Some fr"
  shows "frame_of (update_frame q f p) x = (if x = q then Some (f fr) else frame_of p x)"
    and "placed (update_frame q f p)"
proof -
  let ?i = "shard_for p q"
  have i: "?i < length (bp_shards p)" using assms(1) by (simp add: placed_def shard_for_less)
  have m: "map_of (sh_resident (bp_shards p ! ?i)) q = Some fr" using assms(2) by (simp add: frame_of_def)
  then have u: "update_frame q f p = unlock ?i (set_frame q (f fr) (bp_shards p ! ?i), p)"
    by (simp add: update_frame_def unlock_def Let_def)
  show "frame_of (update_frame q f p) x = (if x = q then Some (f fr) else frame_of p x)"
    unfolding u frame_of_unlock [OF i] by (simp add: set_frame_def update_conv frame_of_def)
  have q: "q \<in> fst ` set (sh_resident (bp_shards p ! ?i))" using m by (metis domI dom_map_of_conv_image_fst)
  have "placed (unlock ?i (bp_shards p ! ?i, p))" using assms(1) by simp
  then show "placed (update_frame q f p)"
    unfolding u
  proof (rule placed_unlock)
    show "distinct (map fst (sh_resident (set_frame q (f fr) (bp_shards p ! ?i))))"
      using assms(1) i by (simp add: placed_def set_frame_def distinct_update)
    fix x assume "x \<in> fst ` set (sh_resident (set_frame q (f fr) (bp_shards p ! ?i)))"
    then have "x \<in> fst ` set (sh_resident (bp_shards p ! ?i))"
      using q by (auto simp: set_frame_def dom_update)
    then show "shard_for p x = ?i" using assms(1) i by (auto simp: placed_def)
  qed simp_all
qed

lemma update_frame_simps [simp]:
  "bp_store (update_frame q f p) = bp_store p" "bp_dirty_index (update_frame q f p) = bp_dirty_index p"
  "length (bp_shards (update_frame q f p)) = length (bp_shards p)" "bp_read_only (update_frame q f p) = bp_read_only p"
  "queued (update_frame q f p) = queued p"
  "bp_current_transaction (update_frame q f p) = bp_current_transaction p" "bp_barrier (update_frame q f p) = bp_barrier p"
  by (simp_all add: update_frame_def Let_def queued_def split: option.split)

section \<open>Writing a frame back\<close>

definition frame_flags :: "frame \<Rightarrow> bool \<times> bool \<times> bool \<times> nat" where
  "frame_flags fr = (fr_protected fr, fr_streaming fr, fr_metadata fr, fr_pins fr)"

lemma page_decodes_finalize: "72 \<le> length b \<Longrightarrow> page_decodes b \<Longrightarrow> page_decodes (finalize crc b g)"
  using header_decode_finalize by (auto simp: page_decodes_def)

lemma read_page_written:
  assumes "page_image s q = Some (finalize crc b g)" "q < sb_page_count (ps_meta s)" "72 \<le> length b" "page_decodes b"
  shows "\<exists>h. read_page crc s q = Ok (h, finalize crc b g)"
  using assms header_decode_finalize [OF assms(3)]
  by (auto simp: read_page_def read_page_unchecked_image check_image_def verify_finalize_ok page_decodes_def not_le)

lemma check_image_same: "check_image crc q a = Ok (h, b) \<Longrightarrow> b = a"
  by (cases "header_decode a") (auto simp: check_image_def rbind_Ok_iff)

lemma read_page_image:
  assumes "read_page crc s q = Ok (h, b)" "0 < ps_page_size s"
  shows "page_image s q = Some b" "q < sb_page_count (ps_meta s)"
proof -
  have r: "read_page_unchecked crc s q = Ok (h, b)" "q < sb_page_count (ps_meta s)"
    using assms(1) by (auto simp: read_page_def split: if_splits)
  then obtain a where a: "page_image s q = Some a"
    using read_page_unchecked_none [OF _ assms(2), of q crc] by fastforce
  then have "check_image crc q a = Ok (h, b)" using r read_page_unchecked_image [OF a, of crc] by simp
  then have "b = a" by (rule check_image_same)
  then show "page_image s q = Some b" "q < sb_page_count (ps_meta s)" using a r(2) by simp_all
qed

lemma read_page_cong:
  assumes "read_page crc s q = Ok (h, b)" "0 < ps_page_size s" "page_image s' q = page_image s q"
    "sb_page_count (ps_meta s) \<le> sb_page_count (ps_meta s')"
  shows "read_page crc s' q = Ok (h, b)"
proof -
  have "page_image s q = Some b" by (rule read_page_image(1) [OF assms(1,2)])
  then have "read_page_unchecked crc s' q = read_page_unchecked crc s q"
    using assms(3) by (simp add: read_page_unchecked_image)
  then show ?thesis using assms(1,4) by (auto simp: read_page_def split: if_splits)
qed

lemma page_size_bounds: "store_ok s \<Longrightarrow> 72 \<le> ps_page_size s"
  by (simp add: store_ok_def layout_ok_def)

lemma stamped_content:
  "q \<noteq> 0 \<Longrightarrow> stamped crc s q b g = finalize crc b g"
  by (simp add: stamped_def)

lemma write_page_frame:
  assumes c: "coherent crc p" and f: "frame_of p q = Some fr"
  obtains s' g where "write_page crc q (fr_data fr) (bp_store p) = (s', Ok ())" "moves_on (bp_store p) s'"
    "sb_page_count (ps_meta s') = sb_page_count (ps_meta (bp_store p))" "free_empty s' = free_empty (bp_store p)"
    "stamped crc (bp_store p) q (fr_data fr) (sb_generation (ps_meta (bp_store p)) + 1) = finalize crc (fr_data fr) g"
    "\<exists>h. read_page crc s' q = Ok (h, finalize crc (fr_data fr) g)"
    "\<And>x h b. x \<noteq> q \<Longrightarrow> read_page crc (bp_store p) x = Ok (h, b) \<Longrightarrow> read_page crc s' x = Ok (h, b)"
proof -
  let ?s = "bp_store p" and ?b = "fr_data fr"
  let ?g = "sb_generation (ps_meta ?s) + 1"
  have fo: "q \<noteq> 0" "q < sb_page_count (ps_meta ?s)" "length ?b = ps_page_size ?s" "page_decodes ?b"
    using coherentD(5) [OF c f] by (simp_all add: frame_ok_def)
  have ps: "72 \<le> ps_page_size ?s" using page_size_bounds coherentD(1) [OF c] by blast
  obtain s' where s': "write_page crc q ?b ?s = (s', Ok ())" "moves_on ?s s'" "free_empty s' = free_empty ?s"
    "ps_meta s' = (ps_meta ?s)\<lparr>sb_generation := ?g\<rparr>"
    "page_image s' q = Some (stamped crc ?s q ?b ?g)"
    "\<And>x. x < sb_page_count (ps_meta ?s) \<Longrightarrow> x \<noteq> q \<Longrightarrow> page_image ?s x \<noteq> None \<Longrightarrow> page_image s' x = page_image ?s x"
    by (rule write_page_moves_on [OF coherentD(1,2) [OF c] fo(3,2), of crc]) blast
  have st: "stamped crc ?s q ?b ?g = finalize crc ?b ?g" using fo(1) by (rule stamped_content)
  have rd: "read_page crc s' x = Ok (h, b)" if x: "x \<noteq> q" "read_page crc ?s x = Ok (h, b)" for x h b
  proof -
    have "0 < ps_page_size ?s" using ps by simp
    note ri = read_page_image [OF x(2) this]
    show ?thesis
      by (rule read_page_cong [OF x(2)]) (use ps s'(4) s'(6) [OF ri(2) x(1)] ri(1) in simp_all)
  qed
  have "\<exists>h. read_page crc s' q = Ok (h, finalize crc ?b ?g)"
    by (rule read_page_written) (use s'(4,5) st fo ps in simp_all)
  then show thesis by (intro that [OF s'(1,2) _ s'(3) st _ rd]) (simp_all add: s'(4))
qed

text \<open>
  Replacing a frame: the new frame shows the same content, the store shows the other pages as
  before.
\<close>

lemma keeps_replace:
  assumes c: "coherent crc p" and f: "frame_of p q = Some fr" and sh: "bp_shards p' = bp_shards p"
    and s: "moves_on (bp_store p) (bp_store p')" "sb_page_count (ps_meta (bp_store p')) = sb_page_count (ps_meta (bp_store p))"
      "free_empty (bp_store p') = free_empty (bp_store p)"
    and d: "bp_dirty_index p' = (if fr_dirty fr' then bp_dirty_index p else bs_remove q (bp_dirty_index p))"
      "fr_dirty fr' \<longrightarrow> fr_dirty fr" "bp_read_only p' = bp_read_only p" "bp_current_transaction p' = bp_current_transaction p"
      "queued p' = queued p"
    and v: "content (fr_data fr') = content (fr_data fr)" "fr_pins fr' = fr_pins fr" "frame_ok crc (bp_store p') q fr'"
    and o: "\<And>x h b. x \<noteq> q \<Longrightarrow> read_page crc (bp_store p) x = Ok (h, b) \<Longrightarrow> read_page crc (bp_store p') x = Ok (h, b)"
  shows "keeps crc p (update_frame q (\<lambda>_. fr') p') (pins p)"
proof -
  have fo: "frame_of p' x = frame_of p x" for x using sh by (simp add: frame_of_def shard_for_def)
  have pl: "placed p'" using coherentD(3) [OF c] sh by (simp add: placed_def shard_for_def)
  have f': "frame_of p' q = Some fr" using fo f by simp
  note u = frame_of_update [OF pl f', of "\<lambda>_. fr'", unfolded fo]
  have ps: "ps_page_size (bp_store p') = ps_page_size (bp_store p)" using s(1) by (simp add: moves_on_def)
  have sv: "store_view crc (bp_store p') x = store_view crc (bp_store p) x" if "x \<noteq> q" "store_view crc (bp_store p) x \<noteq> None" for x
    using o [OF that(1)] that(2) by (auto simp: store_view_def split: result.splits if_splits)
  have "frame_ok crc (bp_store p') x frx" if "x \<noteq> q" "frame_of p x = Some frx" for x frx
    using coherentD(5) [OF c that(2)] o [OF that(1)] s(2) ps by (auto simp: frame_ok_def)
  with u(1) v(3) have ok: "frame_of (update_frame q (\<lambda>_. fr') p') x = Some frx \<Longrightarrow> frame_ok crc (bp_store p') x frx" for x frx
    by (auto split: if_splits)
  have dl: "dirty_listed (update_frame q (\<lambda>_. fr') p')"
    using coherentD(4) [OF c] u(1) d(1,2) f by (auto simp: dirty_listed_def)
  have "coherent crc (update_frame q (\<lambda>_. fr') p')"
    unfolding coherent_def using s(1) u(2) dl ok by (simp add: moves_on_def)
  moreover have "pool_view crc p \<subseteq>\<^sub>m pool_view crc (update_frame q (\<lambda>_. fr') p')"
    using u(1) sv v(1) f by (auto simp: pool_view_def map_le_def dom_def split: if_splits option.splits)
  moreover have "pins (update_frame q (\<lambda>_. fr') p') x = pins p x" for x
    using u(1) [of x] v(2) f by (simp add: pins_def)
  ultimately show ?thesis using sh s(2,3) ps d(3-5) by (simp add: keeps_def fun_eq_iff)
qed

lemma barrier_for_frame:
  assumes "barrier_for bar q t d p = (p', r)"
  shows "bp_shards p' = bp_shards p" "bp_store p' = bp_store p" "bp_dirty_index p' = bp_dirty_index p"
    "queued p' = queued p" "bp_read_only p' = bp_read_only p" "bp_current_transaction p' = bp_current_transaction p"
  using assms by (auto simp: barrier_for_def queued_def split: option.splits prod.splits)

lemma moves_on_refl: "store_ok s \<Longrightarrow> dirty_ok s \<Longrightarrow> moves_on s s"
  by (simp add: moves_on_def)

lemma keeps_untouched:
  assumes c: "coherent crc p" and f: "frame_of p q = Some fr" and "bp_shards p' = bp_shards p" "bp_store p' = bp_store p"
    "bp_dirty_index p' = bp_dirty_index p" "bp_read_only p' = bp_read_only p"
    "queued p' = queued p" "bp_current_transaction p' = bp_current_transaction p" "fr_dirty fr"
  shows "keeps crc p (update_frame q (\<lambda>_. fr) p') (pins p)"
  by (rule keeps_replace [OF c f])
     (use assms coherentD(1,2) [OF c] coherentD(5) [OF c f] in \<open>simp_all add: moves_on_refl\<close>)

lemma update_frame_same:
  assumes "frame_of p q = Some fr" "placed p"
  shows "same_frames p (update_frame q (\<lambda>_. fr) p)"
  using frame_of_update [OF assms(2,1), of "\<lambda>_. fr"] assms(1) by (simp add: same_frames_def)

lemma write_back_keeps:
  assumes c: "coherent crc p" and f: "frame_of p q = Some fr"
    and w: "write_back_frame crc bar q fr p = ((fr', p'), r)"
  shows "keeps crc p (update_frame q (\<lambda>_. fr') p') (pins p)" "bp_shards p' = bp_shards p" "frame_flags fr' = frame_flags fr"
    "r = Ok b \<Longrightarrow> \<not> fr_dirty fr'" "r \<noteq> Panic \<or> fr' = fr"
proof -
  have "keeps crc p (update_frame q (\<lambda>_. fr') p') (pins p) \<and> bp_shards p' = bp_shards p \<and> frame_flags fr' = frame_flags fr \<and>
    (r = Ok b \<longrightarrow> \<not> fr_dirty fr') \<and> (r \<noteq> Panic \<or> fr' = fr)"
  proof (cases "fr_dirty fr")
    case False
    then have e: "fr' = fr" "p' = p" "r = Ok False" using w by (simp_all add: write_back_frame_def)
    have "keeps crc p (update_frame q (\<lambda>_. fr) p) (pins p)"
      by (rule same_frames_keeps [OF c update_frame_same [OF f coherentD(3) [OF c]]])
    with e False show ?thesis by simp
  next
    case True
    let ?m = "if fr_needs_log fr then barrier_for bar q (fr_dirtied_by fr) (fr_data fr) p else (p, Ok ())"
    obtain p1 r1 where m: "?m = (p1, r1)" by fastforce
    then have p1: "bp_shards p1 = bp_shards p" "bp_store p1 = bp_store p" "bp_dirty_index p1 = bp_dirty_index p"
      "bp_read_only p1 = bp_read_only p" "queued p1 = queued p" "bp_current_transaction p1 = bp_current_transaction p"
      using barrier_for_frame [of bar q "fr_dirtied_by fr" "fr_data fr" p p1 r1] by (auto split: if_splits)
    show ?thesis
    proof (cases "r1 = Ok ()")
      case False
      then have "fr' = fr" "p' = p1" "r \<noteq> Ok b"
        using w True m by (cases r1; auto simp: write_back_frame_def)+
      then show ?thesis using keeps_untouched [OF c f p1 True] p1(1) by simp
    next
      case ok: True
      obtain s' g where s': "write_page crc q (fr_data fr) (bp_store p) = (s', Ok ())" "moves_on (bp_store p) s'"
        "sb_page_count (ps_meta s') = sb_page_count (ps_meta (bp_store p))" "free_empty s' = free_empty (bp_store p)"
        "stamped crc (bp_store p) q (fr_data fr) (sb_generation (ps_meta (bp_store p)) + 1) = finalize crc (fr_data fr) g"
        "\<exists>h. read_page crc s' q = Ok (h, finalize crc (fr_data fr) g)"
        "\<And>x h b. x \<noteq> q \<Longrightarrow> read_page crc (bp_store p) x = Ok (h, b) \<Longrightarrow> read_page crc s' x = Ok (h, b)"
        by (rule write_page_frame [OF c f]) blast
      have e: "fr' = fr\<lparr>fr_data := finalize crc (fr_data fr) g, fr_needs_log := False, fr_dirty := False\<rparr>"
        "p' = p1\<lparr>bp_store := s', bp_dirty_index := bs_remove q (bp_dirty_index p)\<rparr>" "r = Ok True"
        using w True m ok s'(1,5) p1 by (simp_all add: write_back_frame_def write_frame_def Let_def)
      have fo: "q \<noteq> 0" "q < sb_page_count (ps_meta (bp_store p))" "length (fr_data fr) = ps_page_size (bp_store p)"
        "page_decodes (fr_data fr)" using coherentD(5) [OF c f] by (simp_all add: frame_ok_def)
      have ps: "72 \<le> length (fr_data fr)" using page_size_bounds [OF coherentD(1) [OF c]] fo(3) by simp
      have "keeps crc p (update_frame q (\<lambda>_. fr') p') (pins p)"
        by (rule keeps_replace [OF c f])
           (use e p1 s' fo ps in \<open>simp_all add: content_finalize frame_ok_def page_decodes_finalize moves_on_def queued_def\<close>)
      then show ?thesis using e p1(1) by (simp add: frame_flags_def)
    qed
  qed
  then show "keeps crc p (update_frame q (\<lambda>_. fr') p') (pins p)" "bp_shards p' = bp_shards p" "frame_flags fr' = frame_flags fr"
    "r = Ok b \<Longrightarrow> \<not> fr_dirty fr'" "r \<noteq> Panic \<or> fr' = fr" by auto
qed

section \<open>Eviction\<close>

lemma keeps_resident:
  assumes "coherent crc (unlock i (sh, p))" "sh_resident sh' = sh_resident sh"
  shows "keeps crc (unlock i (sh, p)) (unlock i (sh', p)) (pins (unlock i (sh, p)))"
proof (rule same_frames_keeps [OF assms(1)])
  have "map sh_resident ((bp_shards p)[i := sh']) = map sh_resident ((bp_shards p)[i := sh])"
    using assms(2) by (simp add: map_update)
  then have r: "j < length (bp_shards p) \<Longrightarrow> sh_resident ((bp_shards p)[i := sh'] ! j) = sh_resident ((bp_shards p)[i := sh] ! j)" for j
    by (metis length_list_update nth_map)
  have pl: "placed (unlock i (sh, p))" by (rule coherentD(3) [OF assms(1)])
  then have "placed (unlock i (sh', p))" using r by (simp add: placed_def)
  moreover have "frame_of (unlock i (sh', p)) q = frame_of (unlock i (sh, p)) q" for q
    using r pl shard_for_less [of p q] by (simp add: frame_of_def placed_def)
  ultimately show "same_frames (unlock i (sh, p)) (unlock i (sh', p))" by (simp add: same_frames_def)
qed

lemma write_back_unlock:
  assumes "write_back_frame crc bar q fr p = ((fr', p'), r)"
  shows "write_back_frame crc bar q fr (unlock i (sh, p)) = ((fr', unlock i (sh, p')), r)" "bp_shards p' = bp_shards p"
proof -
  have u: "unlock i (sh, p) = p\<lparr>bp_shards := (bp_shards p)[i := sh]\<rparr>" for p :: "'b pool" by (simp add: unlock_def)
  show "write_back_frame crc bar q fr (unlock i (sh, p)) = ((fr', unlock i (sh, p')), r)" "bp_shards p' = bp_shards p"
    using assms by (auto simp: write_back_frame_def write_frame_def barrier_for_def u Let_def
        split: if_splits option.splits prod.splits result.splits)
qed

lemma placed_unlockD:
  assumes "placed (unlock i (sh, p))" "i < length (bp_shards p)"
  shows "distinct (map fst (sh_resident sh))" "q \<in> fst ` set (sh_resident sh) \<Longrightarrow> shard_for p q = i"
proof -
  have "\<forall>j < length (bp_shards p). distinct (map fst (sh_resident ((bp_shards p)[i := sh] ! j))) \<and>
      (\<forall>q \<in> fst ` set (sh_resident ((bp_shards p)[i := sh] ! j)). shard_for p q = j)"
    using assms(1) by (simp add: placed_def)
  from this [rule_format, OF assms(2)]
  show "distinct (map fst (sh_resident sh))" "q \<in> fst ` set (sh_resident sh) \<Longrightarrow> shard_for p q = i"
    using assms(2) by auto
qed

lemma resident_frame_of:
  assumes "placed (unlock i (sh, p))" "i < length (bp_shards p)" "map_of (sh_resident sh) q = Some fr"
  shows "shard_for p q = i" "frame_of (unlock i (sh, p)) q = Some fr"
proof -
  have "q \<in> fst ` set (sh_resident sh)" using assms(3) by (metis domI dom_map_of_conv_image_fst)
  then show "shard_for p q = i" by (rule placed_unlockD(2) [OF assms(1,2)])
  then show "frame_of (unlock i (sh, p)) q = Some fr" using assms by (simp add: frame_of_unlock)
qed

lemma drop_frame_keeps:
  assumes c: "coherent crc (unlock i (sh, p))" and i: "i < length (bp_shards p)"
    and f: "map_of (sh_resident sh) q = Some fr" "\<not> fr_dirty fr" "fr_pins fr = 0"
  shows "keeps crc (unlock i (sh, p)) (unlock i (drop_frame q sh, p)) (pins (unlock i (sh, p)))"
proof -
  let ?p = "unlock i (sh, p)" and ?p' = "unlock i (drop_frame q sh, p)"
  note qi = resident_frame_of [OF coherentD(3) [OF c] i f(1)]
  have fo: "frame_of ?p' x = (if x = q then None else frame_of ?p x)" for x
    using i qi(1) by (simp add: frame_of_unlock drop_frame_def delete_conv)
  have pl: "placed ?p'"
  proof (rule placed_unlock [OF coherentD(3) [OF c]])
    show "distinct (map fst (sh_resident (drop_frame q sh)))"
      using placed_unlockD(1) [OF coherentD(3) [OF c] i] by (simp add: drop_frame_def distinct_delete)
    show "shard_for p x = i" if "x \<in> fst ` set (sh_resident (drop_frame q sh))" for x
      by (rule placed_unlockD(2) [OF coherentD(3) [OF c] i])
         (use that delete_keys [of q "sh_resident sh"] in \<open>auto simp: drop_frame_def simp flip: set_map\<close>)
  qed simp_all
  obtain h where h: "read_page crc (bp_store p) q = Ok (h, fr_data fr)" "q \<noteq> 0"
    using coherentD(5) [OF c qi(2)] f(2) by (auto simp: frame_ok_def)
  have dl: "dirty_listed ?p'" using coherentD(4) [OF c] fo qi(2) f(2) by (auto simp: dirty_listed_def)
  have "coherent crc ?p'" using c pl dl fo unfolding coherent_def by auto
  moreover have "pool_view crc ?p' = pool_view crc ?p" "pins ?p' = pins ?p"
    using fo qi(2) h f(3) by (simp_all add: pool_view_def pins_def store_view_def fun_eq_iff cong: option.case_cong)
  ultimately show ?thesis by (simp add: keeps_def)
qed

lemma try_reclaim_keeps:
  assumes c: "coherent crc (unlock i (sh, p))" and i: "i < length (bp_shards p)"
    and t: "try_reclaim crc bar q (sh, p) = ((sh', p'), r)"
  shows "keeps crc (unlock i (sh, p)) (unlock i (sh', p')) (pins (unlock i (sh, p)))" "length (bp_shards p') = length (bp_shards p)"
proof -
  have "keeps crc (unlock i (sh, p)) (unlock i (sh', p')) (pins (unlock i (sh, p))) \<and> length (bp_shards p') = length (bp_shards p)"
  proof (cases "map_of (sh_resident sh) q")
    case None
    then show ?thesis using t keeps_refl [OF c] by (simp add: try_reclaim_def)
  next
    case (Some fr)
    note qi = resident_frame_of [OF coherentD(3) [OF c] i Some]
    show ?thesis
    proof (cases "fr_pins fr > 0")
      case True
      then show ?thesis using t keeps_refl [OF c] Some by (simp add: try_reclaim_def)
    next
      case False
      obtain fr1 p1 r1 where w: "write_back_frame crc bar q fr p = ((fr1, p1), r1)" by (metis surj_pair)
      note wu = write_back_unlock(1) [OF w, of i sh] write_back_unlock(2) [OF w]
      note k = write_back_keeps [OF c qi(2) wu(1)]
      have l: "length (bp_shards p1) = length (bp_shards p)" using wu(2) by simp
      have u: "update_frame q (\<lambda>_. fr1) (unlock i (sh, p1)) = unlock i (set_frame q fr1 sh, p1)"
        using Some i wu(2) qi(1) shard_for_cong [OF l] by (simp add: update_frame_def unlock_def Let_def shard_for_def)
      have k1: "keeps crc (unlock i (sh, p)) (unlock i (set_frame q fr1 sh, p1)) (pins (unlock i (sh, p)))" using k(1) u by simp
      show ?thesis
      proof (cases "\<exists>b. r1 = Ok b")
        case True
        then obtain b where b: "r1 = Ok b" by blast
        have e: "sh' = drop_frame q sh" "p' = p1" using t Some False w b by (simp_all add: try_reclaim_def)
        have "fr_pins fr1 = 0" using k(3) False by (simp add: frame_flags_def)
        then have "keeps crc (unlock i (set_frame q fr1 sh, p1)) (unlock i (drop_frame q (set_frame q fr1 sh), p1))
            (pins (unlock i (set_frame q fr1 sh, p1)))"
          using k(4) [OF b] i l by (intro drop_frame_keeps [OF keepsD(1) [OF k1]]) (simp_all add: set_frame_def update_conv)
        moreover have "drop_frame q (set_frame q fr1 sh) = drop_frame q sh" by (simp add: drop_frame_def set_frame_def delete_update_same)
        ultimately show ?thesis using keeps_trans [OF k1] e l keepsD(2) [OF k1] by simp
      next
        case False
        then have "sh' = set_frame q fr1 sh" "p' = p1" using t Some \<open>\<not> fr_pins fr > 0\<close> w
          by (cases r1; simp add: try_reclaim_def)+
        then show ?thesis using k1 l by simp
      qed
    qed
  qed
  then show "keeps crc (unlock i (sh, p)) (unlock i (sh', p')) (pins (unlock i (sh, p)))" "length (bp_shards p') = length (bp_shards p)"
    by blast+
qed

text \<open>A step under the shard lock that no client sees; such steps compose.\<close>

definition unseen :: "(bytes \<Rightarrow> u32) \<Rightarrow> nat \<Rightarrow> shard \<times> 'b pool \<Rightarrow> shard \<times> 'b pool \<Rightarrow> bool" where
  "unseen crc i x y \<longleftrightarrow> (i < length (bp_shards (snd x)) \<and> coherent crc (unlock i x) \<longrightarrow>
     i < length (bp_shards (snd y)) \<and> keeps crc (unlock i x) (unlock i y) (pins (unlock i x)))"

lemma unseen_refl [simp, intro]: "unseen crc i x x"
  by (simp add: unseen_def keeps_refl)

lemma unseen_trans [trans]: "unseen crc i x y \<Longrightarrow> unseen crc i y z \<Longrightarrow> unseen crc i x z"
  unfolding unseen_def by (metis keepsD(1,2) keeps_trans)

lemma unseen_resident [intro]: "sh_resident sh' = sh_resident sh \<Longrightarrow> unseen crc i (sh, p) (sh', p)"
  by (simp add: unseen_def keeps_resident)

lemma unseen_reclaim [intro]: "unseen crc i x (fst (try_reclaim crc bar q x))"
proof -
  obtain sh p where x: "x = (sh, p)" by fastforce
  obtain sh' p' r where t: "try_reclaim crc bar q (sh, p) = ((sh', p'), r)" by (metis surj_pair)
  have "unseen crc i (sh, p) (sh', p')"
    unfolding unseen_def using try_reclaim_keeps [OF _ _ t] by (metis snd_conv)
  then show ?thesis using t x by simp
qed

lemma unseen_bind:
  assumes "unseen crc i x (fst (m x))" "\<And>a y. unseen crc i y (fst (f a y))"
  shows "unseen crc i x (fst (m_bind m f x))"
  using assms(1) unseen_trans [OF assms(1) assms(2)] by (auto simp: m_bind_def split: prod.splits result.splits)

lemma unseen_frame_key:
  assumes "map_of (sh_resident sh) q = Some fr" "frame_key fr' = frame_key fr"
  shows "unseen crc i (sh, p) (set_frame q fr' sh, p)"
  unfolding unseen_def
proof (intro impI)
  assume a: "i < length (bp_shards (snd (sh, p))) \<and> coherent crc (unlock i (sh, p))"
  then have pl: "placed (unlock i (sh, p))" and i: "i < length (bp_shards p)" using coherentD(3) by auto
  note qi = resident_frame_of [OF pl i assms(1)]
  have "unlock i (set_frame q fr' sh, p) = update_frame q (\<lambda>_. fr') (unlock i (sh, p))"
    using assms(1) i qi(1) by (simp add: update_frame_def Let_def) (simp add: unlock_def)
  then have "same_frames (unlock i (sh, p)) (unlock i (set_frame q fr' sh, p))"
    using frame_of_update [OF pl qi(2), of "\<lambda>_. fr'"] qi(2) assms(2) by (simp add: same_frames_def)
  then show "i < length (bp_shards (snd (set_frame q fr' sh, p))) \<and>
      keeps crc (unlock i (sh, p)) (unlock i (set_frame q fr' sh, p)) (pins (unlock i (sh, p)))"
    using a by (auto intro: same_frames_keeps)
qed

lemma unseen_evict_from_queue:
  assumes "\<And>q sh. sh_resident (put_queue q sh) = sh_resident sh"
  shows "unseen crc i x (fst (evict_from_queue crc bar queue put_queue n x))"
proof (induction n arbitrary: x)
  case (Suc n)
  obtain sh p where x: "x = (sh, p)" by fastforce
  show ?case
  proof (cases "queue sh")
    case (Cons c rest)
    have "unseen crc i (sh, p) (put_queue rest sh, p)" using assms by blast
    moreover have "unseen crc i (put_queue rest sh, p) (fst (m_bind (try_reclaim crc bar c) (\<lambda>reclaimed (shard, p).
        if reclaimed then ((shard, p), Ok True)
        else evict_from_queue crc bar queue put_queue n (put_queue (queue shard @ [c]) shard, p)) (put_queue rest sh, p)))"
    proof (rule unseen_bind [OF unseen_reclaim])
      fix a and y :: "shard \<times> 'a pool"
      obtain sh1 p1 where y: "y = (sh1, p1)" by fastforce
      have "unseen crc i (sh1, p1) (put_queue (queue sh1 @ [c]) sh1, p1)" using assms by blast
      from unseen_trans [OF this Suc.IH] y
      show "unseen crc i y (fst ((case y of (shard, p) \<Rightarrow> if a then ((shard, p), Ok True)
          else evict_from_queue crc bar queue put_queue n (put_queue (queue shard @ [c]) shard, p))))" by simp
    qed
    ultimately show ?thesis using unseen_trans x Cons by fastforce
  qed (simp add: x)
qed (simp add: m_return_def)

lemma unseen_evict [intro]:
  "unseen crc i x (fst (evict_from_metadata crc bar x))" "unseen crc i x (fst (evict_from_streaming crc bar x))"
  "unseen crc i x (fst (evict_from_probationary crc bar x))"
  by (cases x; simp add: evict_from_metadata_def evict_from_streaming_def evict_from_probationary_def unseen_evict_from_queue)+

lemma unseen_clock_sweep: "unseen crc i x (fst (clock_sweep crc bar n x))"
proof (induction n arbitrary: x)
  case (Suc n)
  obtain sh p where x: "x = (sh, p)" by fastforce
  show ?case
  proof (cases "sh_protected sh")
    case (Cons c rest)
    let ?popped = "sh\<lparr>sh_protected := rest\<rparr>" and ?turned = "sh\<lparr>sh_protected := rest @ [c]\<rparr>"
    have b: "unseen crc i (sh, p) (?turned, p)" "unseen crc i (sh, p) (?popped, p)" by (rule unseen_resident, simp)+
    show ?thesis
    proof (cases "map_of (sh_resident sh) c")
      case None
      then show ?thesis using Cons x unseen_trans [OF b(2) Suc.IH] by simp
    next
      case (Some fr)
      have "unseen crc i (?turned, p) (set_frame c (fr\<lparr>fr_referenced := False\<rparr>) ?turned, p)"
        by (rule unseen_frame_key) (use Some in \<open>simp_all add: frame_key_def\<close>)
      then have s: "unseen crc i (sh, p) (set_frame c (fr\<lparr>fr_referenced := False\<rparr>) ?turned, p)" by (rule unseen_trans [OF b(1)])
      have "unseen crc i (?popped, p) (fst (m_bind (try_reclaim crc bar c) (\<lambda>reclaimed (shard, p).
          if reclaimed then ((shard, p), Ok True)
          else clock_sweep crc bar n (shard\<lparr>sh_protected := sh_protected shard @ [c]\<rparr>, p)) (?popped, p)))"
      proof (rule unseen_bind [OF unseen_reclaim])
        fix a and y :: "shard \<times> 'a pool"
        obtain sh1 p1 where y: "y = (sh1, p1)" by fastforce
        have "unseen crc i (sh1, p1) (sh1\<lparr>sh_protected := sh_protected sh1 @ [c]\<rparr>, p1)" by (rule unseen_resident) simp
        from unseen_trans [OF this Suc.IH] y
        show "unseen crc i y (fst (case y of (shard, p) \<Rightarrow> if a then ((shard, p), Ok True)
            else clock_sweep crc bar n (shard\<lparr>sh_protected := sh_protected shard @ [c]\<rparr>, p)))" by simp
      qed
      from unseen_trans [OF b(2) this] Some Cons x unseen_trans [OF b(1) Suc.IH] unseen_trans [OF s Suc.IH]
      show ?thesis by (simp add: Let_def)
    qed
  qed (simp add: x)
qed (simp add: m_return_def)

lemma unseen_evict_from_protected [intro]: "unseen crc i x (fst (evict_from_protected crc bar x))"
  by (cases x) (simp add: evict_from_protected_def unseen_clock_sweep)

lemma unseen_first_success:
  "(\<And>m x. m \<in> set ms \<Longrightarrow> unseen crc i x (fst (m x))) \<Longrightarrow> unseen crc i x (fst (first_success ms x))"
proof (induction ms arbitrary: x)
  case (Cons m ms)
  have "unseen crc i x (fst (m_bind m (\<lambda>reclaimed. if reclaimed then m_return True else first_success ms) x))"
    by (rule unseen_bind) (use Cons in \<open>auto simp: m_return_def\<close>)
  then show ?case by simp
qed (simp add: m_return_def)

lemma unseen_evict_one: "unseen crc i x (fst (evict_one crc bar q cls x))"
  unfolding evict_one_def
proof (rule unseen_bind, rule unseen_first_success)
  fix m :: "('a, bool) shard_m" and y :: "shard \<times> 'a pool"
  assume "m \<in> set (case cls of Metadata \<Rightarrow> [evict_from_metadata crc bar, evict_from_probationary crc bar,
                       evict_from_streaming crc bar, evict_from_protected crc bar]
        | Search \<Rightarrow> [evict_from_probationary crc bar, evict_from_protected crc bar, evict_from_streaming crc bar]
        | Streaming \<Rightarrow> [evict_from_streaming crc bar, evict_from_probationary crc bar])"
  then show "unseen crc i y (fst (m y))" by (cases cls) auto
qed (simp split: prod.split)

lemma unseen_enforce_capacity:
  assumes "\<And>q sh. sh_resident (put_queue q sh) = sh_resident sh"
  shows "unseen crc i x (enforce_capacity crc bar queue put_queue capacity n x)"
proof (induction n arbitrary: x)
  case (Suc n)
  obtain sh p where x: "x = (sh, p)" by fastforce
  show ?case
  proof (cases "length (queue sh) \<le> capacity \<or> queue sh = []")
    case False
    then obtain c rest where q: "queue sh = c # rest" by (cases "queue sh") auto
    obtain sh1 p1 r where t: "try_reclaim crc bar c (put_queue rest sh, p) = ((sh1, p1), r)" by (metis surj_pair)
    have "unseen crc i (put_queue rest sh, p) (sh1, p1)"
      using unseen_reclaim [of crc i "(put_queue rest sh, p)" bar c] t by simp
    then have u: "unseen crc i (sh, p) (sh1, p1)" using unseen_trans [OF unseen_resident] assms by blast
    have "unseen crc i (sh1, p1) (sh1\<lparr>sh_free := sh_free sh1 + 1\<rparr>, p1)" by (rule unseen_resident) simp
    then have "unseen crc i (sh, p) (enforce_capacity crc bar queue put_queue capacity n (sh1\<lparr>sh_free := sh_free sh1 + 1\<rparr>, p1))"
      using Suc.IH u unseen_trans by blast
    moreover have "unseen crc i (sh1, p1) (put_queue (queue sh1 @ [c]) sh1, p1)" using assms by blast
    then have "unseen crc i (sh, p) (put_queue (queue sh1 @ [c]) sh1, p1)" using u unseen_trans by blast
    ultimately show ?thesis using False q t x by (auto split: result.splits bool.splits)
  qed (auto simp: x)
qed simp

lemma unseen_enforce:
  "unseen crc i x (enforce_streaming_capacity crc bar x)" "unseen crc i x (enforce_metadata_capacity crc bar x)"
  by (cases x; simp add: enforce_streaming_capacity_def enforce_metadata_capacity_def unseen_enforce_capacity)+

lemma unseen_demote: "unseen crc i (sh, p) (demote n sh, p)"
proof (induction n arbitrary: sh)
  case (Suc n)
  show ?case
  proof (cases "length (sh_protected sh) \<le> sh_protected_capacity sh \<or> sh_protected sh = []")
    case False
    then obtain d rest where q: "sh_protected sh = d # rest" by (cases "sh_protected sh") auto
    let ?s1 = "sh\<lparr>sh_protected := rest\<rparr>"
    let ?s2 = "case map_of (sh_resident ?s1) d of None \<Rightarrow> ?s1 | Some fr \<Rightarrow> set_frame d (fr\<lparr>fr_protected := False\<rparr>) ?s1"
    have "unseen crc i (?s1, p) (?s2, p)"
      by (cases "map_of (sh_resident ?s1) d") (auto intro!: unseen_frame_key simp: frame_key_def)
    moreover have "unseen crc i (?s2, p) (?s2\<lparr>sh_probationary := sh_probationary ?s2 @ [d]\<rparr>, p)" by (rule unseen_resident) simp
    moreover have "unseen crc i (sh, p) (?s1, p)" by (rule unseen_resident) simp
    ultimately have "unseen crc i (sh, p) (demote n (?s2\<lparr>sh_probationary := sh_probationary ?s2 @ [d]\<rparr>), p)"
      using Suc.IH unseen_trans by blast
    then show ?thesis using False q by (simp add: Let_def)
  qed auto
qed simp

end
