(* ===== verification/Pool_Access.thy ===== *)
theory Pool_Access
  imports Pool_Inv
begin

text \<open>
  Access to pages through the buffer pool: pinning a page for reading or writing keeps the frames
  coherent and shows the page's bytes; releasing a written page changes that page only.
\<close>

section \<open>Pinning\<close>

lemma keeps_repin:
  assumes c: "coherent crc p" and f: "frame_of p q = Some fr" "fr_data fr' = fr_data fr" "fr_dirty fr' = fr_dirty fr"
  shows "keeps crc p (update_frame q (\<lambda>_. fr') p) ((pins p)(q := fr_pins fr'))"
proof -
  note u = frame_of_update [OF coherentD(3) [OF c] f(1), of "\<lambda>_. fr'"]
  have "frame_ok crc (bp_store p) q fr'" using coherentD(5) [OF c f(1)] f(2,3) by (simp add: frame_ok_def)
  then have ok: "frame_of (update_frame q (\<lambda>_. fr') p) x = Some frx \<Longrightarrow> frame_ok crc (bp_store p) x frx" for x frx
    using u(1) coherentD(5) [OF c, of x frx] by (auto split: if_splits)
  have "dirty_listed (update_frame q (\<lambda>_. fr') p)"
    using coherentD(4) [OF c] u(1) f by (auto simp: dirty_listed_def)
  then have "coherent crc (update_frame q (\<lambda>_. fr') p)"
    unfolding coherent_def using coherentD(1,2) [OF c] u(2) ok by simp
  moreover have "pool_view crc (update_frame q (\<lambda>_. fr') p) = pool_view crc p"
    "pins (update_frame q (\<lambda>_. fr') p) = (pins p)(q := fr_pins fr')"
    using u(1) f by (simp_all add: pool_view_def pins_def fun_eq_iff cong: option.case_cong)
  ultimately show ?thesis by (simp add: keeps_def)
qed

lemma length_page_image: "page_image s q = Some b \<Longrightarrow> length b = ps_page_size s"
  by (auto simp: page_image_def slice_of_def split: if_splits prod.splits)

lemma insert_frame_keeps:
  assumes c: "coherent crc (unlock i (sh, p))" and i: "i < length (bp_shards p)" "shard_for p q = i"
    and n: "map_of (sh_resident sh) q = None" and q: "q \<noteq> 0" "read_page crc (bp_store p) q = Ok (h, fr_data fr)" "\<not> fr_dirty fr"
  shows "keeps crc (unlock i (sh, p)) (unlock i (set_frame q fr sh, p)) ((pins (unlock i (sh, p)))(q := fr_pins fr))"
proof -
  let ?p = "unlock i (sh, p)" and ?p' = "unlock i (set_frame q fr sh, p)"
  have st: "store_ok (bp_store p)" using coherentD(1) [OF c] by simp
  have fo: "frame_of ?p' x = (if x = q then Some fr else frame_of ?p x)" for x
    using i by (simp add: frame_of_unlock set_frame_def update_conv)
  have n': "frame_of ?p q = None" using n i by (simp add: frame_of_unlock)
  have pl: "placed ?p'"
  proof (rule placed_unlock [OF coherentD(3) [OF c]])
    show "distinct (map fst (sh_resident (set_frame q fr sh)))"
      using placed_unlockD(1) [OF coherentD(3) [OF c] i(1)] by (simp add: set_frame_def distinct_update)
    show "shard_for p x = i" if "x \<in> fst ` set (sh_resident (set_frame q fr sh))" for x
      using that i(2) placed_unlockD(2) [OF coherentD(3) [OF c] i(1)] by (auto simp: set_frame_def dom_update)
  qed simp_all
  have ps: "72 \<le> ps_page_size (bp_store p)" using page_size_bounds [OF st] .
  then have im: "page_image (bp_store p) q = Some (fr_data fr)" "q < sb_page_count (ps_meta (bp_store p))"
    using read_page_image [OF q(2)] by simp_all
  have l: "length (fr_data fr) = ps_page_size (bp_store p)"
    by (rule length_page_image [OF im(1)])
  have "read_page_unchecked crc (bp_store p) q = Ok (h, fr_data fr)" using q(2) by (auto simp: read_page_def split: if_splits)
  then have "page_decodes (fr_data fr)"
    using read_page_unchecked_image [OF im(1), of crc]
    by (cases "header_decode (fr_data fr)") (auto simp: check_image_def rbind_Ok_iff page_decodes_def)
  with q l im(2) have "frame_ok crc (bp_store p) q fr" by (auto simp: frame_ok_def)
  then have ok: "frame_of ?p' x = Some frx \<Longrightarrow> frame_ok crc (bp_store p) x frx" for x frx
    using fo coherentD(5) [OF c, of x frx] by (auto split: if_splits)
  have "dirty_listed ?p'" using coherentD(4) [OF c] fo n' q(3) by (auto simp: dirty_listed_def)
  then have "coherent crc ?p'" unfolding coherent_def using coherentD(1,2) [OF c] pl ok by simp
  moreover have "pool_view crc ?p' x = pool_view crc ?p x" for x
    using fo [of x] n' q(1,2) by (cases "x = q") (simp_all add: pool_view_def store_view_def cong: option.case_cong)
  moreover have "pins ?p' x = ((pins ?p)(q := fr_pins fr)) x" for x
    using fo [of x] by (simp add: pins_def)
  ultimately show ?thesis unfolding keeps_def by (simp add: fun_eq_iff map_le_def)
qed

lemma frame_hit_keeps:
  assumes c: "coherent crc (unlock i (sh, p))" and i: "i < length (bp_shards p)" and f: "map_of (sh_resident sh) q = Some fr"
  shows "keeps crc (unlock i (sh, p)) (unlock i (frame_hit q fr t sh, p)) ((pins (unlock i (sh, p)))(q := fr_pins fr + 1))"
proof -
  let ?pr = "fr_foreground_touched fr \<and> \<not> fr_metadata fr \<and> \<not> fr_streaming fr \<and> \<not> fr_protected fr"
  let ?fr = "fr\<lparr>fr_prefetched := False, fr_foreground_touched := True, fr_dirtied_by := t,
    fr_pins := fr_pins fr + 1, fr_referenced := True, fr_protected := fr_protected fr \<or> ?pr\<rparr>"
  note qi = resident_frame_of [OF coherentD(3) [OF c] i f]
  have u: "unlock i (set_frame q ?fr sh, p) = update_frame q (\<lambda>_. ?fr) (unlock i (sh, p))"
    using f i qi(1) by (simp add: update_frame_def Let_def) (simp add: unlock_def)
  have k: "keeps crc (unlock i (sh, p)) (unlock i (set_frame q ?fr sh, p)) ((pins (unlock i (sh, p)))(q := fr_pins fr + 1))"
    using keeps_repin [OF c qi(2), of ?fr] u by simp
  let ?s1 = "set_frame q ?fr sh"
  let ?s2 = "?s1\<lparr>sh_probationary := remove_from q (sh_probationary ?s1), sh_protected := sh_protected ?s1 @ [q]\<rparr>"
  have "unseen crc i (?s1, p) (?s2, p)" by (rule unseen_resident) simp
  then have "unseen crc i (?s1, p) (enforce_protected_capacity ?s2, p)"
    unfolding enforce_protected_capacity_def by (rule unseen_trans [OF _ unseen_demote])
  moreover have "frame_hit q fr t sh = (if ?pr then enforce_protected_capacity ?s2 else ?s1)"
    by (simp only: frame_hit_def Let_def)
  ultimately have "unseen crc i (?s1, p) (frame_hit q fr t sh, p)" by (auto split: if_splits)
  then show ?thesis using k i keeps_trans [OF k] keepsD(1,2) [OF k] by (simp add: unseen_def)
qed

lemma unseen_then_enforce:
  assumes "sh_resident sh' = sh_resident sh"
  shows "unseen crc i (sh, p) (enforce_streaming_capacity crc bar (sh', p))"
    "unseen crc i (sh, p) (enforce_metadata_capacity crc bar (sh', p))"
  using unseen_trans [OF unseen_resident [OF assms]] unseen_enforce by blast+

lemma admit_keeps:
  assumes c: "coherent crc (unlock i (sh, p))" and i: "i < length (bp_shards p)" "shard_for p q = i"
    and n: "map_of (sh_resident sh) q = None" and q: "q \<noteq> 0" "read_page crc (bp_store p) q = Ok (h, b)"
    and a: "admit crc bar q cls b (sh, p) = x"
  shows "i < length (bp_shards (snd x)) \<and> keeps crc (unlock i (sh, p)) (unlock i x) ((pins (unlock i (sh, p)))(q := 1))"
proof -
  let ?fr = "frame_new cls (bp_current_transaction p) b"
  have "unseen crc i (set_frame q ?fr sh, p) x \<or> unseen crc i (set_frame q (?fr\<lparr>fr_metadata := False\<rparr>) sh, p) x"
  proof (cases "cls = Metadata \<and> sh_metadata_capacity (set_frame q ?fr sh) = 0")
    case True
    have "set_frame q y (set_frame q z s) = set_frame q y s" for y z s by (simp add: set_frame_def)
    then have "unseen crc i (set_frame q (?fr\<lparr>fr_metadata := False\<rparr>) sh, p) x"
      using a True by (auto simp: admit_def Let_def intro!: unseen_resident)
    then show ?thesis by blast
  next
    case False
    then have "unseen crc i (set_frame q ?fr sh, p) x"
      using a by (cases cls) (auto simp: admit_def Let_def intro!: unseen_resident unseen_then_enforce)
    then show ?thesis by blast
  qed
  then obtain fr where "fr = ?fr \<or> fr = ?fr\<lparr>fr_metadata := False\<rparr>" "unseen crc i (set_frame q fr sh, p) x" by blast
  then have fr: "fr_data fr = b" "\<not> fr_dirty fr" "fr_pins fr = 1" "unseen crc i (set_frame q fr sh, p) x"
    by (auto simp: frame_new_def)
  have k: "keeps crc (unlock i (sh, p)) (unlock i (set_frame q fr sh, p)) ((pins (unlock i (sh, p)))(q := 1))"
    using insert_frame_keeps [OF c i n q(1), of h fr] q(2) fr by simp
  then show ?thesis using fr(4) i(1) keeps_trans [OF k] keepsD(1,2) [OF k] by (simp add: unseen_def)
qed

lemma cancel_read_ahead_simps [simp]:
  "bp_store (cancel_read_ahead q p) = bp_store p" "bp_shards (cancel_read_ahead q p) = bp_shards p"
  "bp_dirty_index (cancel_read_ahead q p) = bp_dirty_index p" "bp_read_only (cancel_read_ahead q p) = bp_read_only p"
  "bp_current_transaction (cancel_read_ahead q p) = bp_current_transaction p" "bp_barrier (cancel_read_ahead q p) = bp_barrier p"
  by (simp_all add: cancel_read_ahead_def split: prod.split bool.split)

lemma queued_cancel: "queued (cancel_read_ahead q p) \<subseteq> queued p"
  using set_remove1_subset [of q "ra_pending (bp_read_ahead p)"] by (simp add: queued_def cancel_read_ahead_def ra_cancel_def)

lemma keeps_same_shards:
  assumes "coherent crc p" "bp_store p' = bp_store p" "bp_shards p' = bp_shards p" "bp_dirty_index p' = bp_dirty_index p"
    "bp_read_only p' = bp_read_only p" "bp_current_transaction p' = bp_current_transaction p" "queued p' \<subseteq> queued p"
  shows "keeps crc p p' (pins p)"
proof (rule same_frames_keeps [OF assms(1)])
  have "frame_of p' = frame_of p" using assms(3) by (simp add: fun_eq_iff frame_of_def shard_for_def)
  moreover have "placed p'" using coherentD(3) [OF assms(1)] assms(3) by (simp add: placed_def shard_for_def)
  ultimately show "same_frames p p'" using assms by (simp add: same_frames_def)
qed

lemma take_buffer_unseen: "unseen crc i x (fst (take_buffer crc bar q cls x))"
  by (cases x) (auto simp: take_buffer_def unseen_evict_one intro!: unseen_resident)

text \<open>Eviction never makes a page resident.\<close>

definition no_frame :: "page_id \<Rightarrow> shard \<times> 'b pool \<Rightarrow> bool" where
  "no_frame q x \<longleftrightarrow> map_of (sh_resident (fst x)) q = None"

lemma try_reclaim_no_frame: "no_frame q x \<Longrightarrow> no_frame q (fst (try_reclaim crc bar c x))"
  by (cases x) (auto simp: no_frame_def try_reclaim_def drop_frame_def set_frame_def update_conv delete_conv
      split: option.splits prod.splits result.splits)

lemma no_frame_bind:
  assumes "no_frame q (fst (m x))" "\<And>a y. no_frame q y \<Longrightarrow> no_frame q (fst (f a y))"
  shows "no_frame q (fst (m_bind m f x))"
  using assms by (auto simp: m_bind_def split: prod.splits result.splits)

lemma evict_from_queue_no_frame:
  assumes "\<And>q sh. sh_resident (put_queue q sh) = sh_resident sh"
  shows "no_frame q x \<Longrightarrow> no_frame q (fst (evict_from_queue crc bar queue put_queue n x))"
proof (induction n arbitrary: x)
  case (Suc n)
  obtain sh p where x: "x = (sh, p)" by fastforce
  show ?case
  proof (cases "queue sh")
    case (Cons c rest)
    have r: "no_frame q (put_queue qs sh1, p1)" if "no_frame q (sh1, p1)" for qs sh1 and p1 :: "'a pool"
      using that assms by (simp add: no_frame_def)
    have "no_frame q (fst (m_bind (try_reclaim crc bar c) (\<lambda>reclaimed (shard, p).
        if reclaimed then ((shard, p), Ok True)
        else evict_from_queue crc bar queue put_queue n (put_queue (queue shard @ [c]) shard, p)) (put_queue rest sh, p)))"
      by (rule no_frame_bind, rule try_reclaim_no_frame, rule r)
         (use Suc.prems x r Suc.IH in \<open>auto split: prod.split\<close>)
    then show ?thesis using Cons x by simp
  qed (use Suc x in simp)
qed (simp add: m_return_def)

lemma clock_sweep_no_frame: "no_frame q x \<Longrightarrow> no_frame q (fst (clock_sweep crc bar n x))"
proof (induction n arbitrary: x)
  case (Suc n)
  obtain sh p where x: "x = (sh, p)" by fastforce
  show ?case
  proof (cases "sh_protected sh")
    case (Cons c rest)
    have r': "no_frame q (sh1\<lparr>sh_protected := qs\<rparr>, p1)" if "no_frame q (sh1, p1)" for qs sh1 and p1 :: "'a pool"
      using that by (simp add: no_frame_def)
    have r: "no_frame q (sh', p)" if "sh_resident sh' = sh_resident sh" for sh' using Suc.prems x that by (simp add: no_frame_def)
    have "no_frame q (fst (m_bind (try_reclaim crc bar c) (\<lambda>reclaimed (shard, p).
        if reclaimed then ((shard, p), Ok True)
        else clock_sweep crc bar n (shard\<lparr>sh_protected := sh_protected shard @ [c]\<rparr>, p)) (sh\<lparr>sh_protected := rest\<rparr>, p)))"
      by (rule no_frame_bind, rule try_reclaim_no_frame, rule r, simp)
         (use Suc.IH r' in \<open>auto split: prod.split\<close>)
    moreover have "no_frame q (set_frame c fr (sh\<lparr>sh_protected := rest @ [c]\<rparr>), p)" if "map_of (sh_resident sh) c = Some fr'" for fr fr'
      using Suc.prems x that by (auto simp: no_frame_def set_frame_def update_conv)
    ultimately show ?thesis using Cons x Suc.IH r by (auto simp: Let_def split: option.splits)
  qed (use Suc x in simp)
qed (simp add: m_return_def)

lemma evict_no_frame:
  "no_frame q x \<Longrightarrow> no_frame q (fst (evict_from_metadata crc bar x))"
  "no_frame q x \<Longrightarrow> no_frame q (fst (evict_from_streaming crc bar x))"
  "no_frame q x \<Longrightarrow> no_frame q (fst (evict_from_probationary crc bar x))"
  "no_frame q x \<Longrightarrow> no_frame q (fst (evict_from_protected crc bar x))"
  by (cases x; simp add: evict_from_metadata_def evict_from_streaming_def evict_from_probationary_def
      evict_from_protected_def evict_from_queue_no_frame clock_sweep_no_frame)+

lemma first_success_no_frame:
  "(\<And>m x. m \<in> set ms \<Longrightarrow> no_frame q x \<Longrightarrow> no_frame q (fst (m x))) \<Longrightarrow> no_frame q x \<Longrightarrow> no_frame q (fst (first_success ms x))"
proof (induction ms arbitrary: x)
  case (Cons m ms)
  have "no_frame q (fst (m_bind m (\<lambda>reclaimed. if reclaimed then m_return True else first_success ms) x))"
    by (rule no_frame_bind) (use Cons in \<open>auto simp: m_return_def\<close>)
  then show ?case by simp
qed (simp add: m_return_def)

lemma take_buffer_no_frame:
  assumes "no_frame q x"
  shows "no_frame q (fst (take_buffer crc bar c cls x))"
proof -
  have "no_frame q (fst (evict_one crc bar c cls x))"
    unfolding evict_one_def
    by (rule no_frame_bind, rule first_success_no_frame [OF _ assms])
       (cases cls, auto simp: evict_no_frame split: prod.split)
  then show ?thesis using assms by (cases x) (auto simp: take_buffer_def no_frame_def)
qed

section \<open>Acquiring and releasing\<close>

lemma load_page_keeps:
  assumes c: "coherent crc (unlock i (sh, p))" and i: "i < length (bp_shards p)" "shard_for p q = i"
    and n: "map_of (sh_resident sh) q = None" and q: "q \<noteq> 0" and l: "load_page crc bar q cls (sh, p) = (y, r)"
  shows "keeps crc (unlock i (sh, p)) (unlock i y) (if r = Ok () then (pins (unlock i (sh, p)))(q := 1) else pins (unlock i (sh, p)))"
proof (cases "read_page crc (bp_store p) q")
  case (Ok hb)
  then obtain h b where b: "read_page crc (bp_store p) q = Ok (h, b)" by (cases hb) simp
  then have "y = admit crc bar q cls b (sh, p)" "r = Ok ()" using l by (auto simp: load_page_def)
  then show ?thesis using admit_keeps [OF c i n q b, of bar cls y] by simp
next
  case (Err e)
  then have y: "y = (sh\<lparr>sh_free := sh_free sh + 1\<rparr>, p)" "r \<noteq> Ok ()" using l by (auto simp: load_page_def)
  then show ?thesis using keeps_resident [OF c, of "sh\<lparr>sh_free := sh_free sh + 1\<rparr>"] by simp
next
  case Panic
  then show ?thesis using l keeps_refl [OF c] by (auto simp: load_page_def)
qed

lemma acquire_keeps:
  assumes c: "coherent crc p" and q: "q \<noteq> 0" and a: "acquire_in_class crc bar q cls p = (p', r)"
  shows "keeps crc p p' (if r = Ok () then (pins p)(q := pins p q + 1) else pins p)"
proof -
  let ?p = "cancel_read_ahead q p" and ?i = "shard_for p q"
  have k0: "keeps crc p ?p (pins p)" by (rule keeps_same_shards [OF c]) (simp_all add: queued_cancel)
  have sf: "shard_for ?p = shard_for p" by (rule shard_for_cong) simp
  let ?sh = "bp_shards p ! ?i"
  have i: "?i < length (bp_shards ?p)" using coherentD(3) [OF c] by (simp add: placed_def shard_for_less)
  have u: "unlock ?i (?sh, ?p) = ?p" using unlock_same [of ?i ?p] by simp
  have cp: "coherent crc ?p" "pins ?p = pins p" using keepsD(1,2) [OF k0] by simp_all
  have fo: "map_of (sh_resident ?sh) q = frame_of ?p q" using sf by (simp add: frame_of_def)
  have "keeps crc ?p p' (if r = Ok () then (pins ?p)(q := pins ?p q + 1) else pins ?p)"
  proof (cases "map_of (sh_resident ?sh) q")
    case (Some fr)
    then have "p' = unlock ?i (frame_hit q fr (bp_current_transaction p) ?sh, ?p)" "r = Ok ()"
      using a by (simp_all add: acquire_in_class_def lock_shard_unlock sf Let_def)
    moreover have "pins ?p q = fr_pins fr" using Some fo by (simp add: pins_def)
    ultimately show ?thesis
      using frame_hit_keeps [of crc ?i ?sh ?p q fr "bp_current_transaction p"] Some i u cp by simp
  next
    case None
    obtain sh1 p1 r1 where t: "take_buffer crc bar q cls (?sh, ?p) = ((sh1, p1), r1)" by (metis surj_pair)
    have n: "map_of (sh_resident sh1) q = None"
      using take_buffer_no_frame [of q "(?sh, ?p)" crc bar q cls] None t by (simp add: no_frame_def)
    have k1: "keeps crc ?p (unlock ?i (sh1, p1)) (pins ?p)" "?i < length (bp_shards p1)"
      using take_buffer_unseen [of crc ?i "(?sh, ?p)" bar q cls] t u i cp by (simp_all add: unseen_def)
    have pq: "pins ?p q = 0" using None fo by (simp add: pins_def)
    have sf1: "shard_for p1 q = ?i"
      using keepsD(4) [OF k1(1)] sf shard_for_cong [of p1 ?p] by (simp add: fun_eq_iff)
    show ?thesis
    proof (cases "r1 = Ok ()")
      case True
      obtain y r2 where l: "load_page crc bar q cls (sh1, p1) = (y, r2)" by fastforce
      have "p' = unlock ?i y" "r = r2"
        using a None t True l by (simp_all add: acquire_in_class_def lock_shard_unlock sf m_then_def m_bind_Ok Let_def)
      then show ?thesis
        using keeps_trans [OF k1(1) load_page_keeps [OF keepsD(1) [OF k1(1)] k1(2) sf1 n q l]] keepsD(2) [OF k1(1)] pq
        by (cases "r2 = Ok ()") simp_all
    next
      case False
      then have "p' = unlock ?i (sh1, p1)" "r \<noteq> Ok ()"
        using a None t by (cases r1; simp add: acquire_in_class_def lock_shard_unlock sf m_then_def m_bind_def Let_def)+
      then show ?thesis using k1(1) by simp
    qed
  qed
  from keeps_trans [OF k0 this] show ?thesis using cp(2) by (cases "r = Ok ()") simp_all
qed

lemma pinned_frame: "0 < pins p q \<Longrightarrow> \<exists>fr. frame_of p q = Some fr"
  by (cases "frame_of p q") (simp_all add: pins_def)

lemma get_in_class_keeps:
  assumes c: "coherent crc p" and q: "q \<noteq> 0" and g: "get_in_class crc bar q cls p = (p', r)"
  shows "case r of Ok b \<Rightarrow> keeps crc p p' ((pins p)(q := pins p q + 1)) \<and> pool_view crc p' q = Some (content b) \<and>
      (\<exists>fr. frame_of p' q = Some fr \<and> fr_data fr = b)
    | _ \<Rightarrow> keeps crc p p' (pins p)"
proof -
  obtain p1 r1 where a: "acquire_in_class crc bar q cls p = (p1, r1)" by fastforce
  note k = acquire_keeps [OF c q a]
  show ?thesis
  proof (cases "r1 = Ok ()")
    case True
    then obtain fr where "frame_of p1 q = Some fr" using pinned_frame [of p1 q] keepsD(2) [OF k] by auto
    then show ?thesis
      using g a True k by (auto simp: get_in_class_def m_then_def m_bind_def m_read_def guard_bytes_def pool_view_def)
  next
    case False
    then have "p' = p1 \<and> (r = Panic \<or> (\<exists>e. r = Err e))"
      using g a by (cases r1) (auto simp: get_in_class_def m_then_def m_bind_def)
    then show ?thesis using k False by auto
  qed
qed

lemma unpin_keeps:
  assumes "coherent crc p" "frame_of p q = Some fr"
  shows "keeps crc p (unpin q p) ((pins p)(q := pins p q - 1))"
proof -
  have "unpin q p = update_frame q (\<lambda>_. fr\<lparr>fr_pins := fr_pins fr - 1\<rparr>) p"
    using assms(2) by (simp add: unpin_def update_frame_def frame_of_def Let_def)
  then show ?thesis using keeps_repin [OF assms, of "fr\<lparr>fr_pins := fr_pins fr - 1\<rparr>"] assms(2) by (simp add: pins_def)
qed

lemma release_mut_view:
  assumes c: "coherent crc p" and f: "frame_of p q = Some fr" and d: "length data = ps_page_size (bp_store p)" "page_decodes data"
  shows "coherent crc (release_mut q data p)" "pool_view crc (release_mut q data p) = (pool_view crc p)(q \<mapsto> content data)"
    "pins (release_mut q data p) = (pins p)(q := pins p q - 1)"
proof -
  let ?fr = "fr\<lparr>fr_data := data, fr_dirty := True, fr_needs_log := True, fr_pins := fr_pins fr - 1\<rparr>"
  let ?u = "update_frame q (\<lambda>_. ?fr) p"
  have r: "release_mut q data p = ?u\<lparr>bp_dirty_index := bs_insert q (bp_dirty_index p)\<rparr>"
    using f by (simp add: release_mut_def update_frame_def frame_of_def Let_def)
  have fo: "frame_of (release_mut q data p) x = (if x = q then Some ?fr else frame_of p x)" for x
    using frame_of_update(1) [OF coherentD(3) [OF c] f, of "\<lambda>_. ?fr" x] r by (simp add: frame_of_def shard_for_def)
  have pl: "placed (release_mut q data p)"
    using frame_of_update(2) [OF coherentD(3) [OF c] f, of "\<lambda>_. ?fr"] r by (simp add: placed_def shard_for_def)
  have st: "bp_store (release_mut q data p) = bp_store p" by (simp add: r)
  have "frame_ok crc (bp_store p) q ?fr" using coherentD(5) [OF c f] d by (simp add: frame_ok_def)
  then have ok: "frame_of (release_mut q data p) x = Some frx \<Longrightarrow> frame_ok crc (bp_store p) x frx" for x frx
    using fo [of x] coherentD(5) [OF c, of x frx] by (auto split: if_splits)
  have "dirty_listed (release_mut q data p)"
    using coherentD(4) [OF c] fo r by (auto simp: dirty_listed_def)
  then show "coherent crc (release_mut q data p)"
    unfolding coherent_def using coherentD(1,2) [OF c] pl ok st by simp
  show "pool_view crc (release_mut q data p) = (pool_view crc p)(q \<mapsto> content data)"
    "pins (release_mut q data p) = (pins p)(q := pins p q - 1)"
    using fo st f by (simp_all add: pool_view_def pins_def fun_eq_iff cong: option.case_cong)
qed

end
