(* ===== verification/Pool_History.thy ===== *)
theory Pool_History
  imports Pool_Access Pool_Maintain Store_Reopen
begin

text \<open>
  The buffer pool as a memory of pages: flushing, bounded write-back and read-ahead are invisible to
  the clients, and a history of reads, writes and maintenance steps refines a map from page ids to
  contents.
\<close>

section \<open>Maintenance is invisible\<close>

definition hidden :: "(bytes \<Rightarrow> u32) \<Rightarrow> ('b, 'a) pool_m \<Rightarrow> bool" where
  "hidden crc m \<longleftrightarrow> (\<forall>p. coherent crc p \<and> 0 \<notin> queued p \<longrightarrow> keeps crc p (fst (m p)) (pins p))"

lemma hidden_at: "hidden crc m \<Longrightarrow> coherent crc p \<Longrightarrow> 0 \<notin> queued p \<Longrightarrow> m p = (p', r) \<Longrightarrow> keeps crc p p' (pins p)"
  unfolding hidden_def by (metis fst_conv)

lemma keeps_bind:
  assumes "keeps crc p (fst (m p)) (pins p)" "0 \<notin> queued p" "\<And>a. hidden crc (f a)"
  shows "keeps crc p (fst (m_bind m f p)) (pins p)"
proof -
  obtain p1 r1 where m: "m p = (p1, r1)" by fastforce
  have k: "keeps crc p p1 (pins p)" using assms(1) m by simp
  then have "0 \<notin> queued p1" using assms(2) by (auto simp: keeps_def)
  then have "keeps crc p1 (fst (f a p1)) (pins p1)" for a
    using assms(3) keepsD(1) [OF k] by (simp add: hidden_def)
  then show ?thesis
    using k keepsD(2) [OF k] keeps_trans [OF k] m by (cases r1) (simp_all add: m_bind_def)
qed

lemma hidden_bind: "hidden crc m \<Longrightarrow> (\<And>a. hidden crc (f a)) \<Longrightarrow> hidden crc (m_bind m f)"
  using keeps_bind unfolding hidden_def by (metis hidden_def)

lemma hidden_pure [simp]: "hidden crc (m_return a)" "hidden crc (m_lift r)" "hidden crc m_get" "hidden crc (m_gets g)"
  by (simp_all add: hidden_def m_return_def m_lift_def m_get_def m_gets_def keeps_refl)

lemma store_change_keeps:
  assumes c: "coherent crc p" and s: "moves_on (bp_store p) s" "sb_page_count (ps_meta s) = sb_page_count (ps_meta (bp_store p))"
    "free_empty s = free_empty (bp_store p)"
    and r: "\<And>q h b. q \<noteq> 0 \<Longrightarrow> read_page crc (bp_store p) q = Ok (h, b) \<Longrightarrow> read_page crc s q = Ok (h, b)"
  shows "keeps crc p (p\<lparr>bp_store := s\<rparr>) (pins p)"
proof -
  have fo: "frame_of (p\<lparr>bp_store := s\<rparr>) q = frame_of p q" for q by (simp add: frame_of_def shard_for_def)
  have pl: "placed (p\<lparr>bp_store := s\<rparr>)" using coherentD(3) [OF c] by (simp add: placed_def shard_for_def)
  have dl: "dirty_listed (p\<lparr>bp_store := s\<rparr>)" using coherentD(4) [OF c] fo by (simp add: dirty_listed_def)
  have "frame_ok crc s q fr" if "frame_of p q = Some fr" for q fr
    using coherentD(5) [OF c that] s r [of q] by (auto simp: frame_ok_def moves_on_def)
  then have "coherent crc (p\<lparr>bp_store := s\<rparr>)" unfolding coherent_def using s(1) pl dl fo by (simp add: moves_on_def)
  moreover have "pool_view crc p \<subseteq>\<^sub>m pool_view crc (p\<lparr>bp_store := s\<rparr>)"
    using fo r by (auto simp: map_le_def pool_view_def store_view_def split: option.splits if_splits result.splits)
  ultimately show ?thesis using s fo by (simp add: keeps_def moves_on_def pins_def fun_eq_iff queued_def)
qed

lemma hidden_flush_store: "hidden crc (on_bp_store (store_flush crc))"
  unfolding hidden_def
proof (intro allI impI)
  fix p :: "'a pool"
  assume "coherent crc p \<and> 0 \<notin> queued p"
  then have c: "coherent crc p" by simp
  note s = coherentD(1,2) [OF c]
  have ps: "0 < ps_page_size (bp_store p)" using page_size_bounds [OF s(1)] by simp
  obtain s' where s': "store_flush crc (bp_store p) = (s', Ok ())" "moves_on (bp_store p) s'" "ps_meta s' = ps_meta (bp_store p)"
    "\<And>q. q \<noteq> 0 \<Longrightarrow> q < sb_page_count (ps_meta (bp_store p)) \<Longrightarrow> page_image (bp_store p) q \<noteq> None \<Longrightarrow>
      page_image s' q = page_image (bp_store p) q" by (rule flush_moves_on [OF s, of crc]) blast
  have "read_page crc s' q = Ok (h, b)" if "q \<noteq> 0" "read_page crc (bp_store p) q = Ok (h, b)" for q h b
    using read_page_cong [OF that(2) ps] read_page_image [OF that(2) ps] s'(2-4) that(1) by (simp add: moves_on_def)
  then have "keeps crc p (p\<lparr>bp_store := s'\<rparr>) (pins p)"
    using store_change_keeps [OF c s'(2)] s'(3) by (simp add: free_empty_def)
  then show "keeps crc p (fst (on_bp_store (store_flush crc) p)) (pins p)" using s'(1) by (simp add: on_bp_store_def)
qed

lemma hidden_sync_store: "hidden crc (on_bp_store store_sync)"
  unfolding hidden_def
proof (intro allI impI)
  fix p :: "'a pool"
  assume "coherent crc p \<and> 0 \<notin> queued p"
  then have c: "coherent crc p" by simp
  let ?s = "bp_store p" and ?s' = "(bp_store p)\<lparr>ps_dirty_segments := []\<rparr>"
  note s = coherentD(1,2) [OF c]
  have ps: "0 < ps_page_size ?s" using page_size_bounds [OF s(1)] by simp
  have "read_page crc ?s' q = Ok (h, b)" if "read_page crc ?s q = Ok (h, b)" for q h b
    using read_page_cong [OF that ps, of ?s'] by (simp add: page_image_def locate_def)
  moreover have "moves_on ?s ?s'" using s by (simp add: moves_on_def store_ok_def layout_ok_def dirty_ok_def)
  ultimately have "keeps crc p (p\<lparr>bp_store := ?s'\<rparr>) (pins p)"
    using store_change_keeps [OF c] by (simp add: free_empty_def)
  then show "keeps crc p (fst (on_bp_store store_sync p)) (pins p)"
    using keeps_refl [OF c] sync_ok(2) [OF s(2)] by (simp add: on_bp_store_def)
qed

lemma write_back_page_keeps:
  assumes "coherent crc p" "frame_of p q = Some fr"
  shows "keeps crc p (fst (write_back_page crc bar q fr p)) (pins p)"
  using write_back_keeps(1) [OF assms] by (simp add: write_back_page_def split: prod.split)

lemma hidden_flush_pages: "hidden crc (flush_pages crc bar ids n)"
proof (induction ids arbitrary: n)
  case Nil
  then show ?case by (simp add: hidden_def keeps_refl)
next
  case (Cons q ids)
  show ?case unfolding hidden_def
  proof (intro allI impI)
    fix p :: "'a pool"
    assume c: "coherent crc p \<and> 0 \<notin> queued p"
    show "keeps crc p (fst (flush_pages crc bar (q # ids) n p)) (pins p)"
    proof (cases "frame_of p q")
      case None
      then show ?thesis using c Cons.IH [of n] by (simp add: hidden_def)
    next
      case (Some fr)
      have "keeps crc p (fst (m_bind (write_back_page crc bar q fr) (\<lambda>w. flush_pages crc bar ids (n + of_bool w)) p)) (pins p)"
        using c Some by (intro keeps_bind write_back_page_keeps Cons.IH) simp_all
      then show ?thesis using Some by simp
    qed
  qed
qed

lemma hidden_flush_shards: "hidden crc (flush_shards crc bar is n)"
proof (induction "is" arbitrary: n)
  case (Cons i "is")
  have "keeps crc p (fst (flush_pages crc bar xs n p)) (pins p)" if "coherent crc p" "0 \<notin> queued p" for p xs
    using hidden_flush_pages that unfolding hidden_def by blast
  then have "keeps crc p (fst (flush_shards crc bar (i # is) n p)) (pins p)" if "coherent crc p" "0 \<notin> queued p" for p
    unfolding flush_shards.simps using that by (intro keeps_bind) (auto intro: Cons.IH)
  then show ?case by (simp add: hidden_def)
qed (simp add: hidden_def keeps_refl)

lemma hidden_flush_all: "hidden crc (flush_all crc bar)"
proof -
  have "hidden crc (m_bind (flush_shards crc bar is 0)
      (\<lambda>flushed. m_bind (on_bp_store (store_flush crc)) (\<lambda>_. m_return flushed)))" for "is"
    by (intro hidden_bind hidden_flush_shards hidden_flush_store hidden_pure)
  then show ?thesis unfolding hidden_def flush_all_def by blast
qed

lemma unlist_keeps:
  assumes c: "coherent crc p" and q: "\<And>fr. frame_of p q = Some fr \<Longrightarrow> \<not> fr_dirty fr"
  shows "keeps crc p (p\<lparr>bp_dirty_index := bs_remove q (bp_dirty_index p)\<rparr>) (pins p)"
proof -
  have "q \<notin> set (bp_dirty_index p)" using coherentD(4) [OF c] q by (auto simp: dirty_listed_def)
  then have "bs_remove q (bp_dirty_index p) = bp_dirty_index p" by (auto simp: bs_remove_def filter_id_conv)
  then show ?thesis using keeps_refl [OF c] by simp
qed

lemma hidden_writeback_candidate: "hidden crc (writeback_candidate crc bar q rep)"
  unfolding hidden_def
proof (intro allI impI)
  fix p :: "'a pool"
  assume c: "coherent crc p \<and> 0 \<notin> queued p"
  show "keeps crc p (fst (writeback_candidate crc bar q rep p)) (pins p)"
  proof (cases "frame_of p q")
    case None
    then show ?thesis using c unlist_keeps [of crc p q] by (simp add: writeback_candidate_def Let_def)
  next
    case (Some fr)
    have "keeps crc p (fst (m_bind (write_back_page crc bar q fr) (\<lambda>w. m_return (g w)) p)) (pins p)" for g :: "bool \<Rightarrow> writeback_report"
      using c Some by (intro keeps_bind write_back_page_keeps) simp_all
    then show ?thesis
      using c Some unlist_keeps [of crc p q] keeps_refl [of crc p] by (simp add: writeback_candidate_def Let_def)
  qed
qed

lemma hidden_writeback_loop: "hidden crc (writeback_loop crc bar expired cs rep)"
proof (induction cs arbitrary: rep)
  case (Cons q cs)
  have "hidden crc (m_bind (writeback_candidate crc bar q r) (writeback_loop crc bar expired cs))" for r
    by (intro hidden_bind hidden_writeback_candidate Cons.IH)
  then show ?case by (simp add: hidden_def keeps_refl)
qed (simp add: hidden_def keeps_refl)

lemma hidden_if: "hidden crc m \<Longrightarrow> hidden crc m' \<Longrightarrow> hidden crc (if b then m else m')"
  by simp

lemma hidden_writeback_step: "hidden crc (writeback_step crc bar expired cursor limits)"
  unfolding writeback_step_def Let_def m_then_def
  by (intro hidden_bind hidden_if hidden_writeback_loop hidden_sync_store hidden_pure)

section \<open>Read-ahead is invisible\<close>

lemma unseen_drop:
  assumes "map_of (sh_resident sh) q = Some fr" "\<not> fr_dirty fr" "fr_pins fr = 0"
  shows "unseen crc i (sh, p) (drop_frame q sh, p)"
  unfolding unseen_def using drop_frame_keeps [OF _ _ assms] by auto

lemma evict_clean_unseen: "unseen crc i (sh, p) (fst (evict_clean_probationary n sh), p)"
proof (induction n sh rule: evict_clean_probationary.induct)
  case (2 n sh)
  show ?case
  proof (cases "sh_probationary sh")
    case (Cons c rest)
    let ?popped = "sh\<lparr>sh_probationary := rest\<rparr>" and ?turned = "sh\<lparr>sh_probationary := rest @ [c]\<rparr>"
    have r: "unseen crc i (sh, p) (?popped, p)" "unseen crc i (sh, p) (?turned, p)" by (auto intro: unseen_resident)
    show ?thesis
    proof (cases "map_of (sh_resident sh) c")
      case None
      then show ?thesis using Cons unseen_trans [OF r(1) "2.IH"(1) [OF Cons refl None]] by simp
    next
      case (Some fr)
      then show ?thesis
        using Cons unseen_trans [OF r(2) "2.IH"(2) [OF Cons refl Some]] unseen_trans [OF r(1) unseen_drop [of ?popped c fr crc i p]]
        by (auto simp: Let_def)
    qed
  qed simp
qed simp

lemma evict_clean_absent:
  "map_of (sh_resident sh) q = None \<Longrightarrow> map_of (sh_resident (fst (evict_clean_probationary n sh))) q = None"
proof (induction n sh rule: evict_clean_probationary.induct)
  case (2 n sh)
  then show ?case
    by (cases "sh_probationary sh"; cases "map_of (sh_resident sh) (hd (sh_probationary sh))")
       (auto simp: Let_def drop_frame_def delete_conv)
qed simp

lemma prefetch_one_keeps:
  assumes c: "coherent crc p" and q: "q \<noteq> 0"
  shows "keeps crc p (fst (prefetch_one crc q p)) (pins p)"
proof (cases "frame_of p q")
  case (Some fr)
  then show ?thesis using keeps_refl [OF c] by (simp add: prefetch_one_def lock_shard_def frame_of_def Let_def)
next
  case None
  let ?i = "shard_for p q" let ?sh = "bp_shards p ! ?i"
  have i: "?i < length (bp_shards p)" using coherentD(3) [OF c] by (simp add: placed_def shard_for_less)
  let ?take = "if sh_free ?sh > 0 then (?sh\<lparr>sh_free := sh_free ?sh - 1\<rparr>, True) else evict_clean_probationary (length (sh_probationary ?sh)) ?sh"
  obtain sh1 ok where t: "?take = (sh1, ok)" by fastforce
  have n: "map_of (sh_resident ?sh) q = None" using None by (simp add: frame_of_def)
  have "unseen crc ?i (?sh, p) (sh1, p)"
    using t evict_clean_unseen [of crc ?i ?sh p "length (sh_probationary ?sh)"] unseen_resident [of sh1 ?sh crc ?i p]
    by (auto split: if_splits)
  then have k: "keeps crc p (unlock ?i (sh1, p)) (pins p)" using i c by (simp add: unseen_def)
  note k' = keepsD(1,2) [OF k]
  have n1: "map_of (sh_resident sh1) q = None"
    using t n evict_clean_absent [OF n, of "length (sh_probationary ?sh)"] by (auto split: if_splits)
  have p0: "(pins p)(q := 0) = pins p" using None by (simp add: pins_def fun_eq_iff)
  have ins: "keeps crc p (unlock ?i ((set_frame q (frame_prefetched b) sh1)\<lparr>sh_probationary := x\<rparr>, p)) (pins p)"
    if "read_page crc (bp_store p) q = Ok (h, b)" for h b x
  proof -
    have "keeps crc (unlock ?i (sh1, p)) (unlock ?i (set_frame q (frame_prefetched b) sh1, p)) ((pins p)(q := 0))"
      using insert_frame_keeps [OF k'(1) i refl n1 q, of h "frame_prefetched b"] that k'(2) by (simp add: frame_prefetched_def)
    from keeps_trans [OF k this] have k2: "keeps crc p (unlock ?i (set_frame q (frame_prefetched b) sh1, p)) (pins p)" using p0 by simp
    show ?thesis
      using keeps_trans [OF k2 keeps_resident [OF keepsD(1) [OF k2]]] keepsD(2) [OF k2] by simp
  qed
  have fr: "keeps crc p (unlock ?i (sh1\<lparr>sh_free := x\<rparr>, p)) (pins p)" for x
    using keeps_trans [OF k keeps_resident [OF k'(1)]] k'(2) by simp
  have "prefetch_one crc q p = (case (if ok then (case read_page crc (bp_store p) q of
      Ok (_, b) \<Rightarrow> (((set_frame q (frame_prefetched b) sh1)\<lparr>sh_probationary := sh_probationary sh1 @ [q]\<rparr>, p), Ok Loaded)
    | Err _ \<Rightarrow> ((sh1\<lparr>sh_free := sh_free sh1 + 1\<rparr>, p), Ok ReadError) | Panic \<Rightarrow> ((sh1, p), Panic))
     else ((sh1, p), Ok AdmissionDeclined)) of (x, r) \<Rightarrow> (unlock ?i x, r))"
    using n t unfolding prefetch_one_def lock_shard_unlock by (cases ok; simp; simp add: Let_def split: prod.split)
  then show ?thesis using k fr ins by (cases ok; cases "read_page crc (bp_store p) q") auto
qed

lemma hidden_read_ahead_loop: "hidden crc (read_ahead_loop crc expired fuel rep)"
proof (induction fuel arbitrary: rep)
  case (Suc fuel)
  show ?case unfolding hidden_def
  proof (intro allI impI)
    fix p :: "'a pool"
    assume c: "coherent crc p \<and> 0 \<notin> queued p"
    show "keeps crc p (fst (read_ahead_loop crc expired (Suc fuel) rep p)) (pins p)"
    proof (cases "ra_pending (bp_read_ahead p)")
      case Nil
      then show ?thesis using c by (simp add: keeps_refl)
    next
      case (Cons q rest)
      let ?p = "p\<lparr>bp_read_ahead := (bp_read_ahead p)\<lparr>ra_pending := rest\<rparr>, bp_read_ahead_saturated := False\<rparr>"
      have k: "keeps crc p ?p (pins p)"
        by (rule keeps_same_shards) (use c Cons in \<open>auto simp: queued_def\<close>)
      have "keeps crc ?p (fst (m_bind (prefetch_one crc q) (\<lambda>out. read_ahead_loop crc expired fuel (g out)) ?p)) (pins ?p)" for g
        by (intro keeps_bind prefetch_one_keeps Suc.IH) (use keepsD(1) [OF k] c Cons in \<open>auto simp: queued_def\<close>)
      then show ?thesis using c Cons keeps_trans [OF k] keepsD(2) [OF k] by (simp add: keeps_refl)
    qed
  qed
qed (simp add: hidden_def keeps_refl)

lemma hidden_read_ahead_step: "hidden crc (read_ahead_step crc expired limits)"
  unfolding read_ahead_step_def Let_def
  by (intro hidden_bind hidden_pure hidden_read_ahead_loop) (simp add: split_beta hidden_bind)

section \<open>Histories\<close>

text \<open>
  What a caller of the pool does: read a page and drop the guard, overwrite a page through a guard,
  and the calls that touch no page contents. The last argument of the bounded steps tells when
  their time is over.
\<close>

datatype pool_op =
    ReadPage page_id cache_class
  | WritePage page_id bytes
  | Warm page_id
  | FlushAll
  | Writeback "page_id option" maintenance_limits "nat \<Rightarrow> bool"
  | RequestReadAhead "page_id list"
  | ReadAhead maintenance_limits "nat \<Rightarrow> bool"
  | SetTransaction u64

datatype pool_reply = Contents bytes | Done | Failed

definition reply :: "('a \<Rightarrow> pool_reply) \<Rightarrow> 'b pool \<times> 'a res \<Rightarrow> 'b pool \<times> pool_reply" where
  "reply f = (\<lambda>(p, r). (p, case r of Ok a \<Rightarrow> f a | _ \<Rightarrow> Failed))"

fun pool_step :: "(bytes \<Rightarrow> u32) \<Rightarrow> 'b barrier \<Rightarrow> pool_op \<Rightarrow> 'b pool \<Rightarrow> 'b pool \<times> pool_reply" where
  "pool_step crc bar (ReadPage q cls) p = reply Contents (m_bind (get_in_class crc bar q cls) (\<lambda>b p. (unpin q p, Ok b)) p)"
| "pool_step crc bar (WritePage q data) p = reply (\<lambda>_. Done) (m_bind (get_mut crc bar q) (\<lambda>_ p. (release_mut q data p, Ok ())) p)"
| "pool_step crc bar (Warm q) p = reply (\<lambda>_. Done) (pool_warm crc bar q p)"
| "pool_step crc bar FlushAll p = reply (\<lambda>_. Done) (flush_all crc bar p)"
| "pool_step crc bar (Writeback cursor limits expired) p = reply (\<lambda>_. Done) (writeback_step crc bar expired cursor limits p)"
| "pool_step crc bar (RequestReadAhead ids) p = (fst (request_read_ahead ids p), Done)"
| "pool_step crc bar (ReadAhead limits expired) p = reply (\<lambda>_. Done) (read_ahead_step crc expired limits p)"
| "pool_step crc bar (SetTransaction t) p = (set_current_transaction t p, Done)"

fun pool_run :: "(bytes \<Rightarrow> u32) \<Rightarrow> 'b barrier \<Rightarrow> pool_op list \<Rightarrow> 'b pool \<Rightarrow> 'b pool \<times> pool_reply list" where
  "pool_run crc bar [] p = (p, [])"
| "pool_run crc bar (op # ops) p =
     (case pool_step crc bar op p of (p, r) \<Rightarrow> case pool_run crc bar ops p of (p, rs) \<Rightarrow> (p, r # rs))"

text \<open>The memory of pages the pool promises, up to the stamps that a write-back puts on a page.\<close>

fun memory_step :: "pool_op \<Rightarrow> pool_reply \<Rightarrow> (page_id \<rightharpoonup> bytes) \<Rightarrow> (page_id \<rightharpoonup> bytes)" where
  "memory_step (WritePage q data) Done m = m(q \<mapsto> content data)"
| "memory_step _ _ m = m"

fun memory_allows :: "(page_id \<rightharpoonup> bytes) \<Rightarrow> pool_op list \<Rightarrow> pool_reply list \<Rightarrow> bool" where
  "memory_allows m [] [] = True"
| "memory_allows m (op # ops) (r # rs) =
     ((case (op, r) of (ReadPage q _, Contents b) \<Rightarrow> m q \<in> {None, Some (content b)} | _ \<Rightarrow> True) \<and>
      memory_allows (memory_step op r m) ops rs)"
| "memory_allows m _ _ = False"

fun op_ok :: "nat \<Rightarrow> pool_op \<Rightarrow> bool" where
  "op_ok page_size (ReadPage q _) = (q \<noteq> 0)"
| "op_ok page_size (WritePage q data) = (q \<noteq> 0 \<and> length data = page_size \<and> is_ok (header_decode data))"
| "op_ok page_size (Warm q) = (q \<noteq> 0)"
| "op_ok page_size _ = True"

definition serves :: "(bytes \<Rightarrow> u32) \<Rightarrow> 'b pool \<Rightarrow> (page_id \<rightharpoonup> bytes) \<Rightarrow> bool" where
  "serves crc p m \<longleftrightarrow> coherent crc p \<and> 0 \<notin> queued p \<and> pins p = (\<lambda>_. 0) \<and> m \<subseteq>\<^sub>m pool_view crc p"

lemma serves_keeps:
  assumes "serves crc p m" "keeps crc p p' (\<lambda>_. 0)"
  shows "serves crc p' m" "ps_page_size (bp_store p') = ps_page_size (bp_store p)"
  using assms map_le_trans [of m "pool_view crc p" "pool_view crc p'"] by (auto simp: serves_def keeps_def)

lemma serves_hidden:
  assumes "serves crc p m" "hidden crc act" "act p = (p', r)"
  shows "serves crc p' m" "ps_page_size (bp_store p') = ps_page_size (bp_store p)"
  using serves_keeps [OF assms(1)] hidden_at [OF assms(2) _ _ assms(3)] assms(1) by (simp_all add: serves_def)

lemma read_step_serves:
  assumes s: "serves crc p m" and q: "q \<noteq> 0" and g: "m_bind (get_in_class crc bar q cls) (\<lambda>b p. (unpin q p, Ok b)) p = (p', r)"
  shows "keeps crc p p' (\<lambda>_. 0) \<and> (\<forall>b. r = Ok b \<longrightarrow> m q \<in> {None, Some (content b)})"
proof -
  have c: "coherent crc p" "pins p = (\<lambda>_. 0)" "m \<subseteq>\<^sub>m pool_view crc p" using s by (simp_all add: serves_def)
  obtain p1 r1 where a: "get_in_class crc bar q cls p = (p1, r1)" by fastforce
  note k = get_in_class_keeps [OF c(1) q a]
  show ?thesis
  proof (cases r1)
    case (Ok b)
    then obtain fr where k1: "keeps crc p p1 ((pins p)(q := 1))" "pool_view crc p1 q = Some (content b)" "frame_of p1 q = Some fr"
      using k c(2) by auto
    have "(pins p1)(q := pins p1 q - 1) = (\<lambda>_. 0)" using keepsD(2) [OF k1(1)] c(2) by (simp add: fun_eq_iff)
    then have "keeps crc p (unpin q p1) (\<lambda>_. 0)"
      using keeps_trans [OF k1(1) unpin_keeps [OF keepsD(1) [OF k1(1)] k1(3)]] by simp
    moreover have "m q \<in> {None, Some (content b)}"
      using k1(2) map_le_trans [OF c(3) keepsD(3) [OF k1(1)]] by (auto simp: map_le_def dom_def)
    ultimately show ?thesis using g a Ok by (auto simp: m_bind_def)
  qed (use k g a c(2) in \<open>auto simp: m_bind_def\<close>)
qed

lemma warm_as_read:
  "fst (pool_warm crc bar q p) = fst (m_bind (get_in_class crc bar q Search) (\<lambda>b p. (unpin q p, Ok b)) p)"
  by (auto simp: pool_warm_def m_bind_def split: prod.splits result.splits page_error.splits)

lemma write_step_serves:
  assumes s: "serves crc p m" and d: "q \<noteq> 0" "length data = ps_page_size (bp_store p)" "is_ok (header_decode data)"
    and g: "m_bind (get_mut crc bar q) (\<lambda>_ p. (release_mut q data p, Ok ())) p = (p', r)"
  shows "serves crc p' (if r = Ok () then m(q \<mapsto> content data) else m) \<and> ps_page_size (bp_store p') = ps_page_size (bp_store p)"
proof -
  have c: "coherent crc p" "pins p = (\<lambda>_. 0)" "m \<subseteq>\<^sub>m pool_view crc p" "0 \<notin> queued p" using s by (simp_all add: serves_def)
  have dd: "page_decodes data" using d(3) by (cases "header_decode data") (simp_all add: page_decodes_def)
  obtain p1 r1 where a: "get_mut crc bar q p = (p1, r1)" by fastforce
  show ?thesis
  proof (cases r1)
    case (Ok b)
    then have "get_in_class crc bar q Search p = (p1, Ok b)" using a by (simp add: get_mut_def split: if_splits)
    from get_in_class_keeps [OF c(1) d(1) this] obtain fr where
      k1: "keeps crc p p1 ((pins p)(q := 1))" "frame_of p1 q = Some fr" using c(2) by auto
    have ps: "ps_page_size (bp_store p1) = ps_page_size (bp_store p)" "queued p1 \<subseteq> queued p" using k1(1) by (simp_all add: keeps_def)
    have l: "length data = ps_page_size (bp_store p1)" using d(2) ps(1) by simp
    note v = release_mut_view [OF keepsD(1) [OF k1(1)] k1(2) l dd]
    have "pins (release_mut q data p1) = (\<lambda>_. 0)" using v(3) keepsD(2) [OF k1(1)] c(2) by (simp add: fun_eq_iff)
    moreover have "m(q \<mapsto> content data) \<subseteq>\<^sub>m pool_view crc (release_mut q data p1)"
      using map_le_trans [OF c(3) keepsD(3) [OF k1(1)]] v(2) by (simp add: map_le_upd)
    moreover have "queued (release_mut q data p1) = queued p1" "ps_page_size (bp_store (release_mut q data p1)) = ps_page_size (bp_store p1)"
      by (simp_all add: release_mut_def queued_def Let_def flip: queued_def) (simp_all add: queued_def update_frame_def Let_def split: option.split)
    ultimately have "serves crc (release_mut q data p1) (m(q \<mapsto> content data))"
      "ps_page_size (bp_store (release_mut q data p1)) = ps_page_size (bp_store p)"
      using v(1) c(4) ps by (auto simp: serves_def)
    then show ?thesis using g a Ok by (simp add: m_bind_def)
  next
    case (Err e)
    then have "keeps crc p p1 (pins p)"
      using a get_in_class_keeps [OF c(1) d(1), of bar Search p1 "Err e"] keeps_refl [OF c(1)] by (auto simp: get_mut_def split: if_splits)
    then show ?thesis using serves_keeps [OF s] c(2) g a Err by (auto simp: m_bind_def)
  next
    case Panic
    then have "keeps crc p p1 (pins p)"
      using a get_in_class_keeps [OF c(1) d(1), of bar Search p1 Panic] by (simp add: get_mut_def split: if_splits)
    then show ?thesis using serves_keeps [OF s] c(2) g a Panic by (auto simp: m_bind_def)
  qed
qed

lemma serves_cong:
  assumes "serves crc p m" "bp_store p' = bp_store p" "bp_shards p' = bp_shards p" "bp_dirty_index p' = bp_dirty_index p" "0 \<notin> queued p'"
  shows "serves crc p' m"
proof -
  have fo: "frame_of p' = frame_of p" "placed p' = placed p" using assms(3) by (simp_all add: fun_eq_iff frame_of_def shard_for_def placed_def)
  have "coherent crc p' = coherent crc p" using assms(2-4) fo by (simp add: coherent_def dirty_listed_def)
  moreover have "pool_view crc p' = pool_view crc p" "pins p' = pins p"
    using assms(2) fo by (simp_all add: pool_view_def pins_def fun_eq_iff cong: option.case_cong)
  ultimately show ?thesis using assms by (simp add: serves_def)
qed

lemma submit_one_serves:
  assumes "serves crc p m" "submit_one q (p, rep) = (p', rep')"
  shows "serves crc p' m \<and> bp_store p' = bp_store p"
proof -
  have "bp_store p' = bp_store p" "bp_shards p' = bp_shards p" "bp_dirty_index p' = bp_dirty_index p" "0 \<notin> queued p'"
    using assms by (auto simp: submit_one_def Let_def queued_def ra_push_def serves_def split: if_splits)
  then show ?thesis using serves_cong [OF assms(1)] by simp
qed

lemma request_read_ahead_serves:
  assumes "serves crc p m"
  shows "serves crc (fst (request_read_ahead ids p)) m \<and> bp_store (fst (request_read_ahead ids p)) = bp_store p"
proof -
  have "serves crc (fst (fold submit_one ids (p, rep))) m \<and> bp_store (fst (fold submit_one ids (p, rep))) = bp_store p" for rep
    using assms
  proof (induction ids arbitrary: p rep)
    case (Cons q ids)
    obtain p1 rep1 where e: "submit_one q (p, rep) = (p1, rep1)" by fastforce
    then show ?case using Cons.IH [of p1 rep1] submit_one_serves [OF Cons.prems e] by simp
  qed simp
  then show ?thesis using assms by (simp add: request_read_ahead_def Let_def split_beta)
qed

lemma pool_step_serves:
  assumes s: "serves crc p m" and o: "op_ok (ps_page_size (bp_store p)) op" and e: "pool_step crc bar op p = (p', r)"
  shows "serves crc p' (memory_step op r m) \<and> ps_page_size (bp_store p') = ps_page_size (bp_store p) \<and>
    (case (op, r) of (ReadPage q _, Contents b) \<Rightarrow> m q \<in> {None, Some (content b)} | _ \<Rightarrow> True)"
proof (cases op)
  case (ReadPage q cls)
  obtain r1 where r1: "m_bind (get_in_class crc bar q cls) (\<lambda>b p. (unpin q p, Ok b)) p = (p', r1)"
    "r = (case r1 of Ok b \<Rightarrow> Contents b | _ \<Rightarrow> Failed)"
    using e ReadPage by (auto simp: reply_def split: prod.splits)
  then show ?thesis
    using read_step_serves [OF s _ r1(1)] serves_keeps [OF s] o ReadPage by (cases r1) auto
next
  case (WritePage q data)
  obtain r1 where r1: "m_bind (get_mut crc bar q) (\<lambda>_ p. (release_mut q data p, Ok ())) p = (p', r1)"
    "r = (case r1 of Ok b \<Rightarrow> Done | _ \<Rightarrow> Failed)"
    using e WritePage by (auto simp: reply_def split: prod.splits)
  then show ?thesis using write_step_serves [OF s _ _ _ r1(1)] o WritePage by (cases r1) auto
next
  case (Warm q)
  obtain p1 r1 where r1: "m_bind (get_in_class crc bar q Search) (\<lambda>b p. (unpin q p, Ok b)) p = (p1, r1)" by fastforce
  then have "p' = p1" using e Warm warm_as_read [of crc bar q p] by (auto simp: reply_def split: prod.splits)
  then show ?thesis using read_step_serves [OF s _ r1] serves_keeps [OF s] o Warm by auto
next
  case (RequestReadAhead ids)
  then show ?thesis using request_read_ahead_serves [OF s, of ids] e by auto
next
  case (SetTransaction t)
  then have "p' = p\<lparr>bp_current_transaction := t\<rparr>" "r = Done" using e by (simp_all add: set_current_transaction_def)
  then show ?thesis using serves_cong [OF s, of p'] s SetTransaction by (simp add: serves_def queued_def)
qed (use e serves_hidden [OF s hidden_flush_all] serves_hidden [OF s hidden_writeback_step] serves_hidden [OF s hidden_read_ahead_step]
     in \<open>auto simp: reply_def split: prod.splits\<close>)

lemma pool_run_serves:
  "serves crc p m \<Longrightarrow> list_all (op_ok (ps_page_size (bp_store p))) ops \<Longrightarrow> pool_run crc bar ops p = (p', rs) \<Longrightarrow>
   memory_allows m ops rs \<and> serves crc p' (fold (\<lambda>(op, r). memory_step op r) (zip ops rs) m)"
proof (induction ops arbitrary: p m rs)
  case (Cons op ops)
  obtain p1 r where e: "pool_step crc bar op p = (p1, r)" by fastforce
  obtain rs' where rs: "pool_run crc bar ops p1 = (p', rs')" "rs = r # rs'" using Cons.prems(3) e by (auto split: prod.splits)
  note st = pool_step_serves [OF Cons.prems(1) _ e]
  show ?case using Cons.IH [OF _ _ rs(1), of "memory_step op r m"] st Cons.prems(2) rs(2) by simp
qed simp

lemma pool_new_serves:
  assumes "store_ok s" "dirty_ok s" "pool_new a b c budget shards ra ro s = Ok p"
  shows "serves crc p (store_view crc s)" "bp_store p = s" "bp_read_only p = ro"
proof -
  have p: "bp_store p = s" "bp_dirty_index p = []" "ra_pending (bp_read_ahead p) = []" "bp_shards p \<noteq> []"
    "\<forall>sh \<in> set (bp_shards p). sh_resident sh = []" "bp_read_only p = ro"
    using assms(3) by (auto simp: pool_new_def Let_def shard_new_def split: if_splits)
  have r: "sh_resident (bp_shards p ! i) = []" if "i < length (bp_shards p)" for i using p(5) that by simp
  then have fo: "frame_of p q = None" for q using shard_for_less [OF p(4), of q] by (simp add: frame_of_def)
  have "placed p" using p(4) r by (simp add: placed_def)
  then have "coherent crc p" using assms(1,2) p fo by (simp add: coherent_def dirty_listed_def)
  then show "serves crc p (store_view crc s)"
    using p fo by (simp add: serves_def queued_def pins_def pool_view_def map_le_def fun_eq_iff)
  show "bp_store p = s" "bp_read_only p = ro" using p by simp_all
qed

section \<open>Flushing\<close>

lemma dirty_index_iff: "coherent crc p \<Longrightarrow> q \<in> set (bp_dirty_index p) \<longleftrightarrow> (\<exists>fr. frame_of p q = Some fr \<and> fr_dirty fr)"
  using coherentD(4) by (auto simp: dirty_listed_def)

lemma write_back_page_index:
  assumes c: "coherent crc p" and f: "frame_of p q = Some fr" and w: "write_back_page crc bar q fr p = (p', Ok ok)"
  shows "set (bp_dirty_index p') = set (bp_dirty_index p) - {q}"
proof (cases "fr_dirty fr")
  case False
  then show ?thesis using w f dirty_index_iff [OF c, of q] by (auto simp: write_back_page_def write_back_frame_def)
next
  case True
  obtain p1 r1 where m: "(if fr_needs_log fr then barrier_for bar q (fr_dirtied_by fr) (fr_data fr) p else (p, Ok ())) = (p1, r1)" by fastforce
  then have i: "bp_dirty_index p1 = bp_dirty_index p"
    using barrier_for_frame(3) [of bar q "fr_dirtied_by fr" "fr_data fr" p p1 r1] by (auto split: if_splits)
  have r1: "r1 = Ok ()" using w True m by (cases r1) (auto simp: write_back_page_def write_back_frame_def)
  then have "bp_dirty_index p' = bs_remove q (bp_dirty_index p)"
    using w True m i by (auto simp: write_back_page_def write_back_frame_def write_frame_def Let_def split: prod.splits result.splits)
  then show ?thesis by (auto simp: bs_remove_def)
qed

lemma flush_pages_index:
  assumes "coherent crc p" "0 \<notin> queued p" "flush_pages crc bar ids n p = (p', Ok k)"
  shows "set (bp_dirty_index p') = set (bp_dirty_index p) - set ids"
  using assms
proof (induction ids arbitrary: p n)
  case (Cons q ids)
  show ?case
  proof (cases "frame_of p q")
    case None
    then show ?thesis using Cons.IH [of p n] Cons.prems dirty_index_iff [OF Cons.prems(1), of q] by auto
  next
    case (Some fr)
    obtain p1 ok where w: "write_back_page crc bar q fr p = (p1, Ok ok)" "flush_pages crc bar ids (n + of_bool ok) p1 = (p', Ok k)"
      using Cons.prems(3) Some by (auto simp: m_bind_result)
    have kp: "keeps crc p p1 (pins p)" using write_back_page_keeps [OF Cons.prems(1) Some, of bar] w(1) by simp
    then have "0 \<notin> queued p1" using Cons.prems(2) by (auto simp: keeps_def)
    then show ?thesis
      using Cons.IH [OF keepsD(1) [OF kp] _ w(2)] write_back_page_index [OF Cons.prems(1) Some w(1)] by auto
  qed
qed simp

lemma flush_shards_index:
  assumes "coherent crc p" "0 \<notin> queued p" "flush_shards crc bar is n p = (p', Ok k)"
  shows "set (bp_dirty_index p') \<subseteq> {q \<in> set (bp_dirty_index p). shard_for p q \<notin> set is}"
  using assms
proof (induction "is" arbitrary: p n)
  case (Cons i "is")
  obtain p1 n1 where f: "flush_pages crc bar (dirty_frames (bp_shards p ! i)) n p = (p1, Ok n1)" "flush_shards crc bar is n1 p1 = (p', Ok k)"
    using Cons.prems(3) by (auto simp: m_bind_result)
  note kp = hidden_at [OF hidden_flush_pages Cons.prems(1,2) f(1)]
  have q1: "0 \<notin> queued p1" using kp Cons.prems(2) by (auto simp: keeps_def)
  have "q \<in> set (dirty_frames (bp_shards p ! i))" if d: "q \<in> set (bp_dirty_index p)" "shard_for p q = i" for q
  proof -
    obtain fr where "map_of (sh_resident (bp_shards p ! i)) q = Some fr" "fr_dirty fr"
      using d dirty_index_iff [OF Cons.prems(1), of q] by (auto simp: frame_of_def)
    then show ?thesis by (force simp: dirty_frames_def dest: map_of_SomeD)
  qed
  then show ?case
    using Cons.IH [OF keepsD(1) [OF kp] q1 f(2)] flush_pages_index [OF Cons.prems(1,2) f(1)] shard_for_cong [OF keepsD(4) [OF kp]] by auto
qed simp

lemma flush_all_clean:
  assumes c: "coherent crc p" "0 \<notin> queued p" and f: "flush_all crc bar p = (p', Ok k)"
  shows "bp_dirty_index p' = []" "keeps crc p p' (pins p)" "pool_view crc p \<subseteq>\<^sub>m store_view crc (bp_store p')"
proof -
  obtain p1 p2 where m: "flush_shards crc bar [0..<length (bp_shards p)] 0 p = (p1, Ok k)" "on_bp_store (store_flush crc) p1 = (p', Ok ())"
    using f by (auto simp: flush_all_def m_bind_result m_return_def)
  have "shard_for p q < length (bp_shards p)" for q using coherentD(3) [OF c(1)] by (simp add: placed_def shard_for_less)
  then have "bp_dirty_index p1 = []" using flush_shards_index [OF c m(1)] by auto
  then show d: "bp_dirty_index p' = []" using m(2) by (auto simp: on_bp_store_def split: prod.splits)
  show k: "keeps crc p p' (pins p)" by (rule hidden_at [OF hidden_flush_all c f])
  have "pool_view crc p' q = store_view crc (bp_store p') q" for q
  proof (cases "frame_of p' q")
    case (Some fr)
    then have "\<not> fr_dirty fr" using d dirty_index_iff [OF keepsD(1) [OF k], of q] by auto
    then show ?thesis using coherentD(5) [OF keepsD(1) [OF k] Some] Some by (auto simp: frame_ok_def pool_view_def store_view_def)
  qed (simp add: pool_view_def)
  then show "pool_view crc p \<subseteq>\<^sub>m store_view crc (bp_store p')" using keepsD(3) [OF k] by (simp add: map_le_def)
qed

section \<open>A store with one page, for the examples\<close>

definition leaf_image :: "byte \<Rightarrow> bytes" where
  "leaf_image x = header_encode (header_new 5 BTreeLeaf 512) (put (replicate 512 0) 100 [x])"

definition one_page_store :: page_store where
  "one_page_store = fst (write_page (\<lambda>_. 7) 5 (leaf_image 1) (reserved_store (\<lambda>_. 7)))"

definition small_pool :: "unit pool" where
  "small_pool = (case pool_new (\<lambda>n. 3 * n div 4) (\<lambda>n. n div 4) (\<lambda>n. n div 8) 4096 2 16 False one_page_store of Ok p \<Rightarrow> p)"

lemma leaf_image_ok: "length (leaf_image x) = 512" "header_decode (leaf_image x) = Ok (header_new 5 BTreeLeaf 512)"
  unfolding leaf_image_def by (simp, rule header_decode_encode) (simp_all add: header_new_def)

lemma one_page_store_ok:
  shows "store_ok one_page_store" "dirty_ok one_page_store" "ps_page_size one_page_store = 512"
    "sb_page_count (ps_meta one_page_store) = 3000" "store_view (\<lambda>_. 7) one_page_store 5 = Some (content (leaf_image 1))"
proof -
  note r = reserved_store_ok [of "\<lambda>_. 7"]
  let ?s = "reserved_store (\<lambda>_. 7)"
  have b: "length (leaf_image 1) = ps_page_size ?s" "5 < sb_page_count (ps_meta ?s)" using r(5,6) leaf_image_ok(1) by simp_all
  obtain s' where s': "write_page (\<lambda>_. 7) 5 (leaf_image 1) ?s = (s', Ok ())" "moves_on ?s s'"
      "ps_meta s' = (ps_meta ?s)\<lparr>sb_generation := sb_generation (ps_meta ?s) + 1\<rparr>"
      "page_image s' 5 = Some (stamped (\<lambda>_. 7) ?s 5 (leaf_image 1) (sb_generation (ps_meta ?s) + 1))"
    by (rule write_page_moves_on [OF r(1,2) b, of "\<lambda>_. 7"]) blast
  have o: "one_page_store = s'" using s'(1) by (simp add: one_page_store_def)
  show "store_ok one_page_store" "dirty_ok one_page_store" "ps_page_size one_page_store = 512"
    "sb_page_count (ps_meta one_page_store) = 3000" using o s'(2,3) r(5,6) by (simp_all add: moves_on_def)
  have "page_decodes (leaf_image 1)" by (simp add: page_decodes_def leaf_image_ok)
  then obtain h where "read_page (\<lambda>_. 7) s' 5 = Ok (h, finalize (\<lambda>_. 7) (leaf_image 1) (sb_generation (ps_meta ?s) + 1))"
    using read_page_written [of s' 5 "\<lambda>_. 7" "leaf_image 1"] s'(3,4) r(6) leaf_image_ok(1) by (auto simp: stamped_other)
  then show "store_view (\<lambda>_. 7) one_page_store 5 = Some (content (leaf_image 1))"
    using o leaf_image_ok(1) by (simp add: store_view_def content_finalize)
qed

lemma small_pool_new:
  "pool_new (\<lambda>n. 3 * n div 4) (\<lambda>n. n div 4) (\<lambda>n. n div 8) 4096 2 16 False one_page_store = Ok small_pool"
  unfolding small_pool_def using one_page_store_ok(3,4) by (simp add: pool_new_def Let_def)

lemma small_pool_serves: "serves (\<lambda>_. 7) small_pool (store_view (\<lambda>_. 7) one_page_store)" "bp_store small_pool = one_page_store"
  using pool_new_serves [OF one_page_store_ok(1,2) small_pool_new] by simp_all

section \<open>Properties\<close>

text \<open>
  C5. The buffer pool is a transparent memory of pages. After any sequence of page reads in any
  cache class, overwrites, warm-ups, flushes, bounded write-backs and read-ahead steps, with any
  outcome of the write-back barrier, every read has returned the contents last written (up to the
  generation and checksum stamps a write-back puts on a page), and the pool still serves the
  resulting contents. Evictions, failed write-backs, refused admissions and cancelled prefetches
  change nothing a caller can see.
\<close>

theorem pool_history_refines_memory:
  assumes "serves crc p m" and "list_all (op_ok (ps_page_size (bp_store p))) ops"
    and "pool_run crc bar ops p = (p', rs)"
  shows "memory_allows m ops rs \<and> serves crc p' (fold (\<lambda>(op, r). memory_step op r) (zip ops rs) m)"
  using assms by (rule pool_run_serves)

theorem pool_history_refines_memory_witness:
  "\<exists>p' rs. pool_run (\<lambda>_. 7) (\<lambda>_ _ _ b. (b, Ok ())) [ReadPage 5 Search, WritePage 5 (leaf_image 2), ReadPage 9 Streaming, FlushAll,
       ReadPage 5 Metadata] small_pool = (p', rs) \<and>
     memory_allows (store_view (\<lambda>_. 7) one_page_store) [ReadPage 5 Search, WritePage 5 (leaf_image 2), ReadPage 9 Streaming, FlushAll,
       ReadPage 5 Metadata] rs \<and> store_view (\<lambda>_. 7) one_page_store 5 = Some (content (leaf_image 1))"
  using pool_history_refines_memory [OF small_pool_serves(1),
      of "[ReadPage 5 Search, WritePage 5 (leaf_image 2), ReadPage 9 Streaming, FlushAll, ReadPage 5 Metadata]"
        "\<lambda>_ _ _ b. (b, Ok ())"]
    small_pool_serves(2) one_page_store_ok(3,5) leaf_image_ok [of 2]
  by (cases "pool_run (\<lambda>_. 7) (\<lambda>_ _ _ b. (b, Ok ())) [ReadPage 5 Search, WritePage 5 (leaf_image 2), ReadPage 9 Streaming, FlushAll,
       ReadPage 5 Metadata] small_pool") simp



end
