(* ===== verification/Pool_Queues.thy ===== *)
theory Pool_Queues
  imports Pool_History
begin

text \<open>
  The replacement queues of the buffer pool. Every resident page is in the queue of its tier and in
  no other, the frames never exceed the budget, eviction reclaims from the tiers its cache class may
  touch, and an admission is refused only when all frames of those tiers are pinned.
\<close>

section \<open>Tiers\<close>

datatype tier = Probation | Protection | Stream | Meta

fun queue_of :: "tier \<Rightarrow> shard \<Rightarrow> page_id list" where
  "queue_of Probation sh = sh_probationary sh"
| "queue_of Protection sh = sh_protected sh"
| "queue_of Stream sh = sh_streaming sh"
| "queue_of Meta sh = sh_metadata sh"

fun with_queue :: "tier \<Rightarrow> page_id list \<Rightarrow> shard \<Rightarrow> shard" where
  "with_queue Probation qs sh = sh\<lparr>sh_probationary := qs\<rparr>"
| "with_queue Protection qs sh = sh\<lparr>sh_protected := qs\<rparr>"
| "with_queue Stream qs sh = sh\<lparr>sh_streaming := qs\<rparr>"
| "with_queue Meta qs sh = sh\<lparr>sh_metadata := qs\<rparr>"

definition tier_of :: "frame \<Rightarrow> tier" where
  "tier_of fr = (if fr_metadata fr then Meta else if fr_streaming fr then Stream else if fr_protected fr then Protection else Probation)"

definition filed :: "shard \<Rightarrow> bool" where
  "filed sh \<longleftrightarrow> distinct (map fst (sh_resident sh)) \<and> (\<forall>k. distinct (queue_of k sh) \<and>
     (\<forall>q. q \<in> set (queue_of k sh) \<longleftrightarrow> (\<exists>fr. map_of (sh_resident sh) q = Some fr \<and> tier_of fr = k)))"

definition limits_of :: "shard \<Rightarrow> nat \<times> nat \<times> nat \<times> nat" where
  "limits_of sh = (sh_protected_capacity sh, sh_streaming_capacity sh, sh_metadata_capacity sh, sh_capacity sh)"

definition freeable :: "tier \<Rightarrow> shard \<Rightarrow> bool" where
  "freeable k sh \<longleftrightarrow> (\<exists>q fr. map_of (sh_resident sh) q = Some fr \<and> tier_of fr = k \<and> fr_pins fr = 0)"

lemma queue_with [simp]:
  "queue_of j (with_queue k qs sh) = (if j = k then qs else queue_of j sh)"
  "sh_resident (with_queue k qs sh) = sh_resident sh" "sh_free (with_queue k qs sh) = sh_free sh"
  "limits_of (with_queue k qs sh) = limits_of sh" "with_queue k qs (with_queue k qs' sh) = with_queue k qs sh"
  "with_queue k (queue_of k sh) sh = sh"
  by (cases k; cases j; simp add: limits_of_def)+

declare with_queue.simps [simp del]

lemma with_protected [simp]: "sh_protected (with_queue Protection qs sh) = qs" "sh_protected (set_frame c fr sh) = sh_protected sh"
  by (simp_all add: with_queue.simps set_frame_def)

lemma queue_frame [simp]:
  "queue_of j (set_frame q fr sh) = queue_of j sh" "queue_of j (drop_frame q sh) = queue_of j sh"
  "limits_of (set_frame q fr sh) = limits_of sh" "limits_of (drop_frame q sh) = limits_of sh"
  "sh_free (set_frame q fr sh) = sh_free sh" "sh_free (drop_frame q sh) = sh_free sh"
  "queue_of j (sh\<lparr>sh_free := n\<rparr>) = queue_of j sh" "limits_of (sh\<lparr>sh_free := n\<rparr>) = limits_of sh"
  by (cases j; simp add: set_frame_def drop_frame_def limits_of_def)+

lemma resident_set [simp]:
  "map_of (sh_resident (set_frame q fr sh)) = (map_of (sh_resident sh))(q \<mapsto> fr)"
  "map_of (sh_resident (drop_frame q sh)) = (map_of (sh_resident sh))(q := None)"
  by (simp_all add: set_frame_def drop_frame_def update_conv delete_conv fun_eq_iff)

lemma filedD:
  assumes "filed sh"
  shows "distinct (map fst (sh_resident sh))" "distinct (queue_of k sh)"
    "q \<in> set (queue_of k sh) \<longleftrightarrow> (\<exists>fr. map_of (sh_resident sh) q = Some fr \<and> tier_of fr = k)"
  using assms by (simp_all add: filed_def)

lemma filed_queue:
  assumes "filed sh" "distinct qs" "set qs = set (queue_of k sh)"
  shows "filed (with_queue k qs sh)"
  using assms by (simp add: filed_def)

lemma filed_drop:
  assumes f: "filed sh" and q: "queue_of k sh = c # rest"
  shows "filed (drop_frame c (with_queue k rest sh))"
proof -
  obtain fr where fr: "map_of (sh_resident sh) c = Some fr" "tier_of fr = k" using filedD(3) [OF f, of c k] q by auto
  have "distinct (map fst (sh_resident (drop_frame c (with_queue k rest sh))))"
    using filedD(1) [OF f] by (simp add: drop_frame_def distinct_delete)
  moreover have "distinct (if j = k then rest else queue_of j sh)" for j
    using filedD(2) [OF f, of j] filedD(2) [OF f, of k] q by (cases "j = k") simp_all
  moreover have "(x \<in> set (if j = k then rest else queue_of j sh)) \<longleftrightarrow>
      (\<exists>fr. ((map_of (sh_resident sh))(c := None)) x = Some fr \<and> tier_of fr = j)" for j x
    using filedD(3) [OF f, of x j] filedD(2) [OF f, of k] q fr by (cases "j = k"; cases "x = c") auto
  ultimately show ?thesis unfolding filed_def by simp
qed

lemma length_drop_frame:
  assumes "distinct (map fst (sh_resident sh))" "map_of (sh_resident sh) c = Some fr"
  shows "length (sh_resident (drop_frame c sh)) + 1 = length (sh_resident sh)"
proof -
  have "length (AList.delete c al) + 1 = length al" if "distinct (map fst al)" "map_of al c = Some fr" for al
    using that
  proof (induction al)
    case (Cons e al)
    have "AList.delete c al = al" if "c \<notin> fst ` set al"
      using that by (induction al) (auto simp: AList.delete_eq)
    then show ?case using Cons by (cases "fst e = c") (auto simp: AList.delete_eq)
  qed simp
  from this [OF assms] show ?thesis by (simp add: drop_frame_def)
qed

lemma length_set_frame:
  assumes "distinct (map fst (sh_resident sh))"
  shows "length (sh_resident (set_frame c fr sh)) = length (sh_resident sh) + of_bool (map_of (sh_resident sh) c = None)"
proof -
  have "length (AList.update c fr al) = length al + of_bool (map_of al c = None)" for al
    by (induction al) auto
  then show ?thesis by (simp add: set_frame_def)
qed

text \<open>What eviction leaves of a shard: the frames up to their reference bits.\<close>

definition core :: "frame \<Rightarrow> frame" where
  "core fr = fr\<lparr>fr_referenced := False\<rparr>"

lemma core_simps [simp]: "tier_of (core fr) = tier_of fr" "fr_pins (core fr) = fr_pins fr" "core (core fr) = core fr"
  "core (fr\<lparr>fr_referenced := b\<rparr>) = core fr"
  by (simp_all add: core_def tier_of_def)

definition cores :: "shard \<Rightarrow> page_id \<rightharpoonup> frame" where
  "cores sh q = map_option core (map_of (sh_resident sh) q)"

lemma cores_simps [simp]:
  "cores (with_queue k qs sh) = cores sh" "cores (drop_frame c sh) = (cores sh)(c := None)"
  "cores (set_frame c fr sh) = (cores sh)(c \<mapsto> core fr)" "cores (sh\<lparr>sh_free := n\<rparr>) = cores sh"
  by (auto simp: cores_def fun_eq_iff)

lemma filed_cores:
  assumes "filed sh" "cores sh' = cores sh" "distinct (map fst (sh_resident sh'))"
    "\<And>k. distinct (queue_of k sh') \<and> set (queue_of k sh') = set (queue_of k sh)"
  shows "filed sh'"
proof -
  have "(\<exists>fr. map_of (sh_resident sh') q = Some fr \<and> tier_of fr = k) \<longleftrightarrow> (\<exists>fr. map_of (sh_resident sh) q = Some fr \<and> tier_of fr = k)" for q k
  proof -
    have "map_option core (map_of (sh_resident sh') q) = map_option core (map_of (sh_resident sh) q)"
      using assms(2) by (simp add: cores_def fun_eq_iff)
    then have "map_option (tier_of \<circ> core) (map_of (sh_resident sh') q) = map_option (tier_of \<circ> core) (map_of (sh_resident sh) q)"
      by (metis option.map_comp)
    then show ?thesis by (cases "map_of (sh_resident sh') q"; cases "map_of (sh_resident sh) q") auto
  qed
  then show ?thesis using assms unfolding filed_def by simp
qed

lemma freeable_cores: "freeable k sh \<longleftrightarrow> (\<exists>q fr. cores sh q = Some fr \<and> tier_of fr = k \<and> fr_pins fr = 0)"
  by (auto simp: freeable_def cores_def simp del: not_None_eq) (metis core_simps(1,2), blast)

section \<open>Eviction\<close>

text \<open>A barrier that accepts every page, as the write-ahead log does while its files can be written.\<close>

definition never_fails :: "'b barrier \<Rightarrow> bool" where
  "never_fails bar \<longleftrightarrow> (\<forall>q t d b. snd (bar q t d b) = Ok ())"

lemma barrier_steady: "never_fails bar \<Longrightarrow> snd (barrier_for bar q t d p) = Ok ()"
  by (auto simp: never_fails_def barrier_for_def split: option.split prod.split) (metis snd_conv)

lemma write_back_steady:
  assumes n: "never_fails bar" and c: "coherent crc p" and f: "frame_of p q = Some fr"
  shows "\<exists>b. snd (write_back_frame crc bar q fr p) = Ok b"
proof (cases "fr_dirty fr")
  case True
  let ?m = "if fr_needs_log fr then barrier_for bar q (fr_dirtied_by fr) (fr_data fr) p else (p, Ok ())"
  obtain p1 where m: "?m = (p1, Ok ())" using barrier_steady [OF n, of q "fr_dirtied_by fr" "fr_data fr" p] by (metis prod.collapse snd_conv)
  then have st: "bp_store p1 = bp_store p"
    using barrier_for_frame(2) [of bar q "fr_dirtied_by fr" "fr_data fr" p p1] by (auto split: if_splits)
  obtain s' where "write_page crc q (fr_data fr) (bp_store p) = (s', Ok ())" by (rule write_page_frame [OF c f]) blast
  then have "snd (write_back_frame crc bar q fr p) = Ok True" using True m st by (simp add: write_back_frame_def write_frame_def Let_def)
  then show ?thesis ..
next
  case False
  then have "snd (write_back_frame crc bar q fr p) = Ok False" by (simp add: write_back_frame_def)
  then show ?thesis ..
qed

lemma try_reclaim_steady:
  assumes n: "never_fails bar" and c: "coherent crc (unlock i (sh, p))" and i: "i < length (bp_shards p)"
    and f: "map_of (sh_resident sh) q = Some fr" "fr_pins fr = 0"
  obtains p' where "try_reclaim crc bar q (sh, p) = ((drop_frame q sh, p'), Ok True)" "bp_shards p' = bp_shards p"
proof -
  obtain fr' p' r where w: "write_back_frame crc bar q fr p = ((fr', p'), r)" by (metis surj_pair)
  note u = write_back_unlock [OF w]
  have "\<exists>b. r = Ok b"
    using write_back_steady [OF n c resident_frame_of(2) [OF coherentD(3) [OF c] i f(1)]] u(1) [of i sh] by simp
  then show thesis using that [of p'] w u(2) f by (auto simp: try_reclaim_def)
qed

definition sheds :: "tier \<Rightarrow> bool \<Rightarrow> shard \<Rightarrow> shard \<Rightarrow> bool" where
  "sheds k b sh sh' \<longleftrightarrow> sh_free sh' = sh_free sh \<and> limits_of sh' = limits_of sh \<and>
     (if b then \<exists>c fr. map_of (sh_resident sh) c = Some fr \<and> tier_of fr = k \<and> fr_pins fr = 0 \<and>
        cores sh' = (cores sh)(c := None) \<and> length (sh_resident sh') + 1 = length (sh_resident sh)
      else cores sh' = cores sh \<and> length (sh_resident sh') = length (sh_resident sh))"

definition evicts :: "(bytes \<Rightarrow> u32) \<Rightarrow> nat \<Rightarrow> tier \<Rightarrow> ('b, bool) shard_m \<Rightarrow> bool" where
  "evicts crc i k m \<longleftrightarrow> (\<forall>sh p sh' p' r. filed sh \<and> i < length (bp_shards p) \<and> coherent crc (unlock i (sh, p)) \<and>
     m (sh, p) = ((sh', p'), r) \<longrightarrow> r = Ok (freeable k sh) \<and> filed sh' \<and> sheds k (freeable k sh) sh sh' \<and> bp_shards p' = bp_shards p)"

lemma unpinned_iff:
  assumes "filed sh"
  shows "freeable k sh \<longleftrightarrow> (\<exists>x \<in> set (queue_of k sh). \<forall>fr. map_of (sh_resident sh) x = Some fr \<longrightarrow> fr_pins fr = 0)"
  using filedD(3) [OF assms, of _ k] unfolding freeable_def by (metis option.inject)

lemma evict_from_queue_filed:
  assumes "never_fails bar"
  shows "filed sh \<Longrightarrow> i < length (bp_shards p) \<Longrightarrow> coherent crc (unlock i (sh, p)) \<Longrightarrow>
    evict_from_queue crc bar (queue_of k) (with_queue k) n (sh, p) = ((sh', p'), r) \<Longrightarrow>
    b = (\<exists>x \<in> set (take n (queue_of k sh)). \<forall>fr. map_of (sh_resident sh) x = Some fr \<longrightarrow> fr_pins fr = 0) \<Longrightarrow>
    r = Ok b \<and> filed sh' \<and> sheds k b sh sh' \<and> bp_shards p' = bp_shards p"
proof (induction n arbitrary: sh p b)
  case 0
  then show ?case by (simp add: m_return_def sheds_def)
next
  case (Suc n)
  show ?case
  proof (cases "queue_of k sh")
    case Nil
    then show ?thesis using Suc.prems by (simp add: sheds_def)
  next
    case (Cons c rest)
    obtain fr where fr: "map_of (sh_resident sh) c = Some fr" "tier_of fr = k" using filedD(3) [OF Suc.prems(1), of c k] Cons by auto
    let ?popped = "with_queue k rest sh" and ?turned = "with_queue k (rest @ [c]) sh"
    have co: "coherent crc (unlock i (?popped, p))" "coherent crc (unlock i (?turned, p))"
      using keepsD(1) [OF keeps_resident [OF Suc.prems(3)]] by simp_all
    have d: "distinct (c # rest)" using filedD(2) [OF Suc.prems(1), of k] Cons by simp
    show ?thesis
    proof (cases "fr_pins fr = 0")
      case True
      obtain p1 where t: "try_reclaim crc bar c (?popped, p) = ((drop_frame c ?popped, p1), Ok True)" "bp_shards p1 = bp_shards p"
        by (rule try_reclaim_steady [OF assms co(1) Suc.prems(2), of c fr]) (use fr True in simp_all)
      have "length (sh_resident (drop_frame c ?popped)) + 1 = length (sh_resident sh)"
        using length_drop_frame [of ?popped c fr] filedD(1) [OF Suc.prems(1)] fr(1) by simp
      then have "sheds k True sh (drop_frame c ?popped)" using fr True by (auto simp: sheds_def)
      then show ?thesis
        using Suc.prems(4,5) Cons t fr True filed_drop [OF Suc.prems(1) Cons] by (auto simp: m_bind_def)
    next
      case False
      then have t: "try_reclaim crc bar c (?popped, p) = ((?popped, p), Ok False)" using fr(1) by (simp add: try_reclaim_def)
      have fb: "filed ?turned" by (rule filed_queue [OF Suc.prems(1)]) (use d Cons in auto)
      have e: "evict_from_queue crc bar (queue_of k) (with_queue k) n (?turned, p) = ((sh', p'), r)"
        using Suc.prems(4) Cons t by (simp add: m_bind_def)
      define b' where "b' = (\<exists>x \<in> set (take n (rest @ [c])). \<forall>fr. map_of (sh_resident sh) x = Some fr \<longrightarrow> fr_pins fr = 0)"
      have "b' = b" using Suc.prems(5) Cons fr False by (cases "n - length rest") (auto simp: b'_def)
      moreover have "b' = (\<exists>x \<in> set (take n (queue_of k ?turned)). \<forall>fr. map_of (sh_resident ?turned) x = Some fr \<longrightarrow> fr_pins fr = 0)"
        by (simp add: b'_def)
      moreover have "sheds k b' ?turned sh' = sheds k b' sh sh'" by (simp add: sheds_def)
      ultimately show ?thesis using Suc.IH [OF fb Suc.prems(2) co(2) e, of b'] by simp
    qed
  qed
qed

lemma evicts_queue:
  assumes "never_fails bar" "\<And>x. m x = evict_from_queue crc bar (queue_of k) (with_queue k) (length (queue_of k (fst x))) x"
  shows "evicts crc i k m"
  unfolding evicts_def
proof (intro allI impI, elim conjE)
  fix sh p sh' p' r
  assume a: "filed sh" "i < length (bp_shards p)" "coherent crc (unlock i (sh, p))" "m (sh, p) = ((sh', p'), r)"
  then have "evict_from_queue crc bar (queue_of k) (with_queue k) (length (queue_of k sh)) (sh, p) = ((sh', p'), r)"
    using assms(2) [of "(sh, p)"] by simp
  from evict_from_queue_filed [OF assms(1) a(1-3) this refl] unpinned_iff [OF a(1), of k]
  show "r = Ok (freeable k sh) \<and> filed sh' \<and> sheds k (freeable k sh) sh sh' \<and> bp_shards p' = bp_shards p" by simp
qed

text \<open>One candidate of the CLOCK sweep.\<close>

lemma clock_step:
  assumes n: "never_fails bar" and f: "filed sh" and i: "i < length (bp_shards p)" and co: "coherent crc (unlock i (sh, p))"
    and q: "sh_protected sh = c # rest"
  obtains (evict) sh' p' where "clock_sweep crc bar (Suc n) (sh, p) = ((sh', p'), Ok True)" "filed sh'" "sheds Protection True sh sh'"
      "bp_shards p' = bp_shards p"
    | (again) sh1 fr where "clock_sweep crc bar (Suc n) (sh, p) = clock_sweep crc bar n (sh1, p)" "filed sh1" "coherent crc (unlock i (sh1, p))"
      "sh_protected sh1 = rest @ [c]" "cores sh1 = cores sh" "length (sh_resident sh1) = length (sh_resident sh)"
      "sh_free sh1 = sh_free sh" "limits_of sh1 = limits_of sh" "map_of (sh_resident sh) c = Some fr" "fr_pins fr \<noteq> 0 \<or> fr_referenced fr"
      "map_of (sh_resident sh1) = (map_of (sh_resident sh))(c \<mapsto> (if fr_pins fr = 0 then fr\<lparr>fr_referenced := False\<rparr> else fr))"
proof -
  have q': "queue_of Protection sh = c # rest" using q by simp
  obtain fr where fr: "map_of (sh_resident sh) c = Some fr" "tier_of fr = Protection" using filedD(3) [OF f, of c Protection] q' by auto
  let ?popped = "with_queue Protection rest sh" and ?turned = "with_queue Protection (rest @ [c]) sh"
  have cb: "coherent crc (unlock i (?popped, p))" "coherent crc (unlock i (?turned, p))" using keepsD(1) [OF keeps_resident [OF co]] by simp_all
  have fb: "filed ?turned" by (rule filed_queue [OF f]) (use filedD(2) [OF f, of Protection] q' in auto)
  have un: "clock_sweep crc bar (Suc n) (sh, p) = (if fr_pins fr > 0 then clock_sweep crc bar n (?turned, p)
      else if fr_referenced fr then clock_sweep crc bar n (set_frame c (fr\<lparr>fr_referenced := False\<rparr>) ?turned, p)
      else m_bind (try_reclaim crc bar c) (\<lambda>reclaimed (shard, p). if reclaimed then ((shard, p), Ok True)
        else clock_sweep crc bar n (shard\<lparr>sh_protected := sh_protected shard @ [c]\<rparr>, p)) (?popped, p))"
    using q fr(1) by (simp add: Let_def with_queue.simps)
  have same: "map_of (sh_resident sh) = (map_of (sh_resident sh))(c \<mapsto> fr)" using fr(1) by auto
  consider "fr_pins fr \<noteq> 0" | "fr_pins fr = 0" "fr_referenced fr" | "fr_pins fr = 0" "\<not> fr_referenced fr" by blast
  then show thesis
  proof cases
    case 1
    show thesis by (rule again [of ?turned fr]) (use 1 un fb cb fr same in \<open>simp_all del: clock_sweep.simps\<close>)
  next
    case 2
    let ?set = "set_frame c (fr\<lparr>fr_referenced := False\<rparr>) ?turned"
    have ck: "cores ?set = cores ?turned" using fr(1) by (auto simp: cores_def fun_eq_iff)
    have ds: "distinct (map fst (sh_resident ?set))" using filedD(1) [OF fb] by (simp add: set_frame_def distinct_update)
    have "unseen crc i (?turned, p) (?set, p)" by (rule unseen_frame_key [of _ _ fr]) (use fr(1) in \<open>simp_all add: frame_key_def\<close>)
    then have "coherent crc (unlock i (?set, p))" using cb(2) i keepsD(1) by (auto simp: unseen_def)
    moreover have "length (sh_resident ?set) = length (sh_resident sh)" using length_set_frame [OF filedD(1) [OF fb], of c] fr(1) by simp
    moreover have "filed ?set" by (rule filed_cores [OF fb ck ds]) (use filedD(2) [OF fb] in simp)
    ultimately show thesis by (intro again [of ?set fr]) (use 2 un ck fr in \<open>simp_all del: clock_sweep.simps\<close>)
  next
    case 3
    obtain p1 where t: "try_reclaim crc bar c (?popped, p) = ((drop_frame c ?popped, p1), Ok True)" "bp_shards p1 = bp_shards p"
      by (rule try_reclaim_steady [OF n cb(1) i, of c fr]) (use fr 3 in simp_all)
    have "length (sh_resident (drop_frame c ?popped)) + 1 = length (sh_resident sh)"
      using length_drop_frame [of ?popped c fr] filedD(1) [OF f] fr(1) by simp
    then have "sheds Protection True sh (drop_frame c ?popped)" using fr 3 by (auto simp: sheds_def)
    then show thesis by (intro evict [of "drop_frame c ?popped" p1]) (use 3 un t filed_drop [OF f q'] in \<open>simp_all add: m_bind_def del: clock_sweep.simps\<close>)
  qed
qed

lemma sheds_trans:
  assumes "cores sh1 = cores sh" "length (sh_resident sh1) = length (sh_resident sh)" "sh_free sh1 = sh_free sh"
    "limits_of sh1 = limits_of sh" "sheds k b sh1 sh'"
  shows "sheds k b sh sh'"
proof (cases b)
  case True
  then obtain c fr where c: "map_of (sh_resident sh1) c = Some fr" "tier_of fr = k" "fr_pins fr = 0"
    "cores sh' = (cores sh)(c := None)" "length (sh_resident sh') + 1 = length (sh_resident sh)"
    using assms by (auto simp: sheds_def)
  have "cores sh c = Some (core fr)" using c(1) assms(1) by (metis cores_def option.simps(9))
  then obtain fr0 where "map_of (sh_resident sh) c = Some fr0" "core fr0 = core fr" by (auto simp: cores_def)
  then show ?thesis using c assms True core_simps(1,2) unfolding sheds_def by metis
qed (use assms in \<open>simp add: sheds_def\<close>)

lemma clock_sound:
  assumes "never_fails bar"
  shows "filed sh \<Longrightarrow> i < length (bp_shards p) \<Longrightarrow> coherent crc (unlock i (sh, p)) \<Longrightarrow>
    clock_sweep crc bar n (sh, p) = ((sh', p'), r) \<Longrightarrow>
    \<exists>b. r = Ok b \<and> filed sh' \<and> sheds Protection b sh sh' \<and> bp_shards p' = bp_shards p"
proof (induction n arbitrary: sh)
  case 0
  then show ?case by (intro exI [of _ False]) (simp add: m_return_def sheds_def)
next
  case (Suc n)
  show ?case
  proof (cases "sh_protected sh")
    case Nil
    then show ?thesis using Suc.prems by (intro exI [of _ False]) (simp add: sheds_def)
  next
    case (Cons c rest)
    show ?thesis
    proof (rule clock_step [OF assms Suc.prems(1-3) Cons, of n])
      fix sh1 p1
      assume "clock_sweep crc bar (Suc n) (sh, p) = ((sh1, p1), Ok True)" "filed sh1" "sheds Protection True sh sh1" "bp_shards p1 = bp_shards p"
      then show ?thesis using Suc.prems(4) by (intro exI [of _ True]) simp
    next
      fix sh1 fr
      assume a: "clock_sweep crc bar (Suc n) (sh, p) = clock_sweep crc bar n (sh1, p)" "filed sh1" "coherent crc (unlock i (sh1, p))"
      and s: "cores sh1 = cores sh" "length (sh_resident sh1) = length (sh_resident sh)" "sh_free sh1 = sh_free sh" "limits_of sh1 = limits_of sh"
      have "clock_sweep crc bar n (sh1, p) = ((sh', p'), r)" using a(1) Suc.prems(4) by simp
      from Suc.IH [OF a(2) Suc.prems(2) a(3) this] show ?thesis using sheds_trans [OF s] by blast
    qed
  qed
qed

lemma clock_complete:
  assumes "never_fails bar"
  shows "filed sh \<Longrightarrow> i < length (bp_shards p) \<Longrightarrow> coherent crc (unlock i (sh, p)) \<Longrightarrow>
    clock_sweep crc bar n (sh, p) = (y, r) \<Longrightarrow> j < length (sh_protected sh) \<Longrightarrow> map_of (sh_resident sh) (sh_protected sh ! j) = Some fr \<Longrightarrow>
    fr_pins fr = 0 \<Longrightarrow> j + 1 + (if fr_referenced fr then length (sh_protected sh) else 0) \<le> n \<Longrightarrow> r = Ok True"
proof (induction n arbitrary: sh j fr)
  case (Suc n)
  then obtain c rest where q: "sh_protected sh = c # rest" by (cases "sh_protected sh") auto
  show ?case
  proof (rule clock_step [OF assms Suc.prems(1-3) q, of n])
    fix sh1 fr1
    assume a: "clock_sweep crc bar (Suc n) (sh, p) = clock_sweep crc bar n (sh1, p)" "filed sh1" "coherent crc (unlock i (sh1, p))"
      "sh_protected sh1 = rest @ [c]" "map_of (sh_resident sh) c = Some fr1" "fr_pins fr1 \<noteq> 0 \<or> fr_referenced fr1"
      "map_of (sh_resident sh1) = (map_of (sh_resident sh))(c \<mapsto> (if fr_pins fr1 = 0 then fr1\<lparr>fr_referenced := False\<rparr> else fr1))"
    have e: "clock_sweep crc bar n (sh1, p) = (y, r)" using a(1) Suc.prems(4) by simp
    have d: "distinct (c # rest)" using filedD(2) [OF Suc.prems(1), of Protection] q by simp
    show ?thesis
    proof (cases j)
      case 0
      then have "fr1 = fr" using Suc.prems(6) q a(5) by simp
      then show ?thesis
        using Suc.IH [OF a(2) Suc.prems(2) a(3) e, of "length rest" "fr\<lparr>fr_referenced := False\<rparr>"] Suc.prems(7,8) a(4,6,7) q 0 by simp
    next
      case (Suc j')
      then have "rest ! j' \<noteq> c" using d Suc.prems(5) q by auto
      then show ?thesis
        using Suc.IH [OF a(2) Suc.prems(2) a(3) e, of j' fr] Suc.prems(5-8) a(4,7) q Suc by (cases "fr_referenced fr") (simp_all add: nth_append)
    qed
  qed (use Suc.prems in simp)
qed simp

lemma evicts_protected:
  assumes "never_fails bar"
  shows "evicts crc i Protection (evict_from_protected crc bar)"
  unfolding evicts_def
proof (intro allI impI, elim conjE)
  fix sh p sh' p' r
  assume a: "filed sh" "i < length (bp_shards p)" "coherent crc (unlock i (sh, p))" "evict_from_protected crc bar (sh, p) = ((sh', p'), r)"
  then have e: "clock_sweep crc bar (length (sh_protected sh) * 2) (sh, p) = ((sh', p'), r)" by (simp add: evict_from_protected_def)
  obtain b where b: "r = Ok b" "filed sh'" "sheds Protection b sh sh'" "bp_shards p' = bp_shards p" using clock_sound [OF assms a(1-3) e] by blast
  have "b = freeable Protection sh"
  proof
    assume "freeable Protection sh"
    then obtain q fr where q: "map_of (sh_resident sh) q = Some fr" "tier_of fr = Protection" "fr_pins fr = 0" by (auto simp: freeable_def)
    then have "q \<in> set (sh_protected sh)" using filedD(3) [OF a(1), of q Protection] by simp
    then obtain j where "j < length (sh_protected sh)" "sh_protected sh ! j = q" by (auto simp: in_set_conv_nth)
    then show b using clock_complete [OF assms a(1-3) e, of j fr] q b(1) by simp
  qed (use b(3) in \<open>auto simp: sheds_def freeable_def\<close>)
  then show "r = Ok (freeable Protection sh) \<and> filed sh' \<and> sheds Protection (freeable Protection sh) sh sh' \<and> bp_shards p' = bp_shards p"
    using b by simp
qed

lemma tier_queues:
  "queue_of Probation = sh_probationary" "queue_of Stream = sh_streaming" "queue_of Meta = sh_metadata"
  "with_queue Probation = (\<lambda>q sh. sh\<lparr>sh_probationary := q\<rparr>)" "with_queue Stream = (\<lambda>q sh. sh\<lparr>sh_streaming := q\<rparr>)"
  "with_queue Meta = (\<lambda>q sh. sh\<lparr>sh_metadata := q\<rparr>)"
  by (simp_all add: fun_eq_iff with_queue.simps)

lemma evicts_tiers:
  assumes "never_fails bar"
  shows "evicts crc i Probation (evict_from_probationary crc bar)" "evicts crc i Stream (evict_from_streaming crc bar)"
    "evicts crc i Meta (evict_from_metadata crc bar)"
  by (rule evicts_queue [OF assms],
      simp add: evict_from_probationary_def evict_from_streaming_def evict_from_metadata_def tier_queues split_beta)+

text \<open>The tiers an admission of a class may take a frame from.\<close>

fun reach :: "cache_class \<Rightarrow> tier list" where
  "reach Metadata = [Meta, Probation, Stream, Protection]"
| "reach Streaming = [Stream, Probation]"
| "reach Search = [Probation, Protection, Stream]"

lemma first_success_filed:
  assumes "list_all2 (evicts crc i) ks ms" "\<forall>m \<in> set ms. \<forall>x. unseen crc i x (fst (m x))"
    "filed sh" "i < length (bp_shards p)" "coherent crc (unlock i (sh, p))" "first_success ms (sh, p) = ((sh', p'), r)"
  shows "r = Ok (\<exists>k \<in> set ks. freeable k sh) \<and> filed sh' \<and> bp_shards p' = bp_shards p \<and>
    (if \<exists>k \<in> set ks. freeable k sh then \<exists>k \<in> set ks. sheds k True sh sh'
     else cores sh' = cores sh \<and> length (sh_resident sh') = length (sh_resident sh) \<and> sh_free sh' = sh_free sh \<and> limits_of sh' = limits_of sh)"
  using assms
proof (induction ks ms arbitrary: sh p rule: list_all2_induct)
  case Nil
  then show ?case by (simp add: m_return_def)
next
  case (Cons k ks m ms)
  obtain sh1 p1 r1 where m: "m (sh, p) = ((sh1, p1), r1)" by (metis surj_pair)
  have e: "r1 = Ok (freeable k sh)" "filed sh1" "sheds k (freeable k sh) sh sh1" "bp_shards p1 = bp_shards p"
    using Cons.hyps(1) Cons.prems(2-4) m unfolding evicts_def by blast+
  show ?case
  proof (cases "freeable k sh")
    case True
    then show ?thesis using Cons.prems(5) m e by (auto simp: m_bind_def m_return_def)
  next
    case False
    have s: "cores sh1 = cores sh" "length (sh_resident sh1) = length (sh_resident sh)" "sh_free sh1 = sh_free sh" "limits_of sh1 = limits_of sh"
      using e(3) False by (simp_all add: sheds_def)
    have "unseen crc i (sh, p) (sh1, p1)" using Cons.prems(1) m by (metis fst_conv list.set_intros(1))
    then have c1: "coherent crc (unlock i (sh1, p1))" using Cons.prems(3,4) keepsD(1) by (auto simp: unseen_def)
    have fr: "freeable j sh1 = freeable j sh" for j using s(1) by (simp add: freeable_cores)
    have f: "first_success ms (sh1, p1) = ((sh', p'), r)" using Cons.prems(5) m e(1) False by (simp add: m_bind_def)
    have i1: "i < length (bp_shards p1)" using Cons.prems(3) e(4) by simp
    have "r = Ok (\<exists>k\<in>set ks. freeable k sh1) \<and> filed sh' \<and> bp_shards p' = bp_shards p1 \<and>
      (if \<exists>k\<in>set ks. freeable k sh1 then \<exists>k\<in>set ks. sheds k True sh1 sh'
       else cores sh' = cores sh1 \<and> length (sh_resident sh') = length (sh_resident sh1) \<and> sh_free sh' = sh_free sh1 \<and> limits_of sh' = limits_of sh1)"
      by (rule Cons.IH [OF _ e(2) i1 c1 f]) (use Cons.prems(1) in simp)
    then show ?thesis using False s e(4) sheds_trans [OF s] by (auto simp: fr split: if_splits)
  qed
qed

lemma evict_one_filed:
  assumes n: "never_fails bar" and a: "filed sh" "i < length (bp_shards p)" "coherent crc (unlock i (sh, p))"
    and e: "evict_one crc bar q cls (sh, p) = ((sh', p'), r)"
  shows "filed sh'" "bp_shards p' = bp_shards p" "limits_of sh' = limits_of sh" "sh_free sh' = sh_free sh"
    "if \<exists>k \<in> set (reach cls). freeable k sh then r = Ok () \<and> (\<exists>k \<in> set (reach cls). sheds k True sh sh')
     else r = Err (PoolExhausted q (sh_capacity sh)) \<and> length (sh_resident sh') = length (sh_resident sh) \<and> cores sh' = cores sh"
proof -
  define ms where "ms = (case cls of
          Metadata \<Rightarrow> [evict_from_metadata crc bar, evict_from_probationary crc bar, evict_from_streaming crc bar, evict_from_protected crc bar]
        | Streaming \<Rightarrow> [evict_from_streaming crc bar, evict_from_probationary crc bar]
        | Search \<Rightarrow> [evict_from_probationary crc bar, evict_from_protected crc bar, evict_from_streaming crc bar])"
  have l: "list_all2 (evicts crc i) (reach cls) ms"
    using evicts_tiers [OF n] evicts_protected [OF n] by (cases cls) (simp_all add: ms_def)
  have u: "\<forall>m \<in> set ms. \<forall>x. unseen crc i x (fst (m x))" by (cases cls) (auto simp: ms_def)
  obtain sh1 p1 r1 where m: "first_success ms (sh, p) = ((sh1, p1), r1)" by (metis surj_pair)
  note f = first_success_filed [OF l u a m]
  have o: "evict_one crc bar q cls (sh, p) = ((sh1, p1), case r1 of Ok b \<Rightarrow> if b then Ok () else Err (PoolExhausted q (sh_capacity sh1)) | _ \<Rightarrow> r)"
    using m f by (simp add: evict_one_def flip: ms_def) (simp add: m_bind_def)
  then have s: "sh' = sh1" "p' = p1" using e by simp_all
  show "filed sh'" "bp_shards p' = bp_shards p" using f s by simp_all
  show lf: "limits_of sh' = limits_of sh" "sh_free sh' = sh_free sh" using f s by (auto simp: sheds_def split: if_splits)
  then have "sh_capacity sh1 = sh_capacity sh" using s by (simp add: limits_of_def)
  then show "if \<exists>k \<in> set (reach cls). freeable k sh then r = Ok () \<and> (\<exists>k \<in> set (reach cls). sheds k True sh sh')
     else r = Err (PoolExhausted q (sh_capacity sh)) \<and> length (sh_resident sh') = length (sh_resident sh) \<and> cores sh' = cores sh"
    using f s o e by (simp split: if_splits)
qed

end
