(* ===== verification/Pool_Admission.thy ===== *)
theory Pool_Admission
  imports Pool_Queues
begin

text \<open>
  Admission to the buffer pool: the queues and the frame budget stay intact over every call, and a
  page that can be read is always admitted in the search and metadata classes while no guard is held
  and the barrier accepts write-backs.
\<close>

section \<open>Queues\<close>

lemma queue_length_mono:
  assumes "filed sh" "filed sh'" "cores sh' \<subseteq>\<^sub>m cores sh"
  shows "length (queue_of k sh') \<le> length (queue_of k sh)"
proof -
  have "set (queue_of k sh') \<subseteq> set (queue_of k sh)"
  proof
    fix q assume "q \<in> set (queue_of k sh')"
    then obtain fr where "map_of (sh_resident sh') q = Some fr" "tier_of fr = k" using filedD(3) [OF assms(2)] by auto
    then have "cores sh' q = Some (core fr)" by (simp add: cores_def)
    then have "cores sh q = Some (core fr)" using assms(3) by (metis domI map_le_def)
    then obtain fr0 where "map_of (sh_resident sh) q = Some fr0" "core fr0 = core fr" by (auto simp: cores_def)
    then show "q \<in> set (queue_of k sh)" using filedD(3) [OF assms(1), of q k] \<open>tier_of fr = k\<close> core_simps(1) by metis
  qed
  then show ?thesis
    using card_mono [of "set (queue_of k sh)" "set (queue_of k sh')"] distinct_card [OF filedD(2) [OF assms(1)]] distinct_card [OF filedD(2) [OF assms(2)]] by force
qed

lemma filed_set:
  assumes f: "filed sh" and c: "map_of (sh_resident sh) c = Some fr" "tier_of fr' = tier_of fr"
  shows "filed (set_frame c fr' sh)"
proof -
  have "distinct (map fst (sh_resident (set_frame c fr' sh)))" using filedD(1) [OF f] by (simp add: set_frame_def distinct_update)
  moreover have "x \<in> set (queue_of k sh) \<longleftrightarrow> (\<exists>fr. map_of (sh_resident (set_frame c fr' sh)) x = Some fr \<and> tier_of fr = k)" for x k
    using filedD(3) [OF f, of x k] c by (cases "x = c") auto
  ultimately show ?thesis using filedD(2) [OF f] unfolding filed_def by simp
qed

lemma filed_move:
  assumes f: "filed sh" and c: "map_of (sh_resident sh) c = Some fr" and k: "tier_of fr = k" "tier_of fr' = j" "j \<noteq> k"
  shows "filed (with_queue j (queue_of j sh @ [c]) (with_queue k (remove1 c (queue_of k sh)) (set_frame c fr' sh)))" (is "filed ?sh")
proof -
  have ck: "c \<in> set (queue_of k sh)" "c \<notin> set (queue_of j sh)" using filedD(3) [OF f] c k by auto
  have d: "distinct (queue_of h sh)" for h using filedD(2) [OF f] .
  have "distinct (map fst (sh_resident ?sh))" using filedD(1) [OF f] by (simp add: set_frame_def distinct_update)
  moreover have "distinct (queue_of h ?sh)" for h using d [of h] ck k by (auto simp: distinct_remove1)
  moreover have "x \<in> set (queue_of h ?sh) \<longleftrightarrow> (\<exists>fr. map_of (sh_resident ?sh) x = Some fr \<and> tier_of fr = h)" for x h
    using filedD(3) [OF f, of x h] d [of k] ck c k by (cases "x = c"; cases "h = j"; cases "h = k") auto
  ultimately show ?thesis unfolding filed_def by blast
qed

lemma filed_add:
  assumes f: "filed sh" and c: "map_of (sh_resident sh) c = None"
  shows "filed (with_queue (tier_of fr) (queue_of (tier_of fr) sh @ [c]) (set_frame c fr sh))" (is "filed ?sh")
proof -
  have ck: "c \<notin> set (queue_of h sh)" for h using filedD(3) [OF f] c by auto
  have "distinct (map fst (sh_resident ?sh))" using filedD(1) [OF f] by (simp add: set_frame_def distinct_update)
  moreover have "distinct (queue_of h ?sh)" for h using filedD(2) [OF f, of h] ck by auto
  moreover have "x \<in> set (queue_of h ?sh) \<longleftrightarrow> (\<exists>fr. map_of (sh_resident ?sh) x = Some fr \<and> tier_of fr = h)" for x h
    using filedD(3) [OF f, of x h] ck by (cases "x = c"; cases "h = tier_of fr") auto
  ultimately show ?thesis unfolding filed_def by blast
qed

definition frames :: "shard \<Rightarrow> nat" where
  "frames sh = length (sh_resident sh) + sh_free sh"

lemma frames_simps [simp]:
  "frames (with_queue k qs sh) = frames sh"
  by (simp add: frames_def)

lemma metadata_simps [simp]:
  "sh_metadata (with_queue k qs sh) = (if k = Meta then qs else sh_metadata sh)" "sh_metadata (set_frame c fr sh) = sh_metadata sh"
  "sh_metadata (drop_frame c sh) = sh_metadata sh"
  by (cases k; simp add: with_queue.simps set_frame_def drop_frame_def)+

lemma demote_filed:
  "filed sh \<Longrightarrow> filed (demote n sh) \<and> frames (demote n sh) = frames sh \<and> limits_of (demote n sh) = limits_of sh \<and>
     sh_metadata (demote n sh) = sh_metadata sh"
proof (induction n arbitrary: sh)
  case (Suc n)
  show ?case
  proof (cases "sh_protected sh")
    case (Cons c rest)
    then have q: "queue_of Protection sh = c # rest" by simp
    then obtain fr where fr: "map_of (sh_resident sh) c = Some fr" "tier_of fr = Protection"
      using filedD(3) [OF Suc.prems, of c Protection] by auto
    let ?fr = "fr\<lparr>fr_protected := False\<rparr>"
    let ?sh = "with_queue Probation (queue_of Probation sh @ [c]) (with_queue Protection (remove1 c (queue_of Protection sh)) (set_frame c ?fr sh))"
    have t: "tier_of ?fr = Probation" using fr(2) by (auto simp: tier_of_def split: if_splits)
    have "filed ?sh" by (rule filed_move [OF Suc.prems fr t]) simp
    moreover have "frames ?sh = frames sh" using length_set_frame [OF filedD(1) [OF Suc.prems], of c ?fr] fr(1) by (simp add: frames_def)
    moreover have "demote (Suc n) sh = (if length (sh_protected sh) \<le> sh_protected_capacity sh then sh else demote n ?sh)"
      using Cons fr(1) by (cases sh) (simp add: Let_def with_queue.simps set_frame_def)
    ultimately show ?thesis using Suc.IH [of ?sh] Suc.prems by (simp add: with_queue.simps set_frame_def limits_of_def)
  qed (use Suc.prems in simp)
qed simp

lemma frame_hit_filed:
  assumes f: "filed sh" and c: "map_of (sh_resident sh) q = Some fr" and h: "frame_hit q fr t sh = sh'"
  shows "filed sh' \<and> frames sh' = frames sh \<and> limits_of sh' = limits_of sh \<and> sh_metadata sh' = sh_metadata sh"
proof -
  let ?pr = "fr_foreground_touched fr \<and> \<not> fr_metadata fr \<and> \<not> fr_streaming fr \<and> \<not> fr_protected fr"
  let ?fr = "fr\<lparr>fr_prefetched := False, fr_foreground_touched := True, fr_dirtied_by := t,
    fr_pins := fr_pins fr + 1, fr_referenced := True, fr_protected := fr_protected fr \<or> ?pr\<rparr>"
  let ?s1 = "set_frame q ?fr sh"
  let ?s2 = "with_queue Protection (queue_of Protection sh @ [q]) (with_queue Probation (remove1 q (queue_of Probation sh)) ?s1)"
  have fs: "frames ?s1 = frames sh" using length_set_frame [OF filedD(1) [OF f], of q ?fr] c by (simp add: frames_def)
  let ?o = "?s1\<lparr>sh_probationary := remove_from q (sh_probationary ?s1), sh_protected := sh_protected ?s1 @ [q]\<rparr>"
  have o: "?o = ?s2" by (cases sh) (simp add: remove_from_def with_queue.simps set_frame_def)
  have "frame_hit q fr t sh = (if ?pr then enforce_protected_capacity ?o else ?s1)" by (simp only: frame_hit_def Let_def)
  then have e: "sh' = (if ?pr then demote (length (sh_protected ?s2)) ?s2 else ?s1)"
    unfolding o enforce_protected_capacity_def using h by (simp only:)
  show ?thesis
  proof (cases ?pr)
    case True
    then have t: "tier_of fr = Probation" "tier_of ?fr = Protection" by (simp_all add: tier_of_def)
    define s2 where "s2 = ?s2"
    have "filed s2" unfolding s2_def by (rule filed_move [OF f c t]) simp
    moreover have "sh' = demote (length (sh_protected s2)) s2" unfolding s2_def using e True by (simp only: if_True simp_thms)
    moreover have "frames s2 = frames sh" "limits_of s2 = limits_of sh" "sh_metadata s2 = sh_metadata sh"
      using fs by (simp_all add: s2_def)
    ultimately show ?thesis using demote_filed [of s2 "length (sh_protected s2)"] by simp
  next
    case False
    then have t: "tier_of ?fr = tier_of fr" by (auto simp: tier_of_def)
    have "filed ?s1" by (rule filed_set [OF f c t])
    moreover have "sh' = ?s1" using e False by (simp only: if_False)
    ultimately show ?thesis using fs by simp
  qed
qed

section \<open>Capacities\<close>

lemma enforce_filed:
  assumes "never_fails bar"
  shows "filed sh \<Longrightarrow> i < length (bp_shards p) \<Longrightarrow> coherent crc (unlock i (sh, p)) \<Longrightarrow>
    enforce_capacity crc bar (queue_of k) (with_queue k) cap n (sh, p) = (sh', p') \<Longrightarrow>
    filed sh' \<and> frames sh' = frames sh \<and> limits_of sh' = limits_of sh \<and> cores sh' \<subseteq>\<^sub>m cores sh \<and> bp_shards p' = bp_shards p \<and>
    (\<forall>c fr. map_of (sh_resident sh) c = Some fr \<and> tier_of fr \<noteq> k \<longrightarrow> cores sh' c = cores sh c) \<and>
    (length (queue_of k sh) \<le> n \<and> length (queue_of k sh) \<le> Suc cap \<and>
      (\<forall>c fr. map_of (sh_resident sh) c = Some fr \<and> c \<noteq> last (queue_of k sh) \<longrightarrow> fr_pins fr = 0) \<and> 0 < cap \<longrightarrow>
     length (queue_of k sh') \<le> cap)"
proof (induction n arbitrary: sh p)
  case (Suc n)
  show ?case
  proof (cases "length (queue_of k sh) \<le> cap")
    case True
    then show ?thesis using Suc.prems by auto
  next
    case False
    then obtain c rest where q: "queue_of k sh = c # rest" by (cases "queue_of k sh") auto
    obtain fr where fr: "map_of (sh_resident sh) c = Some fr" "tier_of fr = k" using filedD(3) [OF Suc.prems(1), of c k] q by auto
    let ?popped = "with_queue k rest sh" and ?turned = "with_queue k (rest @ [c]) sh"
    have d: "distinct (c # rest)" using filedD(2) [OF Suc.prems(1), of k] q by simp
    have cb: "coherent crc (unlock i (?popped, p))" using keepsD(1) [OF keeps_resident [OF Suc.prems(3)]] by simp
    show ?thesis
    proof (cases "fr_pins fr = 0")
      case True
      obtain p1 where t: "try_reclaim crc bar c (?popped, p) = ((drop_frame c ?popped, p1), Ok True)" "bp_shards p1 = bp_shards p"
        by (rule try_reclaim_steady [OF assms cb Suc.prems(2), of c fr]) (use fr True in simp_all)
      let ?sh1 = "(drop_frame c ?popped)\<lparr>sh_free := sh_free (drop_frame c ?popped) + 1\<rparr>"
      have f0: "filed (drop_frame c ?popped)" by (rule filed_drop [OF Suc.prems(1) q])
      then have f1: "filed ?sh1" unfolding filed_def by simp
      have "unseen crc i (?popped, p) (drop_frame c ?popped, p1)" using unseen_reclaim [of crc i "(?popped, p)" bar c] t(1) by simp
      then have "coherent crc (unlock i (drop_frame c ?popped, p1))" using cb Suc.prems(2) keepsD(1) by (auto simp: unseen_def)
      then have c1: "coherent crc (unlock i (?sh1, p1))" by (rule keepsD(1) [OF keeps_resident]) simp
      have e: "enforce_capacity crc bar (queue_of k) (with_queue k) cap n (?sh1, p1) = (sh', p')"
        using Suc.prems(4) False q t by simp
      have fs: "frames ?sh1 = frames sh"
        using length_drop_frame [of ?popped c fr] filedD(1) [OF Suc.prems(1)] fr(1) by (simp add: frames_def)
      have cl: "cores ?sh1 \<subseteq>\<^sub>m cores sh" by (auto simp: map_le_def)
      have i1: "i < length (bp_shards p1)" using Suc.prems(2) t(2) by simp
      note IH = Suc.IH [OF f1 i1 c1 e]
      have "length (queue_of k sh') \<le> cap" if "length (queue_of k sh) \<le> Suc cap"
      proof -
        have "length (queue_of k sh') \<le> length (queue_of k ?sh1)" by (rule queue_length_mono) (use f1 IH in blast)+
        then show ?thesis using that q by simp
      qed
      moreover have "cores sh' \<subseteq>\<^sub>m cores sh" using IH map_le_trans [OF _ cl] by blast
      moreover have "cores sh' x = cores sh x" if x: "map_of (sh_resident sh) x = Some frx" "tier_of frx \<noteq> k" for x frx
      proof -
        have "x \<noteq> c" using x fr by auto
        then have "cores sh' x = cores ?sh1 x" using IH x by auto
        then show ?thesis using \<open>x \<noteq> c\<close> by simp
      qed
      ultimately show ?thesis using IH fs t(2) by simp
    next
      case np: False
      then have "try_reclaim crc bar c (?popped, p) = ((?popped, p), Ok False)" using fr(1) by (simp add: try_reclaim_def)
      then have s: "sh' = ?turned" "p' = p" using Suc.prems(4) False q by simp_all
      have "filed ?turned" by (rule filed_queue [OF Suc.prems(1)]) (use d q in auto)
      moreover have "c \<noteq> last (c # rest)" if "0 < cap" using that False q d by (cases rest) auto
      ultimately show ?thesis using s np fr(1) q by auto
    qed
  qed
qed simp

lemma enforce_streaming_filed:
  assumes "never_fails bar" "filed sh" "i < length (bp_shards p)" "coherent crc (unlock i (sh, p))"
    "enforce_streaming_capacity crc bar (sh, p) = (sh', p')"
  shows "filed sh' \<and> frames sh' = frames sh \<and> limits_of sh' = limits_of sh \<and> cores sh' \<subseteq>\<^sub>m cores sh \<and> bp_shards p' = bp_shards p \<and>
    (\<forall>c fr. map_of (sh_resident sh) c = Some fr \<and> tier_of fr \<noteq> Stream \<longrightarrow> cores sh' c = cores sh c)"
  using enforce_filed [OF assms(1-4), of Stream "sh_streaming_capacity sh" "length (sh_streaming sh)"] assms(5)
  by (simp add: enforce_streaming_capacity_def tier_queues)

lemma enforce_metadata_filed:
  assumes "never_fails bar" "filed sh" "i < length (bp_shards p)" "coherent crc (unlock i (sh, p))"
    "enforce_metadata_capacity crc bar (sh, p) = (sh', p')"
  shows "filed sh' \<and> frames sh' = frames sh \<and> limits_of sh' = limits_of sh \<and> cores sh' \<subseteq>\<^sub>m cores sh \<and> bp_shards p' = bp_shards p"
    "length (sh_metadata sh) \<le> Suc (sh_metadata_capacity sh) \<Longrightarrow> 0 < sh_metadata_capacity sh \<Longrightarrow>
     \<forall>c fr. map_of (sh_resident sh) c = Some fr \<and> c \<noteq> last (sh_metadata sh) \<longrightarrow> fr_pins fr = 0 \<Longrightarrow>
     length (sh_metadata sh') \<le> sh_metadata_capacity sh"
  using enforce_filed [OF assms(1-4), of Meta "sh_metadata_capacity sh" "length (sh_metadata sh)" sh' p'] assms(5)
  by (simp_all add: enforce_metadata_capacity_def tier_queues)

section \<open>Admission\<close>

definition tidy :: "shard \<Rightarrow> bool" where
  "tidy sh \<longleftrightarrow> filed sh \<and> frames sh = sh_capacity sh \<and> length (sh_metadata sh) \<le> sh_metadata_capacity sh \<and>
     sh_metadata_capacity sh < sh_capacity sh"

lemma limits_capacity:
  assumes "limits_of sh' = limits_of sh"
  shows "sh_capacity sh' = sh_capacity sh" "sh_metadata_capacity sh' = sh_metadata_capacity sh"
  using assms by (simp_all add: limits_of_def)

text \<open>With no pins, some frame outside the metadata tier can always be taken.\<close>

lemma unpinned_freeable:
  assumes t: "tidy sh" and n: "\<And>q fr. map_of (sh_resident sh) q = Some fr \<Longrightarrow> fr_pins fr = 0" and z: "sh_free sh = 0"
  shows "\<exists>k \<in> {Probation, Protection, Stream}. freeable k sh"
proof (rule ccontr)
  assume a: "\<not> ?thesis"
  have f: "filed sh" using t by (simp add: tidy_def)
  have "fst ` set (sh_resident sh) \<subseteq> set (sh_metadata sh)"
  proof
    fix q assume "q \<in> fst ` set (sh_resident sh)"
    then obtain fr where fr: "map_of (sh_resident sh) q = Some fr" by (meson map_of_eq_None_iff not_None_eq)
    then have "freeable (tier_of fr) sh" using n [OF fr] by (auto simp: freeable_def)
    then have "tier_of fr = Meta" using a by (cases "tier_of fr") auto
    then show "q \<in> set (sh_metadata sh)" using filedD(3) [OF f, of q Meta] fr by simp
  qed
  then have "card (set (map fst (sh_resident sh))) \<le> card (set (sh_metadata sh))" by (intro card_mono) auto
  then have "length (sh_resident sh) \<le> length (sh_metadata sh)"
    using distinct_card [OF filedD(1) [OF f]] card_length [of "sh_metadata sh"] by simp
  then show False using t z by (simp add: tidy_def frames_def)
qed

lemma sheds_le: "sheds k True sh sh' \<Longrightarrow> cores sh' \<subseteq>\<^sub>m cores sh"
  by (auto simp: sheds_def map_le_def split: if_splits)

lemma take_buffer_filed:
  assumes n: "never_fails bar" and a: "filed sh" "i < length (bp_shards p)" "coherent crc (unlock i (sh, p))"
    and t: "take_buffer crc bar q cls (sh, p) = ((sh', p'), r)"
  shows "filed sh'" "bp_shards p' = bp_shards p" "limits_of sh' = limits_of sh" "cores sh' \<subseteq>\<^sub>m cores sh"
    "if sh_free sh > 0 \<or> (\<exists>k \<in> set (reach cls). freeable k sh) then r = Ok () \<and> frames sh' + 1 = frames sh
     else r = Err (PoolExhausted q (sh_capacity sh)) \<and> frames sh' = frames sh"
    "\<forall>c fr. map_of (sh_resident sh) c = Some fr \<and> tier_of fr \<notin> set (reach cls) \<longrightarrow> cores sh' c = cores sh c"
proof -
  have "filed sh' \<and> bp_shards p' = bp_shards p \<and> limits_of sh' = limits_of sh \<and> cores sh' \<subseteq>\<^sub>m cores sh \<and>
    (if sh_free sh > 0 \<or> (\<exists>k \<in> set (reach cls). freeable k sh) then r = Ok () \<and> frames sh' + 1 = frames sh
     else r = Err (PoolExhausted q (sh_capacity sh)) \<and> frames sh' = frames sh) \<and>
    (\<forall>c fr. map_of (sh_resident sh) c = Some fr \<and> tier_of fr \<notin> set (reach cls) \<longrightarrow> cores sh' c = cores sh c)"
  proof (cases "sh_free sh > 0")
    case True
    then have "sh' = sh\<lparr>sh_free := sh_free sh - 1\<rparr>" "p' = p" "r = Ok ()" using t by (simp_all add: take_buffer_def)
    then show ?thesis using a(1) True by (simp add: filed_def frames_def)
  next
    case False
    then have e: "evict_one crc bar q cls (sh, p) = ((sh', p'), r)" using t by (simp add: take_buffer_def)
    note ev = evict_one_filed [OF n a e]
    show ?thesis
    proof (cases "\<exists>k \<in> set (reach cls). freeable k sh")
      case True
      then obtain k where k: "sheds k True sh sh'" "r = Ok ()" "k \<in> set (reach cls)" using ev(5) by auto
      then have "cores sh' c = cores sh c" if "map_of (sh_resident sh) c = Some fr" "tier_of fr \<notin> set (reach cls)" for c fr
        using that by (auto simp: sheds_def)
      moreover have "frames sh' + 1 = frames sh" using k(1) by (auto simp: sheds_def frames_def)
      ultimately show ?thesis using ev(1-4) True sheds_le [OF k(1)] False k(2) by auto
    next
      case none: False
      then have "cores sh' = cores sh" "r = Err (PoolExhausted q (sh_capacity sh))" "length (sh_resident sh') = length (sh_resident sh)"
        using ev(5) by simp_all
      then show ?thesis using ev(1-4) none False by (simp add: frames_def)
    qed
  qed
  then show "filed sh'" "bp_shards p' = bp_shards p" "limits_of sh' = limits_of sh" "cores sh' \<subseteq>\<^sub>m cores sh"
    "if sh_free sh > 0 \<or> (\<exists>k \<in> set (reach cls). freeable k sh) then r = Ok () \<and> frames sh' + 1 = frames sh
     else r = Err (PoolExhausted q (sh_capacity sh)) \<and> frames sh' = frames sh"
    "\<forall>c fr. map_of (sh_resident sh) c = Some fr \<and> tier_of fr \<notin> set (reach cls) \<longrightarrow> cores sh' c = cores sh c" by blast+
qed

definition admitted :: "cache_class \<Rightarrow> nat \<Rightarrow> page_id \<Rightarrow> frame \<Rightarrow> shard \<Rightarrow> shard" where
  "admitted cls cap q fr sh =
     (let fr = (if cls = Metadata \<and> cap = 0 then fr\<lparr>fr_metadata := False\<rparr> else fr) in
      with_queue (tier_of fr) (queue_of (tier_of fr) sh @ [q]) (set_frame q fr sh))"

lemma admit_unfold:
  "admit crc bar q cls b (sh, p) =
     (let x = (admitted cls (sh_metadata_capacity sh) q (frame_new cls (bp_current_transaction p) b) sh, p) in
      case cls of Streaming \<Rightarrow> enforce_streaming_capacity crc bar x
      | Metadata \<Rightarrow> if sh_metadata_capacity sh = 0 then x else enforce_metadata_capacity crc bar x
      | Search \<Rightarrow> x)"
  by (cases cls; cases sh) (simp_all add: admit_def admitted_def tier_of_def frame_new_def Let_def with_queue.simps set_frame_def)

lemma admitted_filed:
  assumes "filed sh" "map_of (sh_resident sh) q = None"
  shows "filed (admitted cls cap q fr sh)" "frames (admitted cls cap q fr sh) = frames sh + 1"
    "limits_of (admitted cls cap q fr sh) = limits_of sh"
  using filed_add [OF assms] length_set_frame [OF filedD(1) [OF assms(1)], of q] assms(2)
  by (simp_all add: admitted_def Let_def frames_def)

lemma admit_filed:
  assumes n: "never_fails bar" and a: "filed sh" "i < length (bp_shards p)" "coherent crc (unlock i (sh, p))"
    and q: "shard_for p q = i" "map_of (sh_resident sh) q = None" "q \<noteq> 0" "read_page crc (bp_store p) q = Ok (h, b)"
    and e: "admit crc bar q cls b (sh, p) = (sh', p')"
  shows "filed sh'" "frames sh' = frames sh + 1" "limits_of sh' = limits_of sh" "bp_shards p' = bp_shards p"
    "length (sh_metadata sh) \<le> sh_metadata_capacity sh \<Longrightarrow> (\<And>c fr. map_of (sh_resident sh) c = Some fr \<Longrightarrow> fr_pins fr = 0) \<Longrightarrow>
     length (sh_metadata sh') \<le> sh_metadata_capacity sh"
    "\<forall>c fr. map_of (sh_resident sh) c = Some fr \<and> tier_of fr \<notin> set (reach cls) \<longrightarrow> cores sh' c = cores sh c"
proof -
  let ?fr = "frame_new cls (bp_current_transaction p) b" and ?cap = "sh_metadata_capacity sh"
  let ?sh = "admitted cls ?cap q ?fr sh"
  note ad = admitted_filed [OF a(1) q(2), of cls ?cap ?fr]
  define fr where "fr = (if cls = Metadata \<and> ?cap = 0 then ?fr\<lparr>fr_metadata := False\<rparr> else ?fr)"
  have fr: "fr_data fr = b" "\<not> fr_dirty fr" "fr_pins fr = 1" "?sh = with_queue (tier_of fr) (queue_of (tier_of fr) sh @ [q]) (set_frame q fr sh)"
    by (simp_all add: fr_def frame_new_def admitted_def Let_def)
  have "coherent crc (unlock i (set_frame q fr sh, p))"
    using keepsD(1) [OF insert_frame_keeps [OF a(3,2) q(1-3), of h fr]] fr q(4) by simp
  then have co: "coherent crc (unlock i (?sh, p))" unfolding fr(4) by (rule keepsD(1) [OF keeps_resident]) simp
  note es = enforce_streaming_filed [OF n ad(1) a(2) co] and em = enforce_metadata_filed [OF n ad(1) a(2) co]
  have mq: "sh_metadata ?sh = (if cls = Metadata \<and> 0 < ?cap then sh_metadata sh @ [q] else sh_metadata sh)"
    unfolding fr(4) by (cases cls) (simp_all add: fr_def tier_of_def frame_new_def)
  have cap: "sh_metadata_capacity ?sh = ?cap" by (rule limits_capacity(2) [OF ad(3)])
  have c: "(case cls of Streaming \<Rightarrow> enforce_streaming_capacity crc bar (?sh, p)
      | Metadata \<Rightarrow> if ?cap = 0 then (?sh, p) else enforce_metadata_capacity crc bar (?sh, p) | Search \<Rightarrow> (?sh, p)) = (sh', p')"
    using e unfolding admit_unfold Let_def .
  show "filed sh'" "frames sh' = frames sh + 1" "limits_of sh' = limits_of sh" "bp_shards p' = bp_shards p"
    using c es em(1) ad by (cases cls; auto split: if_splits)+
  show "\<forall>c fr. map_of (sh_resident sh) c = Some fr \<and> tier_of fr \<notin> set (reach cls) \<longrightarrow> cores sh' c = cores sh c"
  proof (intro allI impI, elim conjE)
    fix x frx
    assume x: "map_of (sh_resident sh) x = Some frx" "tier_of frx \<notin> set (reach cls)"
    have "x \<noteq> q" using x(1) q(2) by auto
    then have "map_of (sh_resident ?sh) x = Some frx" "cores ?sh x = cores sh x" using x(1) unfolding fr(4) by simp_all
    then show "cores sh' x = cores sh x" using c es x(2) by (cases cls; cases "tier_of frx") auto
  qed
  assume l: "length (sh_metadata sh) \<le> ?cap" and u: "\<And>c fr. map_of (sh_resident sh) c = Some fr \<Longrightarrow> fr_pins fr = 0"
  show "length (sh_metadata sh') \<le> ?cap"
  proof (cases "cls = Metadata \<and> 0 < ?cap")
    case True
    then have "\<forall>c fr. map_of (sh_resident ?sh) c = Some fr \<and> c \<noteq> last (sh_metadata ?sh) \<longrightarrow> fr_pins fr = 0"
      using mq u unfolding fr(4) by auto
    then show ?thesis using True c em(2) [of sh' p'] mq cap l by simp
  next
    case False
    then have "sh' = ?sh \<or> cls = Streaming" using c by (cases cls) (auto split: if_splits)
    then show ?thesis
    proof
      assume "cls = Streaming"
      then have "enforce_streaming_capacity crc bar (?sh, p) = (sh', p')" using c by simp
      from es [OF this] have "length (queue_of Meta sh') \<le> length (queue_of Meta ?sh)" by (intro queue_length_mono [OF ad(1)]) auto
      then show ?thesis using mq l False by simp
    qed (use mq l False in simp)
  qed
qed

definition tidy_pool :: "'b pool \<Rightarrow> bool" where
  "tidy_pool p \<longleftrightarrow> list_all tidy (bp_shards p)"

lemma tidy_pool_update: "tidy_pool p \<Longrightarrow> tidy sh \<Longrightarrow> bp_shards p' = bp_shards p \<Longrightarrow> tidy_pool (unlock i (sh, p'))"
  by (auto simp: tidy_pool_def list_all_iff dest!: set_update_subset_insert [THEN subsetD])

lemma tidy_nth: "tidy_pool p \<Longrightarrow> i < length (bp_shards p) \<Longrightarrow> tidy (bp_shards p ! i)"
  by (simp add: tidy_pool_def list_all_length)

lemma read_page_no_panic: "read_page crc s q \<noteq> Panic"
  by (auto simp: read_page_def read_page_unchecked_def verify_def header_decode_def Let_def
      split: prod.splits if_splits option.splits result.splits)

lemma unpinned_shard:
  assumes "placed p" "pins p = (\<lambda>_. 0)" "i < length (bp_shards p)" "map_of (sh_resident (bp_shards p ! i)) c = Some fr"
  shows "fr_pins fr = 0"
proof -
  have "frame_of p c = Some fr" using resident_frame_of(2) [of i "bp_shards p ! i" p c fr] assms(1,3,4) by simp
  then show ?thesis using fun_cong [OF assms(2), of c] by (simp add: pins_def)
qed

lemma cores_le_pins:
  assumes "cores sh' \<subseteq>\<^sub>m cores sh" "\<And>c fr. map_of (sh_resident sh) c = Some fr \<Longrightarrow> fr_pins fr = 0" "map_of (sh_resident sh') c = Some fr"
  shows "fr_pins fr = 0"
proof -
  have "cores sh' c = Some (core fr)" using assms(3) by (simp add: cores_def)
  then have "cores sh c = Some (core fr)" using assms(1) by (metis domI map_le_def)
  then obtain fr0 where "map_of (sh_resident sh) c = Some fr0" "core fr0 = core fr" by (auto simp: cores_def)
  then show ?thesis using assms(2) core_simps(2) by metis
qed

lemma load_page_tidy:
  assumes n: "never_fails bar" and f: "filed sh" "i < length (bp_shards p)" "coherent crc (unlock i (sh, p))"
    and q: "shard_for p q = i" "map_of (sh_resident sh) q = None" "q \<noteq> 0"
    and u: "\<And>c fr. map_of (sh_resident sh) c = Some fr \<Longrightarrow> fr_pins fr = 0"
    and t: "frames sh + 1 = sh_capacity sh" "length (sh_metadata sh) \<le> sh_metadata_capacity sh" "sh_metadata_capacity sh < sh_capacity sh"
    and l: "load_page crc bar q cls (sh, p) = ((sh', p'), r)"
  shows "tidy sh' \<and> bp_shards p' = bp_shards p \<and> r = (case read_page crc (bp_store p) q of Ok _ \<Rightarrow> Ok () | Err e \<Rightarrow> Err e | Panic \<Rightarrow> Panic)"
proof (cases "read_page crc (bp_store p) q")
  case (Ok hb)
  then obtain h b where b: "read_page crc (bp_store p) q = Ok (h, b)" by (cases hb) simp
  then have e: "admit crc bar q cls b (sh, p) = (sh', p')" "r = Ok ()" using l by (auto simp: load_page_def)
  note ad = admit_filed [OF n f q b e(1)]
  show ?thesis using ad(1-4) ad(5) [OF t(2) u] limits_capacity [OF ad(3)] t e(2) b by (simp add: tidy_def)
next
  case (Err e)
  then have "sh' = sh\<lparr>sh_free := sh_free sh + 1\<rparr>" "p' = p" "r = Err e" using l by (auto simp: load_page_def)
  then show ?thesis using f(1) t Err by (simp add: tidy_def filed_def frames_def)
qed (use read_page_no_panic in blast)

lemma miss_tidy:
  assumes n: "never_fails bar" and t: "tidy sh" and i: "i < length (bp_shards p)" and co: "coherent crc (unlock i (sh, p))"
    and u: "\<And>x fr. map_of (sh_resident sh) x = Some fr \<Longrightarrow> fr_pins fr = 0"
    and q: "shard_for p q = i" "map_of (sh_resident sh) q = None" "q \<noteq> 0"
    and m: "m_then (take_buffer crc bar q cls) (load_page crc bar q cls) (sh, p) = ((sh', p'), r)"
  shows "tidy sh' \<and> bp_shards p' = bp_shards p \<and> (cls \<noteq> Streaming \<and> store_view crc (bp_store p) q \<noteq> None \<longrightarrow> r = Ok ())"
proof -
  obtain sh1 p1 r1 where tb: "take_buffer crc bar q cls (sh, p) = ((sh1, p1), r1)" by (metis surj_pair)
  have fs: "filed sh" using t by (simp add: tidy_def)
  note f1 = take_buffer_filed [OF n fs i co tb]
  have ml: "length (sh_metadata sh1) \<le> length (sh_metadata sh)" using queue_length_mono [OF fs f1(1,4), of Meta] by simp
  have n1: "map_of (sh_resident sh1) q = None"
    using take_buffer_no_frame [of q "(sh, p)" crc bar q cls] q(2) tb by (simp add: no_frame_def)
  have un: "unseen crc i (sh, p) (sh1, p1)" using take_buffer_unseen [of crc i "(sh, p)" bar q cls] tb by simp
  then have k1: "keeps crc (unlock i (sh, p)) (unlock i (sh1, p1)) (pins (unlock i (sh, p)))" "i < length (bp_shards p1)"
    using i co by (simp_all add: unseen_def)
  have sf1: "shard_for p1 q = i" using f1(2) q(1) by (simp add: shard_for_def)
  show ?thesis
  proof (cases "r1 = Ok ()")
    case True
    have l: "load_page crc bar q cls (sh1, p1) = ((sh', p'), r)" using m tb True by (simp add: m_then_def m_bind_Ok)
    have fr: "frames sh1 + 1 = sh_capacity sh1" "length (sh_metadata sh1) \<le> sh_metadata_capacity sh1" "sh_metadata_capacity sh1 < sh_capacity sh1"
      using f1(5) True t ml limits_capacity [OF f1(3)] by (auto simp: tidy_def split: if_splits)
    note ld = load_page_tidy [OF n f1(1) k1(2) keepsD(1) [OF k1(1)] sf1 n1 q(3) cores_le_pins [OF f1(4) u] fr l]
    have "r = Ok ()" if "store_view crc (bp_store p) q \<noteq> None"
    proof -
      have "pool_view crc (unlock i (sh, p)) q \<noteq> None" using that q i by (simp add: pool_view_def frame_of_unlock)
      then have "pool_view crc (unlock i (sh1, p1)) q \<noteq> None" using map_le_implies_dom_le [OF keepsD(3) [OF k1(1)]] by blast
      moreover have "frame_of (unlock i (sh1, p1)) q = None" using n1 sf1 k1(2) by (simp add: frame_of_unlock)
      ultimately have "store_view crc (bp_store p1) q \<noteq> None" by (simp add: pool_view_def)
      then show ?thesis using ld by (auto simp: store_view_def split: result.splits if_splits)
    qed
    then show ?thesis using ld f1(2) by simp
  next
    case False
    then have p': "sh' = sh1" "p' = p1" using m tb by (cases r1; simp add: m_then_def m_bind_def)+
    have e: "\<not> (sh_free sh > 0 \<or> (\<exists>k \<in> set (reach cls). freeable k sh))" "frames sh1 = frames sh"
      using f1(5) False by (auto split: if_splits)
    then have "cls = Streaming" using unpinned_freeable [OF t u] by (cases cls) auto
    moreover have "tidy sh1" using f1(1) e(2) t ml limits_capacity [OF f1(3)] by (simp add: tidy_def)
    ultimately show ?thesis using p' f1(2) by simp
  qed
qed

lemma acquire_tidy:
  assumes n: "never_fails bar" and c: "coherent crc p" "tidy_pool p" "pins p = (\<lambda>_. 0)" and q: "q \<noteq> 0"
    and a: "acquire_in_class crc bar q cls p = (p', r)"
  shows "tidy_pool p'" "cls \<noteq> Streaming \<Longrightarrow> pool_view crc p q \<noteq> None \<Longrightarrow> r = Ok ()"
proof -
  let ?p = "cancel_read_ahead q p" and ?i = "shard_for p q"
  let ?sh = "bp_shards p ! ?i"
  have sf: "shard_for ?p = shard_for p" by (rule shard_for_cong) simp
  have i: "?i < length (bp_shards ?p)" using coherentD(3) [OF c(1)] by (simp add: placed_def shard_for_less)
  have k0: "keeps crc p ?p (pins p)" by (rule keeps_same_shards [OF c(1)]) (simp_all add: queued_cancel)
  have co: "coherent crc (unlock ?i (?sh, ?p))" using unlock_same [of ?i ?p] keepsD(1) [OF k0] by simp
  have tp: "tidy_pool ?p" using c(2) by (simp add: tidy_pool_def)
  have t: "tidy ?sh" using tidy_nth [OF c(2)] i by simp
  have u: "fr_pins fr = 0" if "map_of (sh_resident ?sh) x = Some fr" for x fr
    using unpinned_shard [OF coherentD(3) [OF c(1)] c(3) _ that] i by simp
  have "tidy_pool p' \<and> (cls \<noteq> Streaming \<and> pool_view crc p q \<noteq> None \<longrightarrow> r = Ok ())"
  proof (cases "map_of (sh_resident ?sh) q")
    case (Some fr)
    then have p': "p' = unlock ?i (frame_hit q fr (bp_current_transaction p) ?sh, ?p)" "r = Ok ()"
      using a by (simp_all add: acquire_in_class_def lock_shard_unlock sf Let_def)
    have "filed ?sh" using t by (simp add: tidy_def)
    from frame_hit_filed [OF this Some refl, of "bp_current_transaction p"]
    have "tidy (frame_hit q fr (bp_current_transaction p) ?sh)"
      using t limits_capacity [of "frame_hit q fr (bp_current_transaction p) ?sh" ?sh] by (simp add: tidy_def)
    from tidy_pool_update [OF tp this refl] show ?thesis using p' by simp
  next
    case None
    obtain sh1 p1 where m: "m_then (take_buffer crc bar q cls) (load_page crc bar q cls) (?sh, ?p) = ((sh1, p1), r)" "p' = unlock ?i (sh1, p1)"
      using a None
      by (cases "m_then (take_buffer crc bar q cls) (load_page crc bar q cls) (?sh, ?p)")
         (auto simp: acquire_in_class_def lock_shard_unlock sf Let_def)
    have q1: "shard_for ?p q = ?i" using sf by simp
    note mt = miss_tidy [OF n t i co u q1 None q m(1)]
    have "pool_view crc p q = store_view crc (bp_store ?p) q" using None by (simp add: pool_view_def frame_of_def)
    then show ?thesis using mt m(2) tidy_pool_update [OF tp, of sh1 p1 ?i] by simp
  qed
  then show "tidy_pool p'" "cls \<noteq> Streaming \<Longrightarrow> pool_view crc p q \<noteq> None \<Longrightarrow> r = Ok ()" by simp_all
qed

section \<open>The other calls\<close>

lemma update_frame_tidy:
  assumes t: "tidy_pool p" and pl: "placed p" and f: "frame_of p q = Some fr" "tier_of (g fr) = tier_of fr"
  shows "tidy_pool (update_frame q g p)"
proof -
  let ?i = "shard_for p q"
  have i: "?i < length (bp_shards p)" using pl by (simp add: placed_def shard_for_less)
  have m: "map_of (sh_resident (bp_shards p ! ?i)) q = Some fr" using f(1) by (simp add: frame_of_def)
  have ts: "tidy (bp_shards p ! ?i)" by (rule tidy_nth [OF t i])
  then have fs: "filed (bp_shards p ! ?i)" by (simp add: tidy_def)
  have "frames (set_frame q (g fr) (bp_shards p ! ?i)) = frames (bp_shards p ! ?i)"
    using length_set_frame [OF filedD(1) [OF fs], of q "g fr"] m by (simp add: frames_def)
  then have "tidy (set_frame q (g fr) (bp_shards p ! ?i))"
    using filed_set [OF fs m f(2)] ts by (simp add: tidy_def set_frame_def)
  from tidy_pool_update [OF t this refl, of ?i] show ?thesis using m by (simp add: update_frame_def Let_def unlock_def)
qed

lemma tier_flags: "frame_flags fr' = frame_flags fr \<Longrightarrow> tier_of fr' = tier_of fr"
  by (simp add: frame_flags_def tier_of_def)

lemma write_back_page_tidy:
  assumes c: "coherent crc p" "tidy_pool p" and f: "frame_of p q = Some fr"
  shows "tidy_pool (fst (write_back_page crc bar q fr p))"
proof -
  obtain fr' p' r where w: "write_back_frame crc bar q fr p = ((fr', p'), r)" by (metis surj_pair)
  note k = write_back_keeps(2,3) [OF c(1) f w]
  have "tidy_pool p'" "placed p'" "frame_of p' q = Some fr"
    using c(2) k(1) coherentD(3) [OF c(1)] f by (simp_all add: tidy_pool_def placed_def frame_of_def shard_for_def)
  from update_frame_tidy [OF this, of "\<lambda>_. fr'"] show ?thesis using w tier_flags [OF k(2)] by (simp add: write_back_page_def)
qed

definition calm :: "(bytes \<Rightarrow> u32) \<Rightarrow> ('b, 'a) pool_m \<Rightarrow> bool" where
  "calm crc m \<longleftrightarrow> hidden crc m \<and> (\<forall>p. coherent crc p \<and> 0 \<notin> queued p \<and> tidy_pool p \<longrightarrow> tidy_pool (fst (m p)))"

lemma tidy_bind:
  assumes "keeps crc p (fst (m p)) (pins p)" "tidy_pool (fst (m p))" "0 \<notin> queued p" "\<And>a. calm crc (f a)"
  shows "tidy_pool (fst (m_bind m f p))"
proof -
  obtain p1 r1 where m: "m p = (p1, r1)" by fastforce
  have "coherent crc p1" "0 \<notin> queued p1" "tidy_pool p1" using assms(1-3) m by (auto simp: keeps_def)
  then show ?thesis using assms(2,4) m by (cases r1) (simp_all add: m_bind_def calm_def)
qed

lemma calm_bind: "calm crc m \<Longrightarrow> (\<And>a. calm crc (f a)) \<Longrightarrow> calm crc (m_bind m f)"
  using hidden_bind [of crc m f] tidy_bind [of crc _ m f] unfolding calm_def hidden_def by blast

lemma calm_pure [simp]: "calm crc (m_return a)" "calm crc (m_lift r)" "calm crc m_get" "calm crc (m_gets g)"
  by (simp_all add: calm_def) (simp_all add: m_return_def m_lift_def m_get_def m_gets_def)

lemma calm_store: "calm crc (on_bp_store (store_flush crc))" "calm crc (on_bp_store store_sync)"
  by (simp_all add: calm_def hidden_flush_store hidden_sync_store) (simp_all add: on_bp_store_def tidy_pool_def split: prod.split)

lemma calm_flush_pages: "calm crc (flush_pages crc bar ids n)"
proof -
  have "tidy_pool (fst (flush_pages crc bar ids n p))" if "coherent crc p" "0 \<notin> queued p" "tidy_pool p" for p
    using that
  proof (induction ids arbitrary: n p)
    case (Cons q ids)
    show ?case
    proof (cases "frame_of p q")
      case (Some fr)
      have "calm crc (flush_pages crc bar ids k)" for k using Cons.IH hidden_flush_pages by (simp add: calm_def)
      then have "tidy_pool (fst (m_bind (write_back_page crc bar q fr) (\<lambda>w. flush_pages crc bar ids (n + of_bool w)) p))"
        using Cons.prems Some by (intro tidy_bind [where crc = crc] write_back_page_keeps write_back_page_tidy) simp_all
      then show ?thesis using Some by simp
    qed (use Cons in simp)
  qed simp
  then show ?thesis using hidden_flush_pages by (simp add: calm_def)
qed

lemma calm_flush_shards: "calm crc (flush_shards crc bar is n)"
proof (induction "is" arbitrary: n)
  case Nil
  show ?case unfolding calm_def by (intro conjI hidden_flush_shards) simp
next
  case (Cons i "is")
  have "calm crc (m_bind (flush_pages crc bar ids n) (flush_shards crc bar is))" for ids
    by (intro calm_bind calm_flush_pages Cons.IH)
  then show ?case using hidden_flush_shards [of crc bar "i # is"] unfolding calm_def by simp
qed

lemma calm_flush_all: "calm crc (flush_all crc bar)"
proof -
  have "calm crc (m_bind (flush_shards crc bar is 0)
      (\<lambda>flushed. m_bind (on_bp_store (store_flush crc)) (\<lambda>_. m_return flushed)))" for "is"
    by (intro calm_bind calm_flush_shards calm_store calm_pure)
  then show ?thesis using hidden_flush_all unfolding calm_def flush_all_def by blast
qed

lemma calm_writeback_loop: "calm crc (writeback_loop crc bar expired cs rep)"
proof (induction cs arbitrary: rep)
  case Nil
  show ?case unfolding calm_def by (intro conjI hidden_writeback_loop) simp
next
  case (Cons q cs)
  have "tidy_pool (fst (writeback_candidate crc bar q r p))" if c: "coherent crc p" "0 \<notin> queued p" "tidy_pool p" for r p
  proof (cases "frame_of p q")
    case (Some fr)
    have "tidy_pool (fst (m_bind (write_back_page crc bar q fr) (\<lambda>w. m_return (g w)) p))" for g :: "bool \<Rightarrow> writeback_report"
      using c Some by (intro tidy_bind [where crc = crc] write_back_page_keeps write_back_page_tidy) simp_all
    then show ?thesis using c Some by (simp add: writeback_candidate_def Let_def tidy_pool_def)
  qed (use c in \<open>simp add: writeback_candidate_def Let_def tidy_pool_def\<close>)
  then have "calm crc (writeback_candidate crc bar q r)" for r using hidden_writeback_candidate by (simp add: calm_def)
  then have "calm crc (m_bind (writeback_candidate crc bar q r) (writeback_loop crc bar expired cs))" for r
    by (intro calm_bind Cons.IH)
  then show ?case using hidden_writeback_loop [of crc bar expired "q # cs" rep] unfolding calm_def by simp
qed

lemma calm_if: "calm crc m \<Longrightarrow> calm crc m' \<Longrightarrow> calm crc (if b then m else m')"
  by simp

lemma calm_writeback_step: "calm crc (writeback_step crc bar expired cursor limits)"
  unfolding writeback_step_def Let_def m_then_def
  by (intro calm_bind calm_if calm_writeback_loop calm_store calm_pure)

lemma evict_clean_filed:
  "filed sh \<Longrightarrow> evict_clean_probationary n sh = (sh', b) \<Longrightarrow>
     filed sh' \<and> frames sh' + of_bool b = frames sh \<and> limits_of sh' = limits_of sh \<and> sh_metadata sh' = sh_metadata sh"
proof (induction n sh rule: evict_clean_probationary.induct)
  case (2 n sh)
  show ?case
  proof (cases "sh_probationary sh")
    case (Cons c rest)
    then have q: "queue_of Probation sh = c # rest" by simp
    then obtain fr where fr: "map_of (sh_resident sh) c = Some fr" using filedD(3) [OF "2.prems"(1), of c Probation] by auto
    let ?popped = "sh\<lparr>sh_probationary := rest\<rparr>" and ?turned = "sh\<lparr>sh_probationary := rest @ [c]\<rparr>"
    have w: "?popped = with_queue Probation rest sh" "?turned = with_queue Probation (rest @ [c]) sh" by (simp_all add: with_queue.simps)
    show ?thesis
    proof (cases "fr_pins fr \<noteq> 0 \<or> fr_dirty fr")
      case True
      have fb: "filed ?turned" unfolding w(2) by (rule filed_queue [OF "2.prems"(1)]) (use filedD(2) [OF "2.prems"(1), of Probation] q in auto)
      have "evict_clean_probationary n ?turned = (sh', b)" using "2.prems"(2) Cons fr True by (simp add: Let_def)
      from "2.IH"(2) [OF Cons refl fr True fb this] show ?thesis by (simp add: frames_def limits_of_def)
    next
      case False
      then have s: "sh' = drop_frame c ?popped" "b" using "2.prems"(2) Cons fr by (auto simp: Let_def)
      have "filed sh'" unfolding s(1) w(1) by (rule filed_drop [OF "2.prems"(1) q])
      moreover have "length (sh_resident sh') + 1 = length (sh_resident sh)"
        using length_drop_frame [of ?popped c fr] filedD(1) [OF "2.prems"(1)] fr s(1) by simp
      moreover have "limits_of sh' = limits_of sh" "sh_metadata sh' = sh_metadata sh" "sh_free sh' = sh_free sh"
        unfolding s(1) w(1) by simp_all
      ultimately show ?thesis using s(2) by (simp add: frames_def)
    qed
  qed (use "2.prems" in simp)
qed simp

lemma prefetch_one_tidy:
  assumes c: "coherent crc p" "tidy_pool p"
  shows "tidy_pool (fst (prefetch_one crc q p))"
proof (cases "frame_of p q")
  case (Some fr)
  then show ?thesis using c(2) by (simp add: prefetch_one_def lock_shard_def frame_of_def Let_def)
next
  case None
  let ?i = "shard_for p q" let ?sh = "bp_shards p ! ?i"
  have i: "?i < length (bp_shards p)" using coherentD(3) [OF c(1)] by (simp add: placed_def shard_for_less)
  let ?take = "if sh_free ?sh > 0 then (?sh\<lparr>sh_free := sh_free ?sh - 1\<rparr>, True) else evict_clean_probationary (length (sh_probationary ?sh)) ?sh"
  obtain sh1 ok where t: "?take = (sh1, ok)" by fastforce
  have n: "map_of (sh_resident ?sh) q = None" using None by (simp add: frame_of_def)
  have ts: "tidy ?sh" by (rule tidy_nth [OF c(2) i])
  then have fs: "filed ?sh" by (simp add: tidy_def)
  have f1: "filed sh1 \<and> frames sh1 + of_bool ok = frames ?sh \<and> limits_of sh1 = limits_of ?sh \<and> sh_metadata sh1 = sh_metadata ?sh"
  proof (cases "sh_free ?sh > 0")
    case True
    then have "sh1 = ?sh\<lparr>sh_free := sh_free ?sh - 1\<rparr>" "ok" using t by simp_all
    then show ?thesis using fs True by (simp add: filed_def frames_def)
  qed (use t evict_clean_filed [OF fs] in simp)
  note lc = limits_capacity [of sh1 ?sh]
  have n1: "map_of (sh_resident sh1) q = None"
    using t n evict_clean_absent [OF n, of "length (sh_probationary ?sh)"] by (auto split: if_splits)
  have tf: "tidy (sh1\<lparr>sh_free := sh_free sh1 + 1\<rparr>)" if ok using that f1 ts lc by (simp add: tidy_def frames_def filed_def)
  have td: "tidy sh1" if "\<not> ok" using that f1 ts lc by (simp add: tidy_def)
  have ta: "tidy ((set_frame q (frame_prefetched b) sh1)\<lparr>sh_probationary := sh_probationary sh1 @ [q]\<rparr>)" if ok for b
  proof -
    have tier: "tier_of (frame_prefetched b) = Probation" by (simp add: tier_of_def frame_prefetched_def)
    let ?new = "with_queue Probation (queue_of Probation sh1 @ [q]) (set_frame q (frame_prefetched b) sh1)"
    have "filed ?new" using filed_add [of sh1 q "frame_prefetched b"] f1 n1 tier by simp
    moreover have "frames ?new = frames sh1 + 1" using length_set_frame [of sh1 q] f1 n1 by (simp add: filedD(1) frames_def)
    ultimately have "tidy ?new" using that f1 ts lc limits_capacity [of ?new sh1] by (simp add: tidy_def)
    then show ?thesis by (simp add: with_queue.simps)
  qed
  have "prefetch_one crc q p = (case (if ok then (case read_page crc (bp_store p) q of
      Ok (_, b) \<Rightarrow> (((set_frame q (frame_prefetched b) sh1)\<lparr>sh_probationary := sh_probationary sh1 @ [q]\<rparr>, p), Ok Loaded)
    | Err _ \<Rightarrow> ((sh1\<lparr>sh_free := sh_free sh1 + 1\<rparr>, p), Ok ReadError) | Panic \<Rightarrow> ((sh1, p), Panic))
     else ((sh1, p), Ok AdmissionDeclined)) of (x, r) \<Rightarrow> (unlock ?i x, r))"
    using n t unfolding prefetch_one_def lock_shard_unlock by (cases ok; simp; simp add: Let_def split: prod.split)
  then show ?thesis
    using tf td ta tidy_pool_update [OF c(2) _ refl] read_page_no_panic [of crc "bp_store p" q]
    by (cases ok; cases "read_page crc (bp_store p) q") auto
qed

lemma calm_read_ahead_loop: "calm crc (read_ahead_loop crc expired fuel rep)"
proof -
  have "tidy_pool (fst (read_ahead_loop crc expired fuel rep p))" if "coherent crc p" "0 \<notin> queued p" "tidy_pool p" for p :: "'a pool"
    using that
  proof (induction fuel arbitrary: rep p)
    case (Suc fuel)
    show ?case
    proof (cases "ra_pending (bp_read_ahead p)")
      case (Cons q rest)
      let ?p = "p\<lparr>bp_read_ahead := (bp_read_ahead p)\<lparr>ra_pending := rest\<rparr>, bp_read_ahead_saturated := False\<rparr>"
      have k: "keeps crc p ?p (pins p)" by (rule keeps_same_shards) (use Suc.prems Cons in \<open>auto simp: queued_def\<close>)
      have q: "q \<noteq> 0" "0 \<notin> queued ?p" using Suc.prems(2) Cons by (auto simp: queued_def)
      have t: "tidy_pool ?p" using Suc.prems(3) by (simp add: tidy_pool_def)
      have "calm crc (read_ahead_loop crc expired fuel r :: ('a, _) pool_m)" for r using Suc.IH hidden_read_ahead_loop unfolding calm_def by blast
      then have "tidy_pool (fst (m_bind (prefetch_one crc q) (\<lambda>out. read_ahead_loop crc expired fuel (g out)) ?p))" for g
        using keepsD(1) [OF k] q t by (intro tidy_bind [where crc = crc] prefetch_one_keeps prefetch_one_tidy) simp_all
      then show ?thesis using Suc.prems Cons by simp
    qed (use Suc.prems in simp)
  qed simp
  then show ?thesis unfolding calm_def using hidden_read_ahead_loop by blast
qed

lemma calm_read_ahead_step: "calm crc (read_ahead_step crc expired limits)"
  unfolding read_ahead_step_def Let_def
  by (intro calm_bind calm_pure calm_read_ahead_loop) (simp add: split_beta calm_bind)

lemma flush_pages_steady:
  assumes "never_fails bar"
  shows "coherent crc p \<Longrightarrow> 0 \<notin> queued p \<Longrightarrow> \<exists>p' k. flush_pages crc bar ids n p = (p', Ok k)"
proof (induction ids arbitrary: n p)
  case (Cons q ids)
  show ?case
  proof (cases "frame_of p q")
    case (Some fr)
    obtain fr' p1 b where w: "write_back_frame crc bar q fr p = ((fr', p1), Ok b)"
      using write_back_steady [OF assms Cons.prems(1) Some] by (metis prod.collapse)
    then have wp: "write_back_page crc bar q fr p = (update_frame q (\<lambda>_. fr') p1, Ok b)" by (simp add: write_back_page_def)
    have k: "keeps crc p (update_frame q (\<lambda>_. fr') p1) (pins p)" using write_back_page_keeps [OF Cons.prems(1) Some, of bar] wp by simp
    then have "0 \<notin> queued (update_frame q (\<lambda>_. fr') p1)" using Cons.prems(2) unfolding keeps_def by blast
    from Cons.IH [OF keepsD(1) [OF k] this, of "n + of_bool b"] show ?thesis using Some wp by (simp add: m_bind_def)
  qed (use Cons in simp)
qed simp

lemma flush_shards_steady:
  assumes "never_fails bar"
  shows "coherent crc p \<Longrightarrow> 0 \<notin> queued p \<Longrightarrow> \<exists>p' k. flush_shards crc bar is n p = (p', Ok k)"
proof (induction "is" arbitrary: n p)
  case (Cons i "is")
  obtain p1 k where f: "flush_pages crc bar (dirty_frames (bp_shards p ! i)) n p = (p1, Ok k)"
    using flush_pages_steady [OF assms Cons.prems] by blast
  note kp = hidden_at [OF hidden_flush_pages Cons.prems f]
  have "0 \<notin> queued p1" using kp Cons.prems(2) unfolding keeps_def by blast
  from Cons.IH [OF keepsD(1) [OF kp] this, of k] show ?case using f by (simp add: m_bind_def)
qed simp

lemma flush_all_steady:
  assumes "never_fails bar" "coherent crc p" "0 \<notin> queued p"
  shows "\<exists>p' k. flush_all crc bar p = (p', Ok k)"
proof -
  obtain p1 k where f: "flush_shards crc bar [0..<length (bp_shards p)] 0 p = (p1, Ok k)" using flush_shards_steady [OF assms] by blast
  note kp = keepsD(1) [OF hidden_at [OF hidden_flush_shards assms(2,3) f]]
  obtain s' where "store_flush crc (bp_store p1) = (s', Ok ())" by (rule flush_moves_on [OF coherentD(1,2) [OF kp], of crc]) blast
  then show ?thesis using f by (simp add: flush_all_def m_bind_def on_bp_store_def m_return_def)
qed

section \<open>Histories\<close>

text \<open>
  What must succeed: reads in the search and metadata classes, overwrites and warm-ups of pages that
  hold contents, and flushes.
\<close>

fun granted :: "(page_id \<rightharpoonup> bytes) \<Rightarrow> pool_op \<Rightarrow> bool" where
  "granted m (ReadPage q cls) \<longleftrightarrow> cls \<noteq> Streaming \<and> m q \<noteq> None"
| "granted m (WritePage q _) \<longleftrightarrow> m q \<noteq> None"
| "granted m (Warm q) \<longleftrightarrow> m q \<noteq> None"
| "granted m FlushAll \<longleftrightarrow> True"
| "granted m _ \<longleftrightarrow> False"

lemma get_in_class_tidy:
  assumes n: "never_fails bar" and s: "serves crc p m" "tidy_pool p" and q: "q \<noteq> 0" and g: "get_in_class crc bar q cls p = (p', r)"
  shows "tidy_pool p'" "cls \<noteq> Streaming \<Longrightarrow> m q \<noteq> None \<Longrightarrow> is_ok r"
proof -
  have c: "coherent crc p" "pins p = (\<lambda>_. 0)" "m \<subseteq>\<^sub>m pool_view crc p" using s(1) by (simp_all add: serves_def)
  obtain p1 r1 where a: "acquire_in_class crc bar q cls p = (p1, r1)" by fastforce
  note t = acquire_tidy [OF n c(1) s(2) c(2) q a]
  have p': "p' = p1" using g a by (cases r1) (auto simp: get_in_class_def m_then_def m_bind_def m_read_def)
  then show "tidy_pool p'" using t(1) by simp
  assume r: "cls \<noteq> Streaming" "m q \<noteq> None"
  then have "pool_view crc p q \<noteq> None" using map_le_implies_dom_le [OF c(3)] by blast
  then have ok: "r1 = Ok ()" using t(2) r(1) by simp
  then obtain fr where "frame_of p1 q = Some fr"
    using pinned_frame [of p1 q] keepsD(2) [OF acquire_keeps [OF c(1) q a]] by auto
  then show "is_ok r" using g a ok by (auto simp: get_in_class_def m_then_def m_bind_def m_read_def guard_bytes_def)
qed

lemma guarded_tidy:
  assumes s: "serves crc p m" "tidy_pool p'" and q: "q \<noteq> 0" and g: "get_in_class crc bar q cls p = (p', Ok b)"
  shows "tidy_pool (unpin q p')" "tidy_pool (release_mut q data p')"
proof -
  have "coherent crc p" using s(1) by (simp add: serves_def)
  from get_in_class_keeps [OF this q g] obtain fr where k: "coherent crc p'" "frame_of p' q = Some fr"
    by (auto simp: keeps_def)
  note u = update_frame_tidy [OF s(2) coherentD(3) [OF k(1)] k(2)]
  show "tidy_pool (unpin q p')" using u [of "\<lambda>fr. fr\<lparr>fr_pins := fr_pins fr - 1\<rparr>"] by (simp add: unpin_def tier_of_def)
  show "tidy_pool (release_mut q data p')"
    using u [of "\<lambda>fr. fr\<lparr>fr_data := data, fr_dirty := True, fr_needs_log := True, fr_pins := fr_pins fr - 1\<rparr>"]
    by (simp add: release_mut_def tier_of_def Let_def) (simp add: tidy_pool_def)
qed

lemma read_step_tidy:
  assumes n: "never_fails bar" and s: "serves crc p m" "tidy_pool p" and q: "q \<noteq> 0"
    and g: "m_bind (get_in_class crc bar q cls) (\<lambda>b p. (unpin q p, Ok b)) p = (p', r)"
  shows "tidy_pool p'" "cls \<noteq> Streaming \<Longrightarrow> m q \<noteq> None \<Longrightarrow> is_ok r"
proof -
  obtain p1 r1 where a: "get_in_class crc bar q cls p = (p1, r1)" by fastforce
  note t = get_in_class_tidy [OF n s q a]
  show "tidy_pool p'" using g a t(1) guarded_tidy(1) [OF s(1) t(1) q] by (cases r1) (auto simp: m_bind_def)
  assume "cls \<noteq> Streaming" "m q \<noteq> None"
  then show "is_ok r" using t(2) g a by (cases r1) (auto simp: m_bind_def)
qed

lemma write_step_tidy:
  assumes n: "never_fails bar" and s: "serves crc p m" "tidy_pool p" and q: "q \<noteq> 0" and ro: "\<not> bp_read_only p"
    and g: "m_bind (get_mut crc bar q) (\<lambda>_ p. (release_mut q data p, Ok ())) p = (p', r)"
  shows "tidy_pool p'" "m q \<noteq> None \<Longrightarrow> is_ok r"
proof -
  obtain p1 r1 where a: "get_in_class crc bar q Search p = (p1, r1)" by fastforce
  note t = get_in_class_tidy [OF n s q a]
  have gm: "get_mut crc bar q p = (p1, r1)" using a ro by (simp add: get_mut_def)
  show "tidy_pool p'" using g gm a t(1) guarded_tidy(2) [OF s(1) t(1) q] by (cases r1) (auto simp: m_bind_def)
  assume "m q \<noteq> None"
  then show "is_ok r" using t(2) g gm by (cases r1) (auto simp: m_bind_def)
qed

lemma request_read_ahead_shards:
  "bp_shards (fst (request_read_ahead ids p)) = bp_shards p" "bp_read_only (fst (request_read_ahead ids p)) = bp_read_only p"
proof -
  have "bp_shards (fst (fold submit_one ids (p, rep))) = bp_shards p \<and> bp_read_only (fst (fold submit_one ids (p, rep))) = bp_read_only p" for rep
  proof (induction ids arbitrary: p rep)
    case (Cons q ids)
    obtain p1 rep1 where e: "submit_one q (p, rep) = (p1, rep1)" by fastforce
    then have "bp_shards p1 = bp_shards p" "bp_read_only p1 = bp_read_only p" by (auto simp: submit_one_def Let_def split: if_splits)
    then show ?case using Cons.IH [of p1 rep1] e by simp
  qed simp
  then show "bp_shards (fst (request_read_ahead ids p)) = bp_shards p" "bp_read_only (fst (request_read_ahead ids p)) = bp_read_only p"
    by (simp_all add: request_read_ahead_def Let_def split_beta)
qed

lemma warm_ok: "m_bind (get_in_class crc bar q Search) (\<lambda>b p. (unpin q p, Ok b)) p = (p1, r1) \<Longrightarrow> is_ok r1 \<Longrightarrow>
    pool_warm crc bar q p = (p1, Ok True)"
  by (cases r1) (auto simp: pool_warm_def m_bind_def split: prod.splits result.splits)

lemma fst_reply [simp]: "fst (reply f x) = fst x"
  by (cases x) (simp add: reply_def)

lemma pool_step_tidy:
  assumes n: "never_fails bar" and s: "serves crc p m" "tidy_pool p" "\<not> bp_read_only p" and o: "op_ok (ps_page_size (bp_store p)) op"
    and e: "pool_step crc bar op p = (p', r)"
  shows "tidy_pool p' \<and> (granted m op \<longrightarrow> r \<noteq> Failed)"
proof -
  have c: "coherent crc p" "0 \<notin> queued p" using s(1) by (simp_all add: serves_def)
  have pe: "p' = fst (pool_step crc bar op p)" using e by simp
  have quiet: "tidy_pool (fst (act p))" if "calm crc act" for act :: "('a, 'c) pool_m"
    using that c s(2) by (simp add: calm_def)
  show ?thesis
  proof (cases op)
    case (ReadPage q cls)
    obtain r1 where r1: "m_bind (get_in_class crc bar q cls) (\<lambda>b p. (unpin q p, Ok b)) p = (p', r1)"
      "r = (case r1 of Ok b \<Rightarrow> Contents b | _ \<Rightarrow> Failed)" using e ReadPage by (auto simp: reply_def split: prod.splits)
    then show ?thesis using read_step_tidy [OF n s(1,2) _ r1(1)] o ReadPage by (cases r1) auto
  next
    case (WritePage q data)
    obtain r1 where r1: "m_bind (get_mut crc bar q) (\<lambda>_ p. (release_mut q data p, Ok ())) p = (p', r1)"
      "r = (case r1 of Ok b \<Rightarrow> Done | _ \<Rightarrow> Failed)" using e WritePage by (auto simp: reply_def split: prod.splits)
    then show ?thesis using write_step_tidy [OF n s(1,2) _ s(3) r1(1)] o WritePage by (cases r1; cases "m q") auto
  next
    case (Warm q)
    obtain p1 r1 where r1: "m_bind (get_in_class crc bar q Search) (\<lambda>b p. (unpin q p, Ok b)) p = (p1, r1)" by fastforce
    have "p' = p1" using e Warm warm_as_read [of crc bar q p] r1 by (auto simp: reply_def split: prod.splits)
    moreover have "r \<noteq> Failed" if "is_ok r1" using warm_ok [OF r1 that] e Warm by (auto simp: reply_def)
    ultimately show ?thesis using read_step_tidy [OF n s(1,2) _ r1] o Warm by simp
  next
    case FlushAll
    then show ?thesis using quiet [OF calm_flush_all, of bar] flush_all_steady [OF n c] e by (auto simp: reply_def)
  next
    case (RequestReadAhead ids)
    then show ?thesis using e s(2) request_read_ahead_shards(1) [of ids p] by (auto simp: tidy_pool_def)
  next
    case (SetTransaction t)
    then show ?thesis using e s(2) by (auto simp: set_current_transaction_def tidy_pool_def)
  qed (use pe quiet [OF calm_writeback_step, of bar] quiet [OF calm_read_ahead_step] in simp_all)
qed

lemma keeps_read_only: "keeps crc p p' f \<Longrightarrow> bp_read_only p' = bp_read_only p"
  by (simp add: keeps_def)

lemma pool_step_read_only:
  assumes s: "serves crc p m" and o: "op_ok (ps_page_size (bp_store p)) op" and e: "pool_step crc bar op p = (p', r)"
  shows "bp_read_only p' = bp_read_only p"
proof -
  have c: "coherent crc p" "0 \<notin> queued p" using s by (simp_all add: serves_def)
  have pe: "p' = fst (pool_step crc bar op p)" using e by simp
  have quiet: "bp_read_only (fst (act p)) = bp_read_only p" if "hidden crc act" for act :: "('a, 'c) pool_m"
    using that c keeps_read_only by (fastforce simp: hidden_def)
  show ?thesis
  proof (cases op)
    case (ReadPage q cls)
    obtain r1 where r1: "m_bind (get_in_class crc bar q cls) (\<lambda>b p. (unpin q p, Ok b)) p = (p', r1)"
      using e ReadPage by (auto simp: reply_def split: prod.splits)
    then show ?thesis using read_step_serves [OF s _ r1] o ReadPage keeps_read_only by auto
  next
    case (WritePage q data)
    obtain r1 where r1: "m_bind (get_mut crc bar q) (\<lambda>_ p. (release_mut q data p, Ok ())) p = (p', r1)"
      using e WritePage by (auto simp: reply_def split: prod.splits)
    obtain p1 r2 where a: "get_in_class crc bar q Search p = (p1, r2)" by fastforce
    have "\<exists>f. keeps crc p p1 f" using get_in_class_keeps [OF c(1) _ a] o WritePage by (cases r2) auto
    then have "bp_read_only p1 = bp_read_only p" using keeps_read_only by blast
    moreover have "bp_read_only (release_mut q data p1) = bp_read_only p1"
      by (simp add: release_mut_def Let_def)
    ultimately show ?thesis using r1 a by (cases r2) (auto simp: m_bind_def get_mut_def split: if_splits)
  next
    case (Warm q)
    obtain p1 r1 where r1: "m_bind (get_in_class crc bar q Search) (\<lambda>b p. (unpin q p, Ok b)) p = (p1, r1)" by fastforce
    have "p' = p1" using e Warm warm_as_read [of crc bar q p] r1 by (auto simp: reply_def split: prod.splits)
    then show ?thesis using read_step_serves [OF s _ r1] o Warm keeps_read_only by auto
  next
    case (RequestReadAhead ids)
    then show ?thesis using e request_read_ahead_shards(2) [of ids p] by auto
  next
    case (SetTransaction t)
    then show ?thesis using e by (auto simp: set_current_transaction_def)
  qed (use pe quiet [OF hidden_flush_all, of bar] quiet [OF hidden_writeback_step, of bar] quiet [OF hidden_read_ahead_step]
       in simp_all)
qed

lemma memory_step_dom: "m q \<noteq> None \<Longrightarrow> memory_step op r m q \<noteq> None"
  by (cases "(op, r, m)" rule: memory_step.cases) auto

lemma granted_mono: "granted m op \<Longrightarrow> granted (memory_step op' r m) op"
  by (cases op) (simp_all del: not_None_eq add: memory_step_dom)

lemma pool_run_tidy:
  assumes "never_fails bar"
  shows "serves crc p m \<Longrightarrow> tidy_pool p \<Longrightarrow> \<not> bp_read_only p \<Longrightarrow> list_all (op_ok (ps_page_size (bp_store p))) ops \<Longrightarrow>
    pool_run crc bar ops p = (p', rs) \<Longrightarrow>
    tidy_pool p' \<and> (\<forall>j < length ops. granted m (ops ! j) \<longrightarrow> rs ! j \<noteq> Failed)"
proof (induction ops arbitrary: p m rs)
  case (Cons op ops)
  obtain p1 r where e: "pool_step crc bar op p = (p1, r)" by fastforce
  obtain rs' where rs: "pool_run crc bar ops p1 = (p', rs')" "rs = r # rs'" using Cons.prems(5) e by (auto split: prod.splits)
  have o: "op_ok (ps_page_size (bp_store p)) op" "list_all (op_ok (ps_page_size (bp_store p))) ops" using Cons.prems(4) by simp_all
  note sv = pool_step_serves [OF Cons.prems(1) o(1) e] and td = pool_step_tidy [OF assms Cons.prems(1-3) o(1) e]
  have "tidy_pool p' \<and> (\<forall>j < length ops. granted (memory_step op r m) (ops ! j) \<longrightarrow> rs' ! j \<noteq> Failed)"
    by (rule Cons.IH [OF _ _ _ _ rs(1)]) (use sv td o(2) pool_step_read_only [OF Cons.prems(1) o(1) e] Cons.prems(3) in simp_all)
  then show ?case using td rs(2) granted_mono [of m] by (auto simp: nth_Cons split: nat.split)
qed simp

lemma shard_new_tidy: "0 < cap \<Longrightarrow> tidy (shard_new a b c cap)"
proof -
  assume cap: "0 < cap"
  have "queue_of k (shard_new a b c cap) = []" for k by (cases k) (simp_all add: shard_new_def)
  then have "filed (shard_new a b c cap)" by (simp add: filed_def) (simp add: shard_new_def)
  moreover have "cap div 4 < cap" using cap by simp
  then have "sh_metadata_capacity (shard_new a b c cap) < cap" using cap by (auto simp: shard_new_def clamp_def)
  ultimately show ?thesis by (simp add: tidy_def frames_def) (simp add: shard_new_def)
qed

lemma pool_new_tidy:
  assumes "pool_new a b c budget shards ra ro s = Ok p"
  shows "tidy_pool p"
proof -
  let ?total = "unat (budget div of_nat (ps_page_size s))"
  let ?n = "min (max shards 1) ?total"
  have t: "0 < ?total" and p: "bp_shards p = map (\<lambda>index. shard_new a b c (?total div ?n + of_bool (index < ?total mod ?n))) [0..<?n]"
    using assms by (auto simp: pool_new_def Let_def split: if_splits)
  have "?n \<le> ?total" "0 < ?n" using t by simp_all
  then have "0 < ?total div ?n" by (simp only: div_greater_zero_iff)
  then show ?thesis by (simp add: tidy_pool_def p list_all_iff shard_new_tidy)
qed

end
