(* ===== verification/Pool_Properties.thy ===== *)
theory Pool_Properties
  imports Pool_Admission
begin

text \<open>
  What the replacement policy of the buffer pool promises and where it falls short: admission,
  isolation of the cache classes, a frame that no queue holds any more, and the transaction a dirty
  page is logged under.
\<close>

section \<open>A pool with a protected page, for the examples\<close>

abbreviation (input) accept :: "unit barrier" where
  "accept \<equiv> \<lambda>_ _ _ b. (b, Ok ())"

lemma accept_steady: "never_fails accept"
  by (simp add: never_fails_def)

abbreviation (input) four_frames :: shard where
  "four_frames \<equiv> shard_new (\<lambda>n. 3 * n div 4) (\<lambda>n. n div 4) (\<lambda>n. n div 8) 4"

definition tiny_pool :: "unit pool" where
  "tiny_pool = (case pool_new (\<lambda>n. 3 * n div 4) (\<lambda>n. n div 4) (\<lambda>n. n div 8) 2048 1 16 False one_page_store of Ok p \<Rightarrow> p)"

lemma tiny_pool_new:
  "pool_new (\<lambda>n. 3 * n div 4) (\<lambda>n. n div 4) (\<lambda>n. n div 8) 2048 1 16 False one_page_store = Ok tiny_pool"
  "bp_shards tiny_pool = [four_frames]" "ra_pending (bp_read_ahead tiny_pool) = []" "bp_current_transaction tiny_pool = 0"
  "bp_store tiny_pool = one_page_store"
  unfolding tiny_pool_def using one_page_store_ok(3,4) by (simp_all add: pool_new_def Let_def)

lemma tiny_pool_serves: "serves (\<lambda>_. 7) tiny_pool (store_view (\<lambda>_. 7) one_page_store)" "tidy_pool tiny_pool" "\<not> bp_read_only tiny_pool"
  using pool_new_serves(1) [OF one_page_store_ok(1,2) tiny_pool_new(1)] pool_new_serves(3) [OF one_page_store_ok(1,2) tiny_pool_new(1)]
    pool_new_tidy [OF tiny_pool_new(1)] by simp_all

lemma tiny_reads:
  defines "p1 \<equiv> fst (pool_run (\<lambda>_. 7) accept [ReadPage 5 Search, ReadPage 5 Search] tiny_pool)"
  shows "\<exists>fr. frame_of p1 5 = Some fr \<and> tier_of fr = Protection" "frame_of p1 9 = None"
proof -
  obtain h b where r: "read_page (\<lambda>_. 7) one_page_store 5 = Ok (h, b)"
    using one_page_store_ok(5) by (auto simp: store_view_def split: result.splits)
  note d = pool_step.simps reply_def m_bind_def get_in_class_def m_then_def acquire_in_class_def lock_shard_def shard_for_def
    cancel_read_ahead_def ra_cancel_def take_buffer_def load_page_def admit_def frame_new_def m_read_def guard_bytes_def frame_of_def
    unpin_def update_frame_def frame_hit_def set_frame_def enforce_protected_capacity_def remove_from_def shard_new_def clamp_def
  have p1: "\<exists>fr sh. bp_shards p1 = [sh] \<and> sh_resident sh = [(5, fr)] \<and> tier_of fr = Protection"
    unfolding p1_def using tiny_pool_new r by (simp add: d Let_def tier_of_def)
  then show "\<exists>fr. frame_of p1 5 = Some fr \<and> tier_of fr = Protection" "frame_of p1 9 = None"
    by (auto simp: frame_of_def shard_for_def)
qed

section \<open>Isolation\<close>

lemma frame_of_other_shard:
  assumes "length (bp_shards p') = length (bp_shards p)" "\<And>j. j < length (bp_shards p) \<Longrightarrow> j \<noteq> i \<Longrightarrow> bp_shards p' ! j = bp_shards p ! j"
    "bp_shards p \<noteq> []" "shard_for p x \<noteq> i"
  shows "frame_of p' x = frame_of p x"
  using assms shard_for_cong [OF assms(1)] shard_for_less [OF assms(3), of x] by (simp add: frame_of_def)

lemma miss_isolated:
  assumes n: "never_fails bar" and f: "filed sh" and i: "i < length (bp_shards p)" and co: "coherent crc (unlock i (sh, p))"
    and q: "shard_for p q = i" "map_of (sh_resident sh) q = None" "q \<noteq> 0"
    and m: "m_then (take_buffer crc bar q cls) (load_page crc bar q cls) (sh, p) = ((sh', p'), r)"
  shows "bp_shards p' = bp_shards p \<and>
    (\<forall>x fr. map_of (sh_resident sh) x = Some fr \<and> tier_of fr \<notin> set (reach cls) \<longrightarrow> cores sh' x = cores sh x)"
proof -
  obtain sh1 p1 r1 where tb: "take_buffer crc bar q cls (sh, p) = ((sh1, p1), r1)" by (metis surj_pair)
  note f1 = take_buffer_filed [OF n f i co tb]
  have c1: "cores sh1 x = cores sh x \<and> (\<exists>fr1. map_of (sh_resident sh1) x = Some fr1 \<and> tier_of fr1 \<notin> set (reach cls))"
    if x: "map_of (sh_resident sh) x = Some fr" "tier_of fr \<notin> set (reach cls)" for x fr
  proof -
    have c: "cores sh1 x = cores sh x" using f1(6) x by blast
    then obtain fr1 where "map_of (sh_resident sh1) x = Some fr1" "core fr1 = core fr" using x(1) by (auto simp: cores_def)
    then show ?thesis using c x(2) core_simps(1) by metis
  qed
  have n1: "map_of (sh_resident sh1) q = None"
    using take_buffer_no_frame [of q "(sh, p)" crc bar q cls] q(2) tb by (simp add: no_frame_def)
  have un: "unseen crc i (sh, p) (sh1, p1)" using take_buffer_unseen [of crc i "(sh, p)" bar q cls] tb by simp
  then have k1: "coherent crc (unlock i (sh1, p1))" "i < length (bp_shards p1)"
    using i co keepsD(1) by (auto simp: unseen_def)
  have sf1: "shard_for p1 q = i" using f1(2) q(1) by (simp add: shard_for_def)
  show ?thesis
  proof (cases "r1 = Ok ()")
    case True
    have l: "load_page crc bar q cls (sh1, p1) = ((sh', p'), r)" using m tb True by (simp add: m_then_def m_bind_Ok)
    show ?thesis
    proof (cases "read_page crc (bp_store p1) q")
      case (Ok hb)
      then obtain h b where b: "read_page crc (bp_store p1) q = Ok (h, b)" by (cases hb) simp
      then have e: "admit crc bar q cls b (sh1, p1) = (sh', p')" using l by (auto simp: load_page_def)
      note ad = admit_filed(4,6) [OF n f1(1) k1(2,1) sf1 n1 q(3) b e]
      show ?thesis using ad c1 f1(2) by metis
    qed (use l c1 f1(2) in \<open>auto simp: load_page_def\<close>)
  next
    case False
    then show ?thesis using m tb c1 f1(2) by (cases r1) (auto simp: m_then_def m_bind_def)
  qed
qed



section \<open>Admission\<close>

text \<open>
  C6. Readers and writers are never turned away. As long as the barrier accepts write-backs and no
  guard is held across calls, in any sequence of calls every read of a page with contents in the
  search or metadata class succeeds, and so does every overwrite, warm-up and flush; every resident
  page stays in exactly the queue of its tier, resident and free frames together stay exactly the
  frame budget of each shard, and the metadata tier stays within its share.
\<close>

theorem admission_never_refused:
  assumes "never_fails bar" "serves crc p m" "tidy_pool p" "\<not> bp_read_only p"
    and "list_all (op_ok (ps_page_size (bp_store p))) ops" "pool_run crc bar ops p = (p', rs)"
  shows "tidy_pool p' \<and> (\<forall>j < length ops. granted m (ops ! j) \<longrightarrow> rs ! j \<noteq> Failed)"
  using assms by (rule pool_run_tidy)

theorem admission_never_refused_witness:
  "let (p', rs) = pool_run (\<lambda>_. 7) accept [ReadPage 5 Search, WritePage 5 (leaf_image 2), ReadPage 9 Streaming, FlushAll, ReadPage 5 Metadata] tiny_pool
   in tidy_pool p' \<and> rs ! 0 \<noteq> Failed \<and> rs ! 1 \<noteq> Failed \<and> rs ! 3 \<noteq> Failed \<and> rs ! 4 \<noteq> Failed"
proof -
  let ?ops = "[ReadPage 5 Search, WritePage 5 (leaf_image 2), ReadPage 9 Streaming, FlushAll, ReadPage 5 Metadata]"
  obtain p rs where p: "pool_run (\<lambda>_. 7) accept ?ops tiny_pool = (p, rs)" by fastforce
  have o: "list_all (op_ok (ps_page_size (bp_store tiny_pool))) ?ops"
    using tiny_pool_new(5) one_page_store_ok(3) leaf_image_ok [of 2] by simp
  have l: "length ?ops = 5" by simp
  note a = admission_never_refused [OF accept_steady tiny_pool_serves o p, unfolded l]
  have "granted (store_view (\<lambda>_. 7) one_page_store) (?ops ! j)" if "j \<in> {0, 1, 3, 4}" for j
    using that one_page_store_ok(5) by auto
  moreover have "j < 5" if "j \<in> {0, 1, 3, 4}" for j :: nat using that by auto
  ultimately have "\<forall>j \<in> {0, 1, 3, 4}. rs ! j \<noteq> Failed" "tidy_pool p" using a by blast+
  then show ?thesis using p by simp
qed

section \<open>Shortcomings\<close>

definition one_frame :: "page_id \<Rightarrow> frame \<Rightarrow> shard" where
  "one_frame q fr = \<lparr> sh_resident = [(q, fr)], sh_probationary = [q], sh_protected = [], sh_streaming = [], sh_metadata = [],
     sh_free = 0, sh_protected_capacity = 0, sh_streaming_capacity = 0, sh_metadata_capacity = 0, sh_capacity = 1 \<rparr>"

text \<open>
  C33. An eviction whose write-back fails strands the frame. The candidate has been taken out of its
  queue before the write-back, and the error leaves it in no queue, resident and unpinned: once the
  barrier works again the shard still refuses every admission, although nothing is pinned.
\<close>

theorem failed_writeback_strands_frame:
  assumes "fr_dirty fr" "fr_needs_log fr" "fr_pins fr = 0" "bp_barrier p = Some b"
  shows "\<exists>sh. evict_one crc (\<lambda>_ _ _ b. (b, Err Io)) w Search (one_frame q fr, p) = ((sh, p), Err Io) \<and>
    map_of (sh_resident sh) q = Some fr \<and> (\<forall>k. q \<notin> set (queue_of k sh)) \<and>
    evict_one crc (\<lambda>_ _ _ b. (b, Ok ())) w Search (sh, p) = ((sh, p), Err (PoolExhausted w 1))"
proof -
  let ?sh = "(one_frame q fr)\<lparr>sh_probationary := []\<rparr>"
  have "p\<lparr>bp_barrier := Some b\<rparr> = p" using assms(4) by (cases p) simp
  then have "evict_one crc (\<lambda>_ _ _ b. (b, Err Io)) w Search (one_frame q fr, p) = ((?sh, p), Err Io)"
    using assms by (simp add: one_frame_def evict_one_def evict_from_probationary_def m_bind_def try_reclaim_def write_back_frame_def
        barrier_for_def set_frame_def)
  moreover have "evict_one crc (\<lambda>_ _ _ b. (b, Ok ())) w Search (?sh, p) = ((?sh, p), Err (PoolExhausted w 1))"
    by (simp add: one_frame_def evict_one_def evict_from_probationary_def evict_from_protected_def evict_from_streaming_def m_bind_def m_return_def)
  moreover have "queue_of k ?sh = []" for k by (cases k) (simp_all add: one_frame_def)
  ultimately show ?thesis by (intro exI [of _ ?sh]) (simp add: one_frame_def)
qed

theorem failed_writeback_strands_frame_witness:
  "\<exists>sh. evict_one (\<lambda>_. 7) (\<lambda>_ _ _ b. (b, Err Io)) 9 Search
       (one_frame 5 ((frame_prefetched (leaf_image 1))\<lparr>fr_dirty := True, fr_needs_log := True\<rparr>), tiny_pool\<lparr>bp_barrier := Some ()\<rparr>) =
         ((sh, tiny_pool\<lparr>bp_barrier := Some ()\<rparr>), Err Io) \<and>
     evict_one (\<lambda>_. 7) (\<lambda>_ _ _ b. (b, Ok ())) 9 Search (sh, tiny_pool\<lparr>bp_barrier := Some ()\<rparr>) =
       ((sh, tiny_pool\<lparr>bp_barrier := Some ()\<rparr>), Err (PoolExhausted 9 1))"
  using failed_writeback_strands_frame [of "(frame_prefetched (leaf_image 1))\<lparr>fr_dirty := True, fr_needs_log := True\<rparr>"
      "tiny_pool\<lparr>bp_barrier := Some ()\<rparr>" "()" "\<lambda>_. 7" 9 5] by (auto simp: frame_prefetched_def)

lemma demote_fields:
  "map_option (\<lambda>fr. (fr_data fr, fr_dirty fr, fr_needs_log fr, fr_dirtied_by fr)) (map_of (sh_resident (demote n sh)) x) =
   map_option (\<lambda>fr. (fr_data fr, fr_dirty fr, fr_needs_log fr, fr_dirtied_by fr)) (map_of (sh_resident sh) x)"
  by (induction n sh rule: demote.induct) (auto simp: Let_def split: list.split option.split)

text \<open>
  C34. A read relabels a dirty page. When a page that one transaction has changed is merely read
  while another transaction \<open>t\<close> is current, the frame records \<open>t\<close> as the transaction that dirtied it,
  and the write-back hands the image to the barrier under \<open>t\<close>.
\<close>

theorem read_relabels_dirty_page:
  assumes "coherent crc p" "frame_of p q = Some fr" "fr_dirty fr" "fr_needs_log fr" "bp_barrier p = Some b"
  shows "\<exists>p' fr'. acquire_in_class crc bar q cls (set_current_transaction t p) = (p', Ok ()) \<and> frame_of p' q = Some fr' \<and>
    fr_data fr' = fr_data fr \<and> fr_dirtied_by fr' = t \<and>
    snd (write_back_frame crc (\<lambda>_ tx _ b. (b, if tx = t then Err Io else Ok ())) q fr' p') = Err Io"
proof -
  let ?p = "cancel_read_ahead q (set_current_transaction t p)" and ?i = "shard_for p q"
  let ?sh = "bp_shards p ! ?i"
  let ?h = "frame_hit q fr t ?sh"
  have m: "map_of (sh_resident ?sh) q = Some fr" using assms(2) by (simp add: frame_of_def)
  have i: "?i < length (bp_shards p)" using coherentD(3) [OF assms(1)] by (simp add: placed_def shard_for_less)
  have sh: "bp_shards ?p = bp_shards p" "bp_current_transaction ?p = t" "bp_barrier ?p = Some b"
    using assms(5) by (simp_all add: set_current_transaction_def)
  have sf: "shard_for ?p q = ?i" "shard_for (unlock ?i (?h, ?p)) q = ?i" using sh(1) by (simp_all add: shard_for_def)
  have a: "acquire_in_class crc bar q cls (set_current_transaction t p) = (unlock ?i (?h, ?p), Ok ())"
    using m sh sf by (simp add: acquire_in_class_def lock_shard_unlock Let_def)
  have "map_option (\<lambda>fr. (fr_data fr, fr_dirty fr, fr_needs_log fr, fr_dirtied_by fr)) (map_of (sh_resident ?h) q) =
      Some (fr_data fr, fr_dirty fr, fr_needs_log fr, t)"
    by (simp add: frame_hit_def Let_def enforce_protected_capacity_def demote_fields del: demote.simps map_option_eq_Some)
  then obtain fr' where fr': "map_of (sh_resident ?h) q = Some fr'" "fr_data fr' = fr_data fr" "fr_dirty fr'" "fr_needs_log fr'" "fr_dirtied_by fr' = t"
    using assms(3,4) by auto
  have "frame_of (unlock ?i (?h, ?p)) q = Some fr'" using fr'(1) sf(2) sh(1) i by (simp add: frame_of_def)
  moreover have "bp_barrier (unlock ?i (?h, ?p)) = Some b" using sh(3) by (simp add: unlock_def)
  ultimately show ?thesis using a fr' by (auto simp: write_back_frame_def barrier_for_def)
qed

lemma tiny_write:
  defines "p1 \<equiv> fst (pool_run (\<lambda>_. 7) accept [WritePage 5 (leaf_image 2)] tiny_pool)"
  shows "\<exists>fr. frame_of p1 5 = Some fr \<and> fr_dirty fr \<and> fr_needs_log fr"
proof -
  obtain h b where r: "read_page (\<lambda>_. 7) one_page_store 5 = Ok (h, b)"
    using one_page_store_ok(5) by (auto simp: store_view_def split: result.splits)
  have "\<exists>fr sh. bp_shards p1 = [sh] \<and> sh_resident sh = [(5, fr)] \<and> fr_dirty fr \<and> fr_needs_log fr"
    unfolding p1_def using tiny_pool_new tiny_pool_serves(3) r
    by (simp add: get_mut_def release_mut_def reply_def m_bind_def get_in_class_def m_then_def acquire_in_class_def lock_shard_def
        shard_for_def cancel_read_ahead_def ra_cancel_def take_buffer_def load_page_def admit_def frame_new_def m_read_def guard_bytes_def
        frame_of_def update_frame_def set_frame_def shard_new_def Let_def)
  then show ?thesis by (auto simp: frame_of_def shard_for_def)
qed

theorem read_relabels_dirty_page_witness:
  "\<exists>p p' fr'. acquire_in_class (\<lambda>_. 7) accept 5 Search (set_current_transaction 8 p) = (p', Ok ()) \<and> frame_of p' 5 = Some fr' \<and> fr_dirtied_by fr' = 8"
proof -
  let ?ops = "[WritePage 5 (leaf_image 2)]"
  obtain p rs where p: "pool_run (\<lambda>_. 7) accept ?ops tiny_pool = (p, rs)" by fastforce
  have o: "list_all (op_ok (ps_page_size (bp_store tiny_pool))) ?ops"
    using tiny_pool_new(5) one_page_store_ok(3) leaf_image_ok [of 2] by simp
  have "serves (\<lambda>_. 7) p (fold (\<lambda>(op, r). memory_step op r) (zip ?ops rs) (store_view (\<lambda>_. 7) one_page_store))"
    using pool_run_serves [OF tiny_pool_serves(1) o p] by simp
  from serves_cong [OF this, of "p\<lparr>bp_barrier := Some ()\<rparr>"] this
  have c: "coherent (\<lambda>_. 7) (p\<lparr>bp_barrier := Some ()\<rparr>)" by (simp add: serves_def queued_def)
  obtain fr where "frame_of p 5 = Some fr" "fr_dirty fr" "fr_needs_log fr" using tiny_write p by auto
  then have "frame_of (p\<lparr>bp_barrier := Some ()\<rparr>) 5 = Some fr" "fr_dirty fr" "fr_needs_log fr" by (simp_all add: frame_of_def shard_for_def)
  from read_relabels_dirty_page [OF c this, of "()" accept Search 8] show ?thesis by auto
qed

end
