(* ===== verification/Spec2Isabelle.thy ===== *)
theory Spec2Isabelle
imports Prelude Effects Page_Error Page Std_Collections Slotted Slotted_Page Recovered Mvcc Mvcc_Steps
  Mvcc_Visibility Page_File Page_Alloc Free_List Page_Migration Store_Reopen Free_Repair Store_Reserve
  Wal Wal_Log Wal_Index Wal_History Wal_Crash Wal_Sync Wal_Recovery Pool Pool_Maintain Pool_Inv Pool_Access Pool_History
  Pool_Queues Pool_Admission Pool_Properties
begin

text \<open>
  \<^bold>\<open>BicDB page store: a shallow embedding of the crate \<open>bicdb-page\<close>.\<close>

  \<open>src/crates/bicdb-page\<close> is the storage engine below BicDB's collections. A store is a file of
  fixed-size pages, optionally split into segment files, with a superblock in page 0
  (\<open>manager.rs\<close>). Records live in slotted heap pages (\<open>slotted.rs\<close>) and carry version headers;
  which version a reader sees is decided by the transaction table (\<open>mvcc.rs\<close>). Changes of pages are
  logged as full page images in the write-ahead log (\<open>wal.rs\<close>), and a crashed store is rebuilt from
  the log, the page file and the recorded transaction outcomes. Pages are read and written through
  a buffer pool (\<open>pool.rs\<close>).

  \<^bold>\<open>How code is modelled.\<close> Machine integers are words (\<open>u16\<close>, \<open>u32\<close>, \<open>u64\<close>, bytes), with
  wrap-around and saturation as in the sources; \<open>usize\<close> lengths and in-memory counters are natural
  numbers. Buffers and files are lists of bytes. Structs are records, enums are datatypes.
  Fallible code returns a result with \<open>Ok\<close>, \<open>Err\<close> and \<open>Panic\<close>, where \<open>Panic\<close> is an index or slice
  out of range; stateful fallible code is a function from the state to the new state and a result
  (\<open>Prelude\<close>, \<open>Effects\<close>). The checksum of the crate \<open>crc32fast\<close> is the parameter \<open>crc\<close> of every
  definition that uses it; a property that needs more than a function of the bytes says so in its
  hypotheses. Paths, messages and the causes of I/O errors are dropped from the errors.

  \<^bold>\<open>The theories and what they model.\<close>

  \<^item> \<open>Prelude\<close>, \<open>Effects\<close>, \<open>Std_Collections\<close>: shared vocabulary, little-endian fields, slices, results,
    the state-and-result monad, and the ordered collections and binary searches of the standard
    library.
  \<^item> \<open>Page_Error\<close> (\<open>error.rs\<close>) and \<open>Page\<close> (\<open>page.rs\<close>): the error type; the page header, page types,
    checksum and the two generation stamps. Shown: encode and decode are inverse, and torn writes
    and single corrupted bytes are detected.
  \<^item> \<open>Slotted\<close>, \<open>Slotted_Page\<close> (\<open>slotted.rs\<close>): every operation of \<open>SlottedPage\<close> on the bytes of the
    page, the layout invariant and its preservation. The contract of a page of tuples is the
    locale \<open>tuple_page\<close>, interpreted on these operations; the properties are the refinement of a
    map from locators to values, and what compaction, insertion, update and deletion do. On pages
    above 64 KiB compaction loses tuples, which is shown too.
  \<^item> \<open>Recovered\<close>, \<open>Mvcc\<close>, \<open>Mvcc_Steps\<close>, \<open>Mvcc_Visibility\<close> (\<open>mvcc.rs\<close>, parts of \<open>paged.rs\<close>): the compact
    outcomes, the version header, the transaction table with its watermark and spill, and the
    visibility predicates. \<open>table_step\<close> is the step relation of a running store. Shown: snapshot
    isolation, finality of outcomes, that freezing changes no status, the state after a restart,
    and where the watermark jump of the repair path departs from its description.
  \<^item> \<open>Page_File\<close>, \<open>Page_Alloc\<close>, \<open>Free_List\<close> (\<open>manager.rs\<close>, \<open>pio.rs\<close>): positioned reads and writes with
    fault injection, the monolithic, segmented and migrating layouts, the superblock, opening,
    and allocation over the free list that is threaded through the pages. The contract of an
    allocator is the locale \<open>page_allocator\<close>, interpreted on the store. Shown: no run of
    allocations and releases hands a live page out or changes its bytes.
  \<^item> \<open>Page_Migration\<close>, \<open>Store_Reopen\<close>, \<open>Free_Repair\<close>, \<open>Store_Reserve\<close> (\<open>manager.rs\<close>): the online
    migration to segments keeps every page and completes; a flushed store is restored by opening
    its files, except early in a migration; adoption and repair leave a well-formed free list; how
    growing the store and writing a page act in every layout.
  \<^item> \<open>Wal\<close>, \<open>Wal_Log\<close> (\<open>wal.rs\<close>): the record format, appending with segment sealing, the commit index,
    the streaming scan, truncation and reset. \<open>Wal_Log\<close> relates the bytes of the files to a list
    of records: a scan visits exactly the records and ends before the first undecodable byte.
  \<^item> \<open>Wal_Index\<close>, \<open>Wal_History\<close>, \<open>Wal_Crash\<close>, \<open>Wal_Sync\<close> (\<open>wal.rs\<close>): the commit index is a bounded,
    exact set; a history of operations reads back as its records; an acknowledged commit
    survives a crash whatever bytes follow it; the group commit of many threads as a step
    relation, with durability and progress. A failed append hides later commits.
  \<^item> \<open>Wal_Recovery\<close> (\<open>wal.rs\<close>): the two passes of \<open>recover_with_outcomes\<close> and the publication of a
    checkpoint. Shown: recovery returns, applies exactly the committed images, and reports the
    outcomes of the log; and that a reset cut short makes it put old images back.
  \<^item> \<open>Pool\<close>, \<open>Pool_Maintain\<close> (\<open>pool.rs\<close>): the sharded buffer pool with its 2Q queues, admission and
    eviction per cache class, write-back behind a barrier, pins, allocation, flushing, the
    background write-back and read-ahead steps and the warm list. The barrier is a parameter with
    a state of its own. \<open>Pool_Inv\<close>, \<open>Pool_Access\<close>, \<open>Pool_History\<close>: frames and store stay coherent, and
    a history of pool operations behaves as a memory of pages whatever is evicted or written back
    in between; a flushed pool is restored from its files. \<open>Pool_Queues\<close>, \<open>Pool_Admission\<close>,
    \<open>Pool_Properties\<close>: every unpinned frame stays reachable for eviction, an admission is refused
    only when its classes hold no unpinned frame, and a class keeps the frames other classes may
    not take. A failed write-back strands a frame, and a read relabels a dirty page.

  \<^bold>\<open>Bounds and fuel.\<close> The loop of \<open>sync_through\<close> is a \<open>partial_function\<close> and is shown to return. The
  walks over the free list recurse on the free-page count the superblock holds, as the loops of the
  code do. \<open>run_migration\<close> takes fuel, and enough fuel is shown to complete a migration. Hypotheses
  of the form \<open>unat n < 2 ^ 64\<close> keep page offsets and log sequence numbers in their 64 bits.

  \<^bold>\<open>What is not modelled.\<close> The B+ tree, heap files, overflow chains, catalog, backup, tiered
  storage and most of \<open>paged.rs\<close>; latches, the loading marker and the worker threads of the pool; metrics, timestamps and durations; the operating system below a
  file, except for failing and torn writes and failing syncs; and the crates above \<open>bicdb-page\<close> (core
  engine, SQL, servers, runtimes and tools). Mutexes are modelled by atomic critical sections, and
  only group commit and the status lookup are treated as interleavings.
\<close>

end
